(* ===== verification/Prelude.thy ===== *)
theory Prelude
  imports Main "HOL-Library.Word" "HOL-Library.Sublist" "HOL-Library.Multiset"
    "HOL-Library.Char_ord" "HOL-Library.List_Lexorder"
begin

section \<open>Prelude\<close>

text \<open>
  What every component shares: the named collections the component proofs
  extend, the machine integers of the Go code, wrap-around of signed 64-bit
  arithmetic, and generic lemmas on lists and on folds over association lists.
\<close>

named_theorems go_string "evaluation rules of the string routines"
named_theorems go_time "constants and arithmetic of time values"
named_theorems model_defs "non-recursive definitions of the model, unfolded by the component proofs"

type_synonym u8 = "8 word"
type_synonym u16 = "16 word"
type_synonym u32 = "32 word"

subsection \<open>Signed 64-bit arithmetic\<close>

text \<open>
  Go's \<open>int\<close> and \<open>time.Duration\<close> are signed 64-bit on the supported platforms.
  They are modelled as \<open>int\<close>, and a product that can leave the range is wrapped
  explicitly, as the machine does.
\<close>

definition wrap64 :: "int \<Rightarrow> int" where
  "wrap64 x = (x + 2 ^ 63) mod 2 ^ 64 - 2 ^ 63"

lemma wrap64_id: "- (2 ^ 63) \<le> x \<Longrightarrow> x < 2 ^ 63 \<Longrightarrow> wrap64 x = x"
  by (simp add: wrap64_def)

lemma wrap64_bounds: "- (2 ^ 63) \<le> wrap64 x \<and> wrap64 x < 2 ^ 63"
proof -
  have "0 \<le> (x + 2 ^ 63) mod 2 ^ 64" "(x + 2 ^ 63) mod 2 ^ 64 < (2 ^ 64 :: int)"
    by simp_all
  then show ?thesis by (simp add: wrap64_def)
qed

subsection \<open>Time\<close>

text \<open>
  A point in time is the number of nanoseconds since the Unix epoch, a duration
  a number of nanoseconds. \<open>time.Time.Unix\<close> is the number of whole seconds.
\<close>

type_synonym time = int
type_synonym duration = int

definition second :: duration where "second = 10 ^ 9"
definition minute :: duration where "minute = 60 * second"
definition hour :: duration where "hour = 60 * minute"

definition unix :: "time \<Rightarrow> int" where
  "unix t = t div second"

lemmas time_const_defs [go_time] = second_def minute_def hour_def

lemma second_pos [simp]: "0 < second"
  by (simp add: second_def)

lemma unix_add_seconds: "unix (t + n * second) = unix t + n"
proof -
  have "second \<noteq> 0" using second_pos by linarith
  then show ?thesis unfolding unix_def by simp
qed

lemma unix_mono: "s \<le> t \<Longrightarrow> unix s \<le> unix t"
  by (simp add: unix_def zdiv_mono1 second_def)

subsection \<open>Lists\<close>

text \<open>The first element that satisfies a predicate, with what follows it dropped.\<close>

lemma find_append:
  "find P (xs @ ys) = (case find P xs of None \<Rightarrow> find P ys | Some x \<Rightarrow> Some x)"
  by (induction xs) auto

lemma find_SomeD: "find P xs = Some x \<Longrightarrow> x \<in> set xs \<and> P x"
  by (auto simp: find_Some_iff)

text \<open>Exchanging two positions of a list keeps the elements.\<close>

definition swap :: "'a list \<Rightarrow> nat \<Rightarrow> nat \<Rightarrow> 'a list" where
  "swap xs i j = xs[i := xs ! j, j := xs ! i]"

lemma length_swap [simp]: "length (swap xs i j) = length xs"
  by (simp add: swap_def)

lemma mset_swap_positions:
  assumes "i < length xs" "j < length xs"
  shows "mset (swap xs i j) = mset xs"
  using assms by (simp add: swap_def mset_swap)

lemma nth_swap_other: "k \<noteq> i \<Longrightarrow> k \<noteq> j \<Longrightarrow> swap xs i j ! k = xs ! k"
  by (simp add: swap_def)

lemma nth_swap:
  assumes "i < length xs" "j < length xs"
  shows "swap xs i j ! k = (if k = j then xs ! i else if k = i then xs ! j else xs ! k)"
  using assms by (cases "k < length xs") (auto simp: swap_def nth_list_update list_update_beyond)

subsection \<open>Deleting from a slice while indexing it\<close>

text \<open>
  The loop the code writes to delete elements in place,
  \<open>for i := 0; i < len(xs); i++ { if drop(xs[i]) { xs = append(xs[:i], xs[i+1:]...); i-- } }\<close>.
\<close>

function del_loop :: "('a \<Rightarrow> bool) \<Rightarrow> nat \<Rightarrow> 'a list \<Rightarrow> 'a list" where
  "del_loop P i xs =
     (if i < length xs then
        if P (xs ! i) then del_loop P i (take i xs @ drop (i + 1) xs) else del_loop P (i + 1) xs
      else xs)"
  by pat_completeness auto
termination
  by (relation "measure (\<lambda>(P, i, xs). length xs - i)") auto

declare del_loop.simps [simp del]

lemma del_loop_filter: "del_loop P i xs = take i xs @ filter (\<lambda>x. \<not> P x) (drop i xs)"
proof (induction P i xs rule: del_loop.induct)
  case (1 P i xs)
  show ?case
  proof (cases "i < length xs")
    case True
    then have d: "drop i xs = xs ! i # drop (i + 1) xs" by (simp add: Cons_nth_drop_Suc)
    show ?thesis
    proof (cases "P (xs ! i)")
      case del: True
      have "del_loop P i xs = del_loop P i (take i xs @ drop (i + 1) xs)"
        using True del by (subst del_loop.simps) simp
      also have "\<dots> = take i xs @ filter (\<lambda>x. \<not> P x) (drop (i + 1) xs)"
        using "1.IH"(1) [OF True del] True by simp
      finally show ?thesis using d del by simp
    next
      case keep: False
      have "del_loop P i xs = del_loop P (i + 1) xs"
        using True keep by (subst del_loop.simps) simp
      also have "\<dots> = take (i + 1) xs @ filter (\<lambda>x. \<not> P x) (drop (i + 1) xs)"
        using "1.IH"(2) [OF True keep] by simp
      finally show ?thesis using d keep True by (simp add: take_Suc_conv_app_nth)
    qed
  next
    case False
    then show ?thesis by (subst del_loop.simps) simp
  qed
qed

lemma del_loop_0 [simp]: "del_loop P 0 xs = filter (\<lambda>x. \<not> P x) xs"
  by (simp add: del_loop_filter)

subsection \<open>Updates over an association list\<close>

text \<open>
  Inserting the pairs of a list one by one into a map: the last pair of a key wins.
  With distinct keys the order of the list does not matter.
\<close>

definition upd_all :: "('k \<times> 'v) list \<Rightarrow> ('k \<rightharpoonup> 'v) \<Rightarrow> ('k \<rightharpoonup> 'v)" where
  "upd_all kvs m = fold (\<lambda>(k, v) m. m(k \<mapsto> v)) kvs m"

lemma upd_all_Nil [simp]: "upd_all [] m = m"
  by (simp add: upd_all_def)

lemma upd_all_Cons [simp]: "upd_all ((k, v) # kvs) m = upd_all kvs (m(k \<mapsto> v))"
  by (simp add: upd_all_def)

lemma upd_all_append: "upd_all (kvs @ kvs') m = upd_all kvs' (upd_all kvs m)"
  by (simp add: upd_all_def)

lemma upd_all_map_of_rev: "upd_all kvs m = m ++ map_of (rev kvs)"
  by (induction kvs arbitrary: m) (auto simp: map_add_def fun_eq_iff split: option.splits)

lemma upd_all_distinct:
  assumes "distinct (map fst kvs)"
  shows "upd_all kvs m = m ++ map_of kvs"
  using assms
proof (induction kvs arbitrary: m)
  case Nil
  then show ?case by simp
next
  case (Cons kv kvs)
  obtain k v where kv: "kv = (k, v)" by (cases kv)
  with Cons.prems have "k \<notin> dom (map_of kvs)" by (simp add: dom_map_of_conv_image_fst)
  with Cons kv show ?case by (auto simp: map_add_def fun_eq_iff split: option.split)
qed


text \<open>
  Inserting a list whose pairs are exactly the graph of a map overrides with that map,
  whatever the order of the list.
\<close>

lemma upd_all_graph:
  assumes "\<And>k v. (k, v) \<in> set kvs \<longleftrightarrow> f k = Some v"
  shows "upd_all kvs m = m ++ f"
proof -
  have "map_of (rev kvs) = f"
  proof
    fix k
    show "map_of (rev kvs) k = f k"
    proof (cases "f k")
      case None
      with assms [of k] show ?thesis by (auto simp: map_of_eq_None_iff)
    next
      case (Some v)
      with assms have "(k, v) \<in> set (rev kvs)" by simp
      then obtain v' where v': "map_of (rev kvs) k = Some v'"
        by (metis option.exhaust map_of_eq_None_iff image_eqI fst_conv)
      with assms have "f k = Some v'" by (auto dest: map_of_SomeD)
      with v' show ?thesis by simp
    qed
  qed
  then show ?thesis by (simp add: upd_all_map_of_rev)
qed

subsection \<open>Results\<close>

text \<open>
  A fallible step returns \<open>Inl\<close> an error or \<open>Inr\<close> a value. \<open>fold_r\<close> is a loop whose body may
  return early with an error.
\<close>

fun and_then :: "'e + 'a \<Rightarrow> ('a \<Rightarrow> 'e + 'b) \<Rightarrow> 'e + 'b" where
  "and_then (Inl e) f = Inl e"
| "and_then (Inr x) f = f x"

lemma and_then_Inr: "and_then r f = Inr y \<longleftrightarrow> (\<exists>x. r = Inr x \<and> f x = Inr y)"
  by (cases r) auto

fun fold_r :: "('x \<Rightarrow> 's \<Rightarrow> 'e + 's) \<Rightarrow> 'x list \<Rightarrow> 's \<Rightarrow> 'e + 's" where
  "fold_r f [] s = Inr s"
| "fold_r f (x # xs) s = and_then (f x s) (fold_r f xs)"

lemma fold_r_append: "fold_r f (xs @ ys) s = and_then (fold_r f xs s) (fold_r f ys)"
proof (induction xs arbitrary: s)
  case (Cons x xs)
  then show ?case by (cases "f x s") auto
qed simp

lemma fold_r_map: "fold_r f (map g xs) s = fold_r (\<lambda>x. f (g x)) xs s"
proof (induction xs arbitrary: s)
  case (Cons x xs)
  then show ?case by (cases "f (g x) s") auto
qed simp

lemma fold_r_concat: "fold_r f (concat xss) s = fold_r (fold_r f) xss s"
proof (induction xss arbitrary: s)
  case (Cons xs xss)
  then show ?case by (cases "fold_r f xs s") (auto simp: fold_r_append)
qed simp

lemma fold_r_invariant:
  assumes "fold_r f xs s = Inr s'" "P s"
    and "\<And>x s s'. x \<in> set xs \<Longrightarrow> P s \<Longrightarrow> f x s = Inr s' \<Longrightarrow> P s'"
  shows "P s'"
  using assms
proof (induction xs arbitrary: s)
  case (Cons x xs)
  then obtain t where "f x s = Inr t" "fold_r f xs t = Inr s'" by (auto simp: and_then_Inr)
  with Cons show ?case by (metis list.set_intros)
qed simp

text \<open>A loop that fails exactly when an element is bad, whatever the state.\<close>

lemma fold_r_fails:
  assumes "\<And>x s. (\<exists>e. f x s = Inl e) \<longleftrightarrow> bad x"
  shows "(\<exists>e. fold_r f xs s = Inl e) \<longleftrightarrow> (\<exists>x \<in> set xs. bad x)"
proof (induction xs arbitrary: s)
  case (Cons x xs)
  show ?case
  proof (cases "f x s")
    case (Inl e)
    with assms have "bad x" by blast
    with Inl show ?thesis by simp
  next
    case (Inr t)
    with assms [of x s] have "\<not> bad x" by simp
    with Inr Cons show ?thesis by simp
  qed
qed simp

subsection \<open>Ranging over a map\<close>

text \<open>
  A \<open>for range\<close> over a Go map visits every pair once, in an unspecified order. A loop over
  a map takes the list of the pairs in the order they are visited.
\<close>

definition enumerates :: "('k \<times> 'v) list \<Rightarrow> ('k \<rightharpoonup> 'v) \<Rightarrow> bool" where
  "enumerates kvs m \<longleftrightarrow> distinct (map fst kvs) \<and> map_of kvs = m"

lemma enumerates_set: "enumerates kvs m \<Longrightarrow> (k, v) \<in> set kvs \<longleftrightarrow> m k = Some v"
  by (auto simp: enumerates_def)

lemma enumerates_upd_all: "enumerates kvs m \<Longrightarrow> upd_all kvs Map.empty = m"
  by (simp add: enumerates_def upd_all_distinct)

lemma enumerates_mset:
  assumes "enumerates kvs m" "enumerates kvs' m"
  shows "mset kvs = mset kvs'"
proof -
  from assms have "distinct kvs" "distinct kvs'" by (auto simp: enumerates_def distinct_map)
  moreover have "set kvs = set kvs'"
  proof (rule set_eqI)
    fix kv :: "'a \<times> 'b"
    show "kv \<in> set kvs \<longleftrightarrow> kv \<in> set kvs'"
      using enumerates_set [OF assms(1)] enumerates_set [OF assms(2)] by (cases kv) simp
  qed
  ultimately show ?thesis using set_eq_iff_mset_eq_distinct by blast
qed

text \<open>
  A loop that builds its own visiting order: a function from a map to the pairs. One such
  order is alphabetical.
\<close>

definition range_law :: "(('k \<rightharpoonup> 'v) \<Rightarrow> ('k \<times> 'v) list) \<Rightarrow> bool" where
  "range_law range_of \<longleftrightarrow> (\<forall>m. finite (dom m) \<longrightarrow> enumerates (range_of m) m)"

definition sorted_range :: "('k::linorder \<rightharpoonup> 'v) \<Rightarrow> ('k \<times> 'v) list" where
  "sorted_range m = map (\<lambda>k. (k, the (m k))) (sorted_list_of_set (dom m))"

lemma sorted_range_law: "range_law sorted_range"
proof -
  have "enumerates (sorted_range m) m" if "finite (dom m)" for m :: "'a \<rightharpoonup> 'b"
  proof -
    have "map_of (sorted_range m) = m"
      using that by (auto simp: sorted_range_def map_of_map_restrict restrict_map_def fun_eq_iff domIff comp_def)
    moreover have "map fst (sorted_range m) = sorted_list_of_set (dom m)"
      by (simp add: sorted_range_def comp_def)
    ultimately show ?thesis by (simp add: enumerates_def)
  qed
  then show ?thesis by (simp add: range_law_def)
qed

subsection \<open>Splitting at the last occurrence of a separator\<close>

lemma split_at_last:
  assumes "xs @ c # ys = xs' @ c' # ys'" "\<forall>y \<in> set ys. P y" "\<forall>y \<in> set ys'. P y" "\<not> P c" "\<not> P c'"
  shows "xs = xs'" "c = c'" "ys = ys'"
proof -
  have "takeWhile P (rev (us @ d # vs)) = rev vs" "dropWhile P (rev (us @ d # vs)) = d # rev us"
    if "\<forall>y \<in> set vs. P y" "\<not> P d" for us d vs
    using that by (induction vs rule: rev_induct) auto
  from this [OF assms(2,4)] this [OF assms(3,5)] assms(1)
  have "rev ys = rev ys'" "c # rev xs = c' # rev xs'" by metis+
  then show "xs = xs'" "c = c'" "ys = ys'" by simp_all
qed

end
