(* ===== verification/Domain_Trie.thy ===== *)
theory Domain_Trie
  imports Go_Strings "HOL-Library.AList"
begin

section \<open>The domain trie (\<open>matcher/trie.go\<close>)\<close>

text \<open>
  The trie keeps one node per domain label, from the top-level domain down. A node's
  children are a Go map; the model is an association list with distinct keys, and where
  the code ranges over the map the visiting order is a parameter. The lock is a reader
  or writer lock around whole operations, so each operation is one atomic step here.

  The operations are followed by the abstraction of a trie to the map from label lists
  to rule flags, the laws of the operations over it (the locale \<open>suffix_rules\<close>, which is
  what the rule matcher relies on), and its interpretation on the trie.
\<close>

subsection \<open>Nodes and operations\<close>

datatype trie_node =
  Trie_Node (children: "(string \<times> trie_node) list") (is_end: bool) (is_block: bool)

definition new_trie_node :: trie_node where
  "new_trie_node = Trie_Node [] False False"

definition new_domain_trie :: trie_node where
  "new_domain_trie = new_trie_node"

text \<open>The labels of a domain, \<open>strings.Split(strings.Trim(domain, "."), ".")\<close>.\<close>

definition labels :: "string \<Rightarrow> string list" where
  "labels domain = split_on CHR ''.'' (trim_char CHR ''.'' domain)"

text \<open>The loop of \<open>Add\<close>, over the labels from the right; the last node is marked.\<close>

fun add_parts :: "trie_node \<Rightarrow> string list \<Rightarrow> bool \<Rightarrow> trie_node" where
  "add_parts (Trie_Node cs e b) [] block = Trie_Node cs True block"
| "add_parts (Trie_Node cs e b) (p # ps) block =
     (let child = (case map_of cs p of None \<Rightarrow> new_trie_node | Some n \<Rightarrow> n)
      in Trie_Node (AList.update p (add_parts child ps block) cs) e b)"

definition trie_add :: "trie_node \<Rightarrow> string \<Rightarrow> bool \<Rightarrow> trie_node" where
  "trie_add t domain block =
     (if domain = [] then t else add_parts t (rev (labels domain)) block)"

text \<open>The inner loop of \<open>Match\<close>: follow the labels down, if every child exists.\<close>

fun node_at :: "trie_node \<Rightarrow> string list \<Rightarrow> trie_node option" where
  "node_at n [] = Some n"
| "node_at n (p # ps) =
     (case map_of (children n) p of None \<Rightarrow> None | Some m \<Rightarrow> node_at m ps)"

text \<open>The outer loop: the whole domain first, then without its first label, and so on.\<close>

fun match_parts :: "trie_node \<Rightarrow> string list \<Rightarrow> bool \<times> bool \<times> bool" where
  "match_parts t [] = (False, False, False)"
| "match_parts t (p # ps) =
     (case node_at t (rev (p # ps)) of
        Some n \<Rightarrow> if is_end n then (True, is_block n, True) else match_parts t ps
      | None \<Rightarrow> match_parts t ps)"

definition trie_match :: "trie_node \<Rightarrow> string \<Rightarrow> bool \<times> bool \<times> bool" where
  "trie_match t domain =
     (if domain = [] then (False, False, False) else match_parts t (labels domain))"

text \<open>
  \<open>Walk\<close>: the calls of the callback, in order. \<open>ord\<close> is the order in which the range over
  a children map visits its entries.
\<close>

fun walk_node ::
  "((string \<times> bool) list list \<Rightarrow> (string \<times> bool) list list) \<Rightarrow>
   trie_node \<Rightarrow> string list \<Rightarrow> (string \<times> bool) list" where
  "walk_node ord (Trie_Node cs e b) parts =
     (if e then [(join ''.'' (rev parts), b)] else []) @
     concat (ord (map (\<lambda>(part, child). walk_node ord child (parts @ [part])) cs))"

definition trie_walk ::
  "((string \<times> bool) list list \<Rightarrow> (string \<times> bool) list list) \<Rightarrow> trie_node \<Rightarrow> (string \<times> bool) list"
where
  "trie_walk ord t = walk_node ord t []"

definition visits_all :: "('a list \<Rightarrow> 'a list) \<Rightarrow> bool" where
  "visits_all ord = (\<forall>xs. mset (ord xs) = mset xs)"

subsection \<open>The rules a trie stands for\<close>

definition path_map :: "trie_node \<Rightarrow> string list \<Rightarrow> bool option" where
  "path_map t ps =
     (case node_at t ps of None \<Rightarrow> None | Some n \<Rightarrow> if is_end n then Some (is_block n) else None)"

definition rules_of :: "trie_node \<Rightarrow> string list \<Rightarrow> bool option" where
  "rules_of t ls = path_map t (rev ls)"

text \<open>The most specific rule: the longest suffix of the labels that has one.\<close>

fun most_specific :: "(string list \<Rightarrow> bool option) \<Rightarrow> string list \<Rightarrow> bool option" where
  "most_specific m [] = None"
| "most_specific m (p # ps) = (case m (p # ps) of Some b \<Rightarrow> Some b | None \<Rightarrow> most_specific m ps)"

definition verdict :: "bool option \<Rightarrow> bool \<times> bool \<times> bool" where
  "verdict r = (case r of None \<Rightarrow> (False, False, False) | Some b \<Rightarrow> (True, b, True))"

lemma path_map_new [simp]: "path_map new_trie_node ps = None"
  by (cases ps) (auto simp: path_map_def new_trie_node_def)

lemma path_map_Nil: "path_map t [] = (if is_end t then Some (is_block t) else None)"
  by (simp add: path_map_def)

lemma path_map_Cons:
  "path_map t (p # ps) = (case map_of (children t) p of None \<Rightarrow> None | Some n \<Rightarrow> path_map n ps)"
  by (simp add: path_map_def split: option.split)

lemma map_of_AList_update [simp]: "map_of (AList.update k v al) = (map_of al)(k \<mapsto> v)"
  by (rule update_conv')

lemma path_map_add: "path_map (add_parts t ps b) = (path_map t)(ps \<mapsto> b)"
proof (induction t ps b rule: add_parts.induct)
  case (1 cs e b block)
  show ?case
  proof
    fix qs show "path_map (add_parts (Trie_Node cs e b) [] block) qs
        = ((path_map (Trie_Node cs e b))([] \<mapsto> block)) qs"
      by (cases qs) (auto simp: path_map_Nil path_map_Cons)
  qed
next
  case (2 cs e b p ps block)
  let ?c = "case map_of cs p of None \<Rightarrow> new_trie_node | Some n \<Rightarrow> n"
  have IH: "path_map (add_parts ?c ps block) = (path_map ?c)(ps \<mapsto> block)"
    by (rule "2.IH") simp
  show ?case
  proof
    fix qs show "path_map (add_parts (Trie_Node cs e b) (p # ps) block) qs
        = ((path_map (Trie_Node cs e b))(p # ps \<mapsto> block)) qs"
      by (cases qs) (auto simp: path_map_Nil path_map_Cons IH Let_def split: option.splits)
  qed
qed

lemma rules_of_add_parts: "rules_of (add_parts t (rev ls) b) = (rules_of t)(ls \<mapsto> b)"
  by (auto simp: rules_of_def path_map_add fun_eq_iff)

lemma match_parts_spec: "match_parts t ls = verdict (most_specific (rules_of t) ls)"
  by (induction ls) (auto simp: verdict_def rules_of_def path_map_def split: option.splits)

subsection \<open>Well-formed tries\<close>

text \<open>Map keys are distinct at every node.\<close>

fun trie_wf :: "trie_node \<Rightarrow> bool" where
  "trie_wf (Trie_Node cs e b) =
     (distinct (map fst cs) \<and> list_all (\<lambda>(p, c). trie_wf c) cs)"

lemma trie_wf_new: "trie_wf new_trie_node"
  by (simp add: new_trie_node_def)

lemma trie_wf_child: "trie_wf t \<Longrightarrow> map_of (children t) p = Some c \<Longrightarrow> trie_wf c"
  by (cases t) (auto simp: list_all_iff dest!: map_of_SomeD)

lemma distinct_update_keys: "distinct (map fst al) \<Longrightarrow> distinct (map fst (AList.update k v al))"
  by (rule distinct_update)

lemma set_update_subset: "set (AList.update k v al) \<subseteq> insert (k, v) (set al)"
  by (induction al) auto

lemma trie_wf_add_parts: "trie_wf t \<Longrightarrow> trie_wf (add_parts t ps b)"
proof (induction t ps b rule: add_parts.induct)
  case (1 cs e b block)
  then show ?case by simp
next
  case (2 cs e b p ps block)
  let ?c = "case map_of cs p of None \<Rightarrow> new_trie_node | Some n \<Rightarrow> n"
  have "trie_wf ?c"
    using "2.prems" trie_wf_child [of "Trie_Node cs e b" p] by (auto simp: trie_wf_new split: option.split)
  then have new: "trie_wf (add_parts ?c ps block)" by (rule "2.IH" [OF refl])
  have "list_all (\<lambda>(p, c). trie_wf c) (AList.update p (add_parts ?c ps block) cs)"
    using "2.prems" new set_update_subset [of p "add_parts ?c ps block" cs]
    by (auto simp: list_all_iff)
  with "2.prems" show ?case by (simp add: Let_def distinct_update_keys)
qed

text \<open>
  A label list that comes from trimming and splitting a domain, other than the one of a
  domain of dots only.
\<close>

definition canonical :: "string list \<Rightarrow> bool" where
  "canonical ls \<longleftrightarrow>
     ls \<noteq> [] \<and> hd ls \<noteq> [] \<and> last ls \<noteq> [] \<and> (\<forall>l \<in> set ls. CHR ''.'' \<notin> set l)"

lemma labels_not_Nil [simp]: "labels d \<noteq> []"
  by (simp add: labels_def)

lemma labels_no_dot: "l \<in> set (labels d) \<Longrightarrow> CHR ''.'' \<notin> set l"
  using split_on_no_sep unfolding labels_def by blast

lemma hd_join: "ls \<noteq> [] \<Longrightarrow> hd ls \<noteq> [] \<Longrightarrow> join sep ls \<noteq> [] \<and> hd (join sep ls) = hd (hd ls)"
  by (cases ls; cases "tl ls") auto

lemma last_join: "ls \<noteq> [] \<Longrightarrow> last ls \<noteq> [] \<Longrightarrow> join sep ls \<noteq> [] \<and> last (join sep ls) = last (last ls)"
  by (induction sep ls rule: join.induct) auto

lemma labels_join:
  assumes "canonical ls"
  shows "labels (join ''.'' ls) = ls" and "join ''.'' ls \<noteq> []"
proof -
  let ?d = "join ''.'' ls"
  have ends: "?d \<noteq> []" "hd ?d = hd (hd ls)" "last ?d = last (last ls)"
    using assms hd_join [of ls "''.''"] last_join [of ls "''.''"] by (auto simp: canonical_def)
  have "hd (hd ls) \<noteq> CHR ''.''" "last (last ls) \<noteq> CHR ''.''"
    using assms unfolding canonical_def by (metis hd_in_set, metis last_in_set)
  with ends have "trim_char CHR ''.'' ?d = ?d" by (simp add: trim_id)
  with assms show "labels ?d = ls" by (simp add: labels_def split_on_join canonical_def)
  show "?d \<noteq> []" by (rule ends(1))
qed

lemma join_labels: "join ''.'' (labels d) = trim_char CHR ''.'' d"
  by (simp add: labels_def)

lemma canonical_labels:
  assumes "labels d \<noteq> [[]]"
  shows "canonical (labels d)"
proof -
  let ?s = "trim_char CHR ''.'' d"
  have s: "?s \<noteq> []" using assms by (auto simp: labels_def)
  have "hd (labels d) \<noteq> []"
  proof
    assume "hd (labels d) = []"
    then obtain ls where ls: "labels d = [] # ls" by (metis hd_Cons_tl labels_not_Nil)
    with assms have "ls \<noteq> []" by simp
    with ls have "hd ?s = CHR ''.''" by (simp add: join_Cons flip: join_labels)
    with s trim_hd [of "\<lambda>c. c = CHR ''.''" d] show False by simp
  qed
  moreover have "last (labels d) \<noteq> []"
  proof
    assume e: "last (labels d) = []"
    have "last (join ''.'' (ls @ [[]])) = CHR ''.''" if "ls \<noteq> []" for ls
      using that by (induction ls rule: list_nonempty_induct) (auto simp: join_Cons)
    moreover obtain ls where "labels d = ls @ [[]]" using e by (metis append_butlast_last_id labels_not_Nil)
    moreover from this assms have "ls \<noteq> []" by auto
    ultimately have "last ?s = CHR ''.''" by (metis join_labels)
    with s trim_last [of "\<lambda>c. c = CHR ''.''" d] show False by simp
  qed
  ultimately show ?thesis using labels_no_dot by (auto simp: canonical_def)
qed

text \<open>Every rule of the trie has a canonical key; the rule matcher only adds such rules.\<close>

definition trie_inv :: "trie_node \<Rightarrow> bool" where
  "trie_inv t \<longleftrightarrow> trie_wf t \<and> (\<forall>ls \<in> dom (rules_of t). canonical ls)"


lemma join_canonical_inj:
  "canonical ls \<Longrightarrow> canonical ks \<Longrightarrow> join ''.'' ls = join ''.'' ks \<longleftrightarrow> ls = ks"
  by (metis labels_join(1))

subsection \<open>Walking a trie\<close>

lemma visits_all_set: "visits_all ord \<Longrightarrow> set (ord xs) = set xs"
  unfolding visits_all_def by (metis set_mset_mset)

lemma walk_node_set:
  assumes "visits_all ord" and "trie_wf t"
  shows "(d, v) \<in> set (walk_node ord t parts) \<longleftrightarrow>
         (\<exists>ps. path_map t ps = Some v \<and> d = join ''.'' (rev (parts @ ps)))"
  using assms(2)
proof (induction t arbitrary: parts)
  case (Trie_Node cs e b)
  have child: "(d, v) \<in> set (walk_node ord c (parts @ [p])) \<longleftrightarrow>
      (\<exists>ps. path_map c ps = Some v \<and> d = join ''.'' (rev (parts @ p # ps)))"
    if "(p, c) \<in> set cs" for p c
  proof -
    have "trie_wf c" using Trie_Node.prems that by (auto simp: list_all_iff)
    with Trie_Node.IH [of "(p, c)" c "parts @ [p]"] that show ?thesis by simp
  qed
  have split: "(\<exists>ps. path_map (Trie_Node cs e b) ps = Some v \<and> d = join ''.'' (rev (parts @ ps)))
    \<longleftrightarrow> (e \<and> v = b \<and> d = join ''.'' (rev parts)) \<or>
        (\<exists>p c. (p, c) \<in> set cs \<and>
           (\<exists>ps. path_map c ps = Some v \<and> d = join ''.'' (rev (parts @ p # ps))))"
    (is "?L \<longleftrightarrow> ?R")
  proof
    assume ?L
    then obtain ps where ps: "path_map (Trie_Node cs e b) ps = Some v" "d = join ''.'' (rev (parts @ ps))"
      by blast
    show ?R
    proof (cases ps)
      case Nil
      with ps show ?thesis by (auto simp: path_map_Nil split: if_splits)
    next
      case (Cons p qs)
      with ps obtain c where "map_of cs p = Some c" "path_map c qs = Some v"
        by (auto simp: path_map_Cons split: option.splits)
      with ps Cons show ?thesis by (blast dest: map_of_SomeD)
    qed
  next
    assume ?R
    then show ?L
    proof
      assume "e \<and> v = b \<and> d = join ''.'' (rev parts)"
      then show ?L by (intro exI [of _ "[]"]) (simp add: path_map_Nil)
    next
      assume "\<exists>p c. (p, c) \<in> set cs \<and>
           (\<exists>ps. path_map c ps = Some v \<and> d = join ''.'' (rev (parts @ p # ps)))"
      then obtain p c ps where "(p, c) \<in> set cs" "path_map c ps = Some v"
        "d = join ''.'' (rev (parts @ p # ps))" by blast
      moreover from this Trie_Node.prems have "map_of cs p = Some c" by simp
      ultimately show ?L by (intro exI [of _ "p # ps"]) (simp add: path_map_Cons)
    qed
  qed
  show ?case
    unfolding split using child by (auto simp: visits_all_set [OF assms(1)] split: if_splits) blast+
qed

lemma trie_walk_set:
  assumes "visits_all ord" and "trie_wf t"
  shows "(d, v) \<in> set (trie_walk ord t) \<longleftrightarrow> (\<exists>ls. rules_of t ls = Some v \<and> d = join ''.'' ls)"
proof -
  have "(\<exists>ps. path_map t ps = Some v \<and> d = join ''.'' (rev ps)) \<longleftrightarrow>
        (\<exists>ls. rules_of t ls = Some v \<and> d = join ''.'' ls)"
    unfolding rules_of_def by (metis rev_rev_ident)
  then show ?thesis unfolding trie_walk_def by (simp add: walk_node_set [OF assms])
qed

subsection \<open>The interface the rule matcher uses\<close>

text \<open>
  A store of suffix rules: what a client may assume of \<open>Add\<close>, \<open>Match\<close> and \<open>Walk\<close> over the
  map of rules the store stands for.
\<close>

locale suffix_rules =
  fixes fresh :: 't
    and add :: "'t \<Rightarrow> string \<Rightarrow> bool \<Rightarrow> 't"
    and matches :: "'t \<Rightarrow> string \<Rightarrow> bool \<times> bool \<times> bool"
    and walk :: "'o \<Rightarrow> 't \<Rightarrow> (string \<times> bool) list"
    and ok :: "'o \<Rightarrow> bool"
    and rules :: "'t \<Rightarrow> string list \<Rightarrow> bool option"
    and inv :: "'t \<Rightarrow> bool"
  assumes rules_fresh: "rules fresh = Map.empty"
    and inv_fresh: "inv fresh"
    and rules_add: "d \<noteq> [] \<Longrightarrow> rules (add t d b) = (rules t)(labels d \<mapsto> b)"
    and add_nothing: "add t [] b = t"
    and inv_add: "inv t \<Longrightarrow> canonical (labels d) \<Longrightarrow> inv (add t d b)"
    and matches_spec: "d \<noteq> [] \<Longrightarrow> matches t d = verdict (most_specific (rules t) (labels d))"
    and walk_spec: "ok ord \<Longrightarrow> inv t \<Longrightarrow>
      (d, b) \<in> set (walk ord t) \<longleftrightarrow> (\<exists>ls. rules t ls = Some b \<and> d = join ''.'' ls)"
    and inv_canonical: "inv t \<Longrightarrow> rules t ls = Some b \<Longrightarrow> canonical ls"
begin

lemma rules_add_all:
  "\<forall>d \<in> fst ` set kvs. d \<noteq> [] \<Longrightarrow>
   rules (fold (\<lambda>(d, b) t. add t d b) kvs t) = upd_all (map (\<lambda>(d, b). (labels d, b)) kvs) (rules t)"
  by (induction kvs arbitrary: t) (auto simp: rules_add)

lemma inv_add_all:
  "inv t \<Longrightarrow> \<forall>d \<in> fst ` set kvs. canonical (labels d) \<Longrightarrow> inv (fold (\<lambda>(d, b) t. add t d b) kvs t)"
  by (induction kvs arbitrary: t) (auto simp: inv_add)

lemma walk_domains:
  assumes "ok ord" and "inv s" and "d \<in> fst ` set (walk ord s)"
  shows "d \<noteq> []" and "canonical (labels d)"
proof -
  from assms obtain ls b where "rules s ls = Some b" "d = join ''.'' ls"
    using walk_spec by auto
  moreover from this have "canonical ls" using inv_canonical assms(2) by blast
  ultimately show "d \<noteq> []" "canonical (labels d)" by (simp_all add: labels_join)
qed

text \<open>Adding everything another store walks through overrides with that store's rules.\<close>

lemma rules_extend:
  assumes "ok ord" and "inv s"
  shows "rules (fold (\<lambda>(d, b) t. add t d b) (walk ord s) t) = rules t ++ rules s"
proof -
  have "(ls, b) \<in> set (map (\<lambda>(d, b). (labels d, b)) (walk ord s)) \<longleftrightarrow> rules s ls = Some b" for ls b
  proof
    assume "(ls, b) \<in> set (map (\<lambda>(d, b). (labels d, b)) (walk ord s))"
    then obtain d where d: "(d, b) \<in> set (walk ord s)" "ls = labels d" by auto
    then obtain ks where ks: "rules s ks = Some b" "d = join ''.'' ks"
      using walk_spec [OF assms] by blast
    then show "rules s ls = Some b"
      using d inv_canonical [OF assms(2)] by (simp add: labels_join(1))
  next
    assume r: "rules s ls = Some b"
    then have "(join ''.'' ls, b) \<in> set (walk ord s)" using walk_spec [OF assms] by blast
    moreover have "labels (join ''.'' ls) = ls"
      using r inv_canonical [OF assms(2)] by (blast intro: labels_join(1))
    ultimately show "(ls, b) \<in> set (map (\<lambda>(d, b). (labels d, b)) (walk ord s))" by force
  qed
  then have "upd_all (map (\<lambda>(d, b). (labels d, b)) (walk ord s)) (rules t) = rules t ++ rules s"
    by (rule upd_all_graph)
  then show ?thesis using walk_domains(1) [OF assms] by (subst rules_add_all) auto
qed

lemma inv_extend:
  "ok ord \<Longrightarrow> inv s \<Longrightarrow> inv t \<Longrightarrow> inv (fold (\<lambda>(d, b) t. add t d b) (walk ord s) t)"
  using walk_domains(2) by (blast intro: inv_add_all)

end

lemma most_specific_single:
  "most_specific [ls \<mapsto> b] ks = (if ls \<noteq> [] \<and> suffix ls ks then Some b else None)"
  by (induction ks) (auto simp: suffix_Cons)

lemma rules_of_new: "rules_of new_domain_trie = Map.empty"
  by (auto simp: rules_of_def new_domain_trie_def fun_eq_iff)

lemma rules_of_add: "d \<noteq> [] \<Longrightarrow> rules_of (trie_add t d b) = (rules_of t)(labels d \<mapsto> b)"
  by (simp add: trie_add_def rules_of_add_parts)

lemma trie_inv_add: "trie_inv t \<Longrightarrow> canonical (labels d) \<Longrightarrow> trie_inv (trie_add t d b)"
proof (cases "d = []")
  case True
  then show "trie_inv t \<Longrightarrow> ?thesis" by (simp add: trie_add_def)
next
  case False
  assume t: "trie_inv t" and d: "canonical (labels d)"
  have "trie_wf (trie_add t d b)"
    using t by (simp add: trie_inv_def trie_add_def trie_wf_add_parts)
  with t d False show ?thesis by (auto simp: trie_inv_def rules_of_add split: if_splits)
qed

lemma trie_walk_spec:
  assumes "visits_all ord" and "trie_inv t"
  shows "(d, b) \<in> set (trie_walk ord t) \<longleftrightarrow> (\<exists>ls. rules_of t ls = Some b \<and> d = join ''.'' ls)"
  using assms by (simp add: trie_inv_def trie_walk_set)


interpretation dt: suffix_rules new_domain_trie trie_add trie_match trie_walk visits_all
  rules_of trie_inv
proof (unfold_locales, goal_cases)
  case 1 show ?case by (rule rules_of_new)
next
  case 2 show ?case
    using trie_wf_new by (simp add: trie_inv_def rules_of_new) (simp add: new_domain_trie_def)
next
  case (3 d t b) then show ?case by (rule rules_of_add)
next
  case (4 t b) show ?case by (simp add: trie_add_def)
next
  case (5 t d b) then show ?case by (rule trie_inv_add)
next
  case (6 d t) then show ?case by (simp add: trie_match_def match_parts_spec)
next
  case (7 ord t d b) then show ?case by (rule trie_walk_spec)
next
  case (8 t ls b) then show ?case by (auto simp: trie_inv_def dom_def)
qed

subsection \<open>Properties\<close>

text \<open>C24: \<open>Match\<close> answers with the flag of the most specific rule. After any sequence of
  \<open>Add\<close>s of non-empty domains, a domain is matched exactly if one of its suffixes (on whole
  labels) was added, and the flag is the one last added for the longest such suffix.\<close>

theorem match_after_adds:
  assumes "\<forall>(r, b) \<in> set kvs. r \<noteq> []" and "d \<noteq> []"
  shows "trie_match (fold (\<lambda>(r, b) t. trie_add t r b) kvs new_domain_trie) d
       = verdict (most_specific (map_of (rev (map (\<lambda>(r, b). (labels r, b)) kvs))) (labels d))"
proof -
  have "\<forall>r \<in> fst ` set kvs. r \<noteq> []" using assms(1) by auto
  then show ?thesis
    by (simp add: dt.matches_spec [OF assms(2)] dt.rules_add_all dt.rules_fresh upd_all_map_of_rev)
qed

theorem match_after_adds_witness:
  "trie_match (fold (\<lambda>(r, b) t. trie_add t r b)
       [(''.abc.com'', True), (''www.abc.com'', False)] new_domain_trie) ''m.www.abc.com''
     = (True, False, True)
   \<and> trie_match (fold (\<lambda>(r, b) t. trie_add t r b)
       [(''.abc.com'', True), (''www.abc.com'', False)] new_domain_trie) ''xabc.com''
     = (False, False, False)"
  by (subst match_after_adds, simp, simp)+
     (simp add: verdict_def labels_def trim_def trim_left_def trim_right_def)

text \<open>A rule matches a domain on whole labels only: a trie with the single rule
  \<open>r\<close> matches \<open>d\<close> exactly if the labels of \<open>r\<close> are the last labels of \<open>d\<close> (so \<open>.abc.com\<close>
  and \<open>abc.com\<close> both match \<open>abc.com\<close> and \<open>test.abc.com\<close>, and never \<open>xabc.com\<close>).\<close>

theorem match_label_boundary:
  assumes "r \<noteq> []" and "d \<noteq> []"
  shows "trie_match (trie_add new_domain_trie r b) d
       = (if suffix (labels r) (labels d) then (True, b, True) else (False, False, False))"
  using assms by (simp add: dt.matches_spec dt.rules_add dt.rules_fresh most_specific_single verdict_def)

theorem match_label_boundary_witness:
  "trie_match (trie_add new_domain_trie ''.abc.com'' False) ''test.abc.com.'' = (True, False, True)
   \<and> trie_match (trie_add new_domain_trie ''.abc.com'' False) ''xabc.com'' = (False, False, False)"
  by (subst match_label_boundary, simp, simp)+
     (simp add: labels_def trim_def trim_left_def trim_right_def suffix_def)

end
