(* ===== verification/Go_Regexp.thy ===== *)
theory Go_Regexp
  imports Go_Strings
begin

section \<open>Regular expressions (package \<open>regexp\<close>)\<close>

text \<open>
  The program builds regular expressions from wildcard rules, joins them into one and
  matches domains against them. A compiled expression is represented by its source text,
  which is what \<open>Regexp.String\<close> returns; an engine says which texts compile and which
  inputs they match. The definitions of the components take the engine as an argument.

  Then follows an engine for a fragment of the RE2 syntax that covers what the program
  writes itself and the rule lists it ships with: literals, \<open>.\<close>, \<open>^\<close>, \<open>$\<close>, groups,
  non-capturing groups, alternation, the repetitions \<open>*\<close>, \<open>+\<close>, \<open>?\<close> (greedy or lazy, which is
  the same for a yes or no answer), bracket classes and escaped punctuation. Other
  syntax (counted repetition, flags, named groups, Perl and POSIX classes) is outside the
  fragment and does not compile in it.
\<close>

record regexp_engine =
  re_compiles :: "string \<Rightarrow> bool"
  re_matches :: "string \<Rightarrow> string \<Rightarrow> bool"

abbreviation backslash :: char where
  "backslash \<equiv> CHR 0x5C"

subsection \<open>Syntax and meaning\<close>

datatype re =
    Eps | Bol | Eol | Chr char | AnyC | Cls bool "(char \<times> char) list"
  | Cat re re | Alt re re | Star re | Plus re | Opt re

primrec re_rank :: "re \<Rightarrow> nat" where
  "re_rank Eps = 1"
| "re_rank Bol = 1"
| "re_rank Eol = 1"
| "re_rank (Chr c) = 1"
| "re_rank AnyC = 1"
| "re_rank (Cls neg rs) = 1"
| "re_rank (Cat r1 r2) = re_rank r1 + re_rank r2 + 1"
| "re_rank (Alt r1 r2) = re_rank r1 + re_rank r2 + 1"
| "re_rank (Star r) = re_rank r + 1"
| "re_rank (Plus r) = re_rank r + 2"
| "re_rank (Opt r) = re_rank r + 1"

text \<open>
  \<open>re_seg r b s e\<close>: \<open>r\<close> matches the segment \<open>s\<close> of the text, where \<open>b\<close> says that the
  segment starts at the beginning of the text and \<open>e\<close> that it ends at the end.
\<close>

function re_seg :: "re \<Rightarrow> bool \<Rightarrow> string \<Rightarrow> bool \<Rightarrow> bool" where
  "re_seg Eps b s e = (s = [])"
| "re_seg Bol b s e = (s = [] \<and> b)"
| "re_seg Eol b s e = (s = [] \<and> e)"
| "re_seg (Chr c) b s e = (s = [c])"
| "re_seg AnyC b s e = (case s of [c] \<Rightarrow> c \<noteq> CHR 0x0A | _ \<Rightarrow> False)"
| "re_seg (Cls neg rs) b s e =
     (case s of [c] \<Rightarrow> list_ex (\<lambda>(lo, hi). lo \<le> c \<and> c \<le> hi) rs \<noteq> neg | _ \<Rightarrow> False)"
| "re_seg (Cat r1 r2) b s e =
     list_ex (\<lambda>i. re_seg r1 b (take i s) (e \<and> i = length s) \<and> re_seg r2 (b \<and> i = 0) (drop i s) e)
       [0..<Suc (length s)]"
| "re_seg (Alt r1 r2) b s e = (re_seg r1 b s e \<or> re_seg r2 b s e)"
| "re_seg (Star r) b s e =
     (s = [] \<or>
      list_ex (\<lambda>i. re_seg r b (take i s) (e \<and> i = length s) \<and> re_seg (Star r) False (drop i s) e)
        [1..<Suc (length s)])"
| "re_seg (Plus r) b s e =
     list_ex (\<lambda>i. re_seg r b (take i s) (e \<and> i = length s) \<and> re_seg (Star r) (b \<and> i = 0) (drop i s) e)
       [0..<Suc (length s)]"
| "re_seg (Opt r) b s e = (s = [] \<or> re_seg r b s e)"
  by pat_completeness auto
termination
  by (relation "measures [\<lambda>(r, b, s, e). re_rank r, \<lambda>(r, b, s, e). length s]") auto

declare re_seg.simps(9,10) [simp del]

text \<open>\<open>MatchString\<close>: some segment of the text matches.\<close>

definition re_search :: "re \<Rightarrow> string \<Rightarrow> bool" where
  "re_search r s =
     list_ex (\<lambda>i. list_ex (\<lambda>n. re_seg r (i = 0) (take n (drop i s)) (i + n = length s))
       [0..<Suc (length s - i)]) [0..<Suc (length s)]"

subsection \<open>The parser\<close>

definition is_alnum :: "char \<Rightarrow> bool" where
  "is_alnum c \<longleftrightarrow> is_digit c \<or> CHR ''A'' \<le> c \<and> c \<le> CHR ''Z'' \<or> CHR ''a'' \<le> c \<and> c \<le> CHR ''z''"

text \<open>
  A bracket class is read one character at a time: before any item, between items, after
  the first character of an item, or after the dash of a range.
\<close>

datatype class_state = First_Item | Next_Item | Item char | Range char

fun class_put ::
  "class_state \<Rightarrow> (char \<times> char) list \<Rightarrow> char \<Rightarrow> (class_state \<times> (char \<times> char) list) option" where
  "class_put First_Item acc c = Some (Item c, acc)"
| "class_put Next_Item acc c = Some (Item c, acc)"
| "class_put (Item lo) acc c = Some (Item c, (lo, lo) # acc)"
| "class_put (Range lo) acc c = (if c < lo then None else Some (Next_Item, (lo, c) # acc))"

fun class_close :: "class_state \<Rightarrow> (char \<times> char) list \<Rightarrow> (char \<times> char) list" where
  "class_close (Item lo) acc = (lo, lo) # acc"
| "class_close (Range lo) acc = (CHR ''-'', CHR ''-'') # (lo, lo) # acc"
| "class_close _ acc = acc"

datatype class_out =
  Class_Error | Class_End "(char \<times> char) list" string | Class_More class_state "(char \<times> char) list" string

definition class_more :: "(class_state \<times> (char \<times> char) list) option \<Rightarrow> string \<Rightarrow> class_out" where
  "class_more r s = (case r of None \<Rightarrow> Class_Error | Some (st, acc) \<Rightarrow> Class_More st acc s)"

definition class_step :: "class_state \<Rightarrow> (char \<times> char) list \<Rightarrow> char \<Rightarrow> string \<Rightarrow> class_out" where
  "class_step st acc c s =
     (if c = CHR '']'' \<and> st \<noteq> First_Item then Class_End (class_close st acc) s
      else if c = backslash then
        (case s of
           [] \<Rightarrow> Class_Error
         | d # t \<Rightarrow> if is_alnum d then Class_Error else class_more (class_put st acc d) t)
      else if c = CHR ''['' \<and> prefix '':'' s then Class_Error
      else if c = CHR ''-'' then
        (case st of Item lo \<Rightarrow> Class_More (Range lo) acc s | _ \<Rightarrow> class_more (class_put st acc c) s)
      else class_more (class_put st acc c) s)"

lemma class_more_simps [simp]:
  "class_more r s = Class_Error \<longleftrightarrow> r = None"
  "class_more r s = Class_End a t \<longleftrightarrow> False"
  "class_more r s = Class_More st acc t \<longleftrightarrow> r = Some (st, acc) \<and> s = t"
  by (auto simp: class_more_def split: option.splits)

lemma class_step_shorter: "class_step st acc c s = Class_More st' acc' t \<Longrightarrow> length t < Suc (length s)"
  by (auto simp: class_step_def split: if_splits list.splits class_state.splits)

lemma class_step_end: "class_step st acc c s = Class_End a t \<Longrightarrow> t = s"
  by (auto simp: class_step_def split: if_splits list.splits class_state.splits)

lemma class_step_append:
  assumes "s \<noteq> []"
  shows "class_step st acc c s = Class_End a t \<Longrightarrow> class_step st acc c (s @ u) = Class_End a (t @ u)"
    and "class_step st acc c s = Class_More st' acc' t \<Longrightarrow>
         class_step st acc c (s @ u) = Class_More st' acc' (t @ u)"
  using assms by (cases s; auto simp: class_step_def split: if_splits class_state.splits)+

function class_items ::
  "class_state \<Rightarrow> (char \<times> char) list \<Rightarrow> string \<Rightarrow> ((char \<times> char) list \<times> string) option" where
  "class_items st acc [] = None"
| "class_items st acc (c # s) =
     (case class_step st acc c s of
        Class_Error \<Rightarrow> None
      | Class_End items t \<Rightarrow> Some (items, t)
      | Class_More st' acc' t \<Rightarrow> class_items st' acc' t)"
  by pat_completeness auto
termination
  by (relation "measure (\<lambda>(st, acc, s). length s)") (auto dest: class_step_shorter)

lemma class_items_shorter: "class_items st acc s = Some (rs, t) \<Longrightarrow> length t < length s"
  by (induction st acc s arbitrary: rs t rule: class_items.induct)
     (auto split: class_out.splits dest!: class_step_shorter class_step_end, fastforce)

lemma class_items_append:
  "class_items st acc s = Some (rs, t) \<Longrightarrow> class_items st acc (s @ u) = Some (rs, t @ u)"
proof (induction st acc s arbitrary: rs t rule: class_items.induct)
  case (1 st acc)
  then show ?case by simp
next
  case (2 st acc c s)
  show ?case
  proof (cases "class_step st acc c s")
    case Class_Error
    with 2 show ?thesis by simp
  next
    case (Class_End items r)
    moreover have "class_step st acc c (s @ u) = Class_End items (r @ u)"
      using Class_End by (cases "s = []") (auto simp: class_step_def class_step_append split: if_splits list.splits class_state.splits)
    ultimately show ?thesis using 2 by simp
  next
    case (Class_More st' acc' r)
    with 2 have "s \<noteq> []" by (cases s) (auto dest!: class_step_shorter)
    with Class_More 2 show ?thesis by (simp add: class_step_append)
  qed
qed

declare class_items.simps [simp del]

definition parse_class :: "string \<Rightarrow> (re \<times> string) option" where
  "parse_class s =
     (let neg = prefix ''^'' s; t = (if neg then tl s else s)
      in map_option (\<lambda>(rs, u). (Cls neg rs, u)) (class_items First_Item [] t))"

text \<open>What may follow: nothing to repeat, an atom, a repetition, a lazy repetition.\<close>

datatype rep_state = No_Atom | Atom | Repeated | Lazy

definition cat_of :: "re list \<Rightarrow> re" where
  "cat_of sq = fold Cat sq Eps"

definition alt_of :: "re list \<Rightarrow> re list \<Rightarrow> re" where
  "alt_of al sq = fold Alt al (cat_of sq)"

definition char_atom :: "char \<Rightarrow> re" where
  "char_atom c =
     (if c = CHR ''.'' then AnyC else if c = CHR ''^'' then Bol else if c = CHR ''$'' then Eol else Chr c)"

definition repeat_atom :: "char \<Rightarrow> re \<Rightarrow> re" where
  "repeat_atom c r = (if c = CHR ''*'' then Star r else if c = CHR ''+'' then Plus r else Opt r)"

lemma parse_class_shorter: "parse_class s = Some (r, t) \<Longrightarrow> length t < Suc (length s)"
  by (cases s) (fastforce simp: parse_class_def Let_def split: if_splits dest!: class_items_shorter)+

lemma parse_class_append:
  assumes "parse_class s = Some (r, t)"
  shows "parse_class (s @ u) = Some (r, t @ u)"
proof (cases s)
  case Nil
  with assms show ?thesis by (simp add: parse_class_def class_items.simps)
next
  case (Cons c s')
  show ?thesis
  proof (cases "c = CHR ''^''")
    case True
    with assms Cons obtain rs where "class_items First_Item [] s' = Some (rs, t)" "r = Cls True rs"
      by (auto simp: parse_class_def)
    moreover from this(1) have "class_items First_Item [] (s' @ u) = Some (rs, t @ u)"
      by (rule class_items_append)
    ultimately show ?thesis using True Cons by (simp add: parse_class_def)
  next
    case False
    with assms Cons obtain rs where "class_items First_Item [] s = Some (rs, t)" "r = Cls False rs"
      by (auto simp: parse_class_def)
    moreover from this(1) have "class_items First_Item [] (s @ u) = Some (rs, t @ u)"
      by (rule class_items_append)
    ultimately show ?thesis using False Cons by (simp add: parse_class_def)
  qed
qed

text \<open>
  The parser keeps the enclosing groups on a stack: for each its finished alternatives
  and the atoms of the current one, both in reverse.
\<close>

function re_parse ::
  "(re list \<times> re list) list \<Rightarrow> re list \<Rightarrow> re list \<Rightarrow> rep_state \<Rightarrow> string \<Rightarrow> re option" where
  "re_parse st al sq q [] = (if st = [] then Some (alt_of al sq) else None)"
| "re_parse st al sq q (c # s) =
     (if c = CHR ''('' then
        (if prefix ''?:'' s then re_parse ((al, sq) # st) [] [] No_Atom (drop 2 s)
         else if prefix ''?'' s then None
         else re_parse ((al, sq) # st) [] [] No_Atom s)
      else if c = CHR '')'' then
        (case st of
           [] \<Rightarrow> None
         | (al', sq') # st' \<Rightarrow> re_parse st' al' (alt_of al sq # sq') Atom s)
      else if c = CHR ''|'' then re_parse st (cat_of sq # al) [] No_Atom s
      else if c \<in> {CHR ''*'', CHR ''+'', CHR ''?''} then
        (case q of
           Atom \<Rightarrow> (case sq of [] \<Rightarrow> None | r # sq' \<Rightarrow> re_parse st al (repeat_atom c r # sq') Repeated s)
         | Repeated \<Rightarrow> if c = CHR ''?'' then re_parse st al sq Lazy s else None
         | _ \<Rightarrow> None)
      else if c = CHR ''['' then
        (case parse_class s of None \<Rightarrow> None | Some (r, t) \<Rightarrow> re_parse st al (r # sq) Atom t)
      else if c = backslash then
        (case s of
           [] \<Rightarrow> None
         | d # t \<Rightarrow> if is_alnum d then None else re_parse st al (Chr d # sq) Atom t)
      else if c = CHR ''{'' then None
      else re_parse st al (char_atom c # sq) Atom s)"
  by pat_completeness auto
termination
  by (relation "measure (\<lambda>(st, al, sq, q, s). length s)") (auto dest: parse_class_shorter)

definition re_compile :: "string \<Rightarrow> re option" where
  "re_compile s = re_parse [] [] [] No_Atom s"

definition go_regexp :: regexp_engine where
  "go_regexp = \<lparr>
     re_compiles = (\<lambda>p. re_compile p \<noteq> None),
     re_matches = (\<lambda>p s. case re_compile p of None \<Rightarrow> False | Some r \<Rightarrow> re_search r s)\<rparr>"

subsection \<open>Groups and alternatives\<close>

lemma re_parse_group:
  "re_parse st al sq q p = Some r \<Longrightarrow>
   re_parse (st @ (al0, sq0) # base) al sq q (p @ CHR '')'' # rest) = re_parse base al0 (r # sq0) Atom rest"
proof (induction st al sq q p arbitrary: r rule: re_parse.induct)
  case (1 st al sq q)
  then show ?case by (simp split: if_splits)
next
  case (2 st al sq q c s)
  consider (lpar) "c = CHR ''(''" | (rpar) "c = CHR '')''" | (bar) "c = CHR ''|''"
    | (rep) "c \<in> {CHR ''*'', CHR ''+'', CHR ''?''}" | (cls) "c = CHR ''[''"
    | (esc) "c = backslash" | (brace) "c = CHR ''{''"
    | (other) "c \<notin> {CHR ''('', CHR '')'', CHR ''|'', CHR ''*'', CHR ''+'', CHR ''?'', CHR ''['', backslash, CHR ''{''}"
    by blast
  then show ?case
  proof cases
    case lpar
    show ?thesis
    proof (cases "prefix ''?:'' s")
      case True
      then obtain u where s: "s = ''?:'' @ u" by (auto simp: prefix_def)
      with lpar "2.prems" have "re_parse ((al, sq) # st) [] [] No_Atom u = Some r" by simp
      with "2.IH"(1) [OF lpar True] s lpar show ?thesis by simp
    next
      case False
      with lpar "2.prems" have noflag: "\<not> prefix ''?'' s" by (auto split: if_splits)
      with False lpar "2.prems" have p: "re_parse ((al, sq) # st) [] [] No_Atom s = Some r" by simp
      have IH: "re_parse ((al, sq) # st @ (al0, sq0) # base) [] [] No_Atom (s @ CHR '')'' # rest)
          = re_parse base al0 (r # sq0) Atom rest"
        using "2.IH"(2) [OF lpar False noflag p] by simp
      from p obtain d t where "s = d # t" by (cases s) auto
      with lpar noflag IH show ?thesis by simp
    qed
  next
    case rpar
    with "2.prems" obtain al' sq' st' where st: "st = (al', sq') # st'"
      by (auto split: list.splits)
    with rpar "2.prems" have "re_parse st' al' (alt_of al sq # sq') Atom s = Some r" by simp
    with "2.IH"(3) rpar st show ?thesis by simp
  next
    case bar
    with "2.prems" "2.IH"(4) show ?thesis by auto
  next
    case rep
    show ?thesis
    proof (cases q)
      case Atom
      with rep "2.prems" obtain k sq' where sq: "sq = k # sq'" by (auto split: list.splits)
      with rep Atom "2.prems" have "re_parse st al (repeat_atom c k # sq') Repeated s = Some r"
        by (elim insertE) auto
      with "2.IH"(5) rep Atom sq have
        "re_parse (st @ (al0, sq0) # base) al (repeat_atom c k # sq') Repeated (s @ CHR '')'' # rest)
          = re_parse base al0 (r # sq0) Atom rest" by blast
      with rep Atom sq show ?thesis by (elim insertE) auto
    next
      case Repeated
      with rep "2.prems" have c: "c = CHR ''?''" by (auto split: if_splits)
      with Repeated "2.prems" have "re_parse st al sq Lazy s = Some r" by simp
      with "2.IH"(6) c Repeated show ?thesis by simp
    qed (use rep "2.prems" in auto)
  next
    case cls
    with "2.prems" obtain k t where k: "parse_class s = Some (k, t)"
      and p: "re_parse st al (k # sq) Atom t = Some r" by (auto split: option.splits)
    have "parse_class (s @ CHR '')'' # rest) = Some (k, t @ CHR '')'' # rest)"
      using k by (rule parse_class_append)
    with "2.IH"(7) k p cls show ?thesis by simp
  next
    case esc
    with "2.prems" "2.IH"(8) show ?thesis by (auto split: list.splits if_splits)
  next
    case brace
    with "2.prems" show ?thesis by simp
  next
    case other
    with "2.prems" "2.IH"(9) show ?thesis by simp
  qed
qed

declare re_parse.simps(2) [simp del]

lemma re_parse_bar: "re_parse st al sq q (CHR ''|'' # s) = re_parse st (cat_of sq # al) [] No_Atom s"
  by (simp add: re_parse.simps)

text \<open>\<open>(?:p)\<close> at the head of a text reads as one atom, the expression \<open>p\<close> stands for.\<close>

lemma re_parse_wrapped:
  assumes "re_compile p = Some r"
  shows "re_parse st al sq q (''(?:'' @ p @ CHR '')'' # rest) = re_parse st al (r # sq) Atom rest"
proof -
  have "re_parse st al sq q (''(?:'' @ p @ CHR '')'' # rest)
      = re_parse ((al, sq) # st) [] [] No_Atom (p @ CHR '')'' # rest)"
    by (simp add: re_parse.simps(2) [of st al sq q "CHR ''(''"])
  also have "\<dots> = re_parse st al (r # sq) Atom rest"
    using re_parse_group [OF assms [unfolded re_compile_def], of al sq st rest] by simp
  finally show ?thesis .
qed

text \<open>The expression \<open>mergeRegs\<close> writes: every source in a group, joined by bars.\<close>

definition union_source :: "string list \<Rightarrow> string" where
  "union_source ps = join ''|'' (map (\<lambda>p. ''(?:'' @ p @ '')'') ps)"

lemma re_seg_Cat_Eps [simp]: "re_seg (Cat r Eps) b s e = re_seg r b s e"
proof -
  have "re_seg (Cat r Eps) b s e \<longleftrightarrow> (\<exists>i \<le> length s. re_seg r b (take i s) (e \<and> i = length s) \<and> drop i s = [])"
    by (auto simp: list_ex_iff less_Suc_eq_le simp del: upt_Suc)
  also have "\<dots> \<longleftrightarrow> re_seg r b s e" by auto
  finally show ?thesis .
qed

lemma re_seg_alt_of:
  "re_seg (alt_of al sq) b s e \<longleftrightarrow> (\<exists>r \<in> set al. re_seg r b s e) \<or> re_seg (cat_of sq) b s e"
proof -
  have "re_seg (fold Alt al z) b s e \<longleftrightarrow> (\<exists>r \<in> set al. re_seg r b s e) \<or> re_seg z b s e" for z
    by (induction al arbitrary: z) auto
  then show ?thesis by (simp add: alt_of_def)
qed

lemma union_parse:
  assumes "ps \<noteq> []" and "\<forall>p \<in> set ps. re_compile p \<noteq> None"
  shows "\<exists>r. re_parse [] al [] No_Atom (union_source ps) = Some r \<and>
     (\<forall>b s e. re_seg r b s e \<longleftrightarrow> (\<exists>a \<in> set al. re_seg a b s e) \<or>
        (\<exists>p \<in> set ps. re_seg (the (re_compile p)) b s e))"
  using assms
proof (induction ps arbitrary: al rule: list_nonempty_induct)
  case (single p)
  then obtain r where r: "re_compile p = Some r" by auto
  then have "re_parse [] al [] No_Atom (union_source [p]) = Some (alt_of al [r])"
    using re_parse_wrapped [OF r, of "[]" al "[]" No_Atom "[]"] by (simp add: union_source_def)
  with r show ?case by (auto simp: re_seg_alt_of cat_of_def simp del: re_seg.simps(7))
next
  case (cons p ps)
  then obtain r where r: "re_compile p = Some r" by auto
  have first: "re_parse [] al [] No_Atom (union_source (p # ps))
      = re_parse [] (cat_of [r] # al) [] No_Atom (union_source ps)"
    using re_parse_wrapped [OF r, of "[]" al "[]" No_Atom "CHR ''|'' # union_source ps"] cons.hyps
    by (simp add: union_source_def join_Cons re_parse_bar)
  obtain r' where r': "re_parse [] (cat_of [r] # al) [] No_Atom (union_source ps) = Some r'"
    and seg: "\<And>b s e. re_seg r' b s e \<longleftrightarrow> (\<exists>a \<in> set (cat_of [r] # al). re_seg a b s e) \<or>
        (\<exists>p \<in> set ps. re_seg (the (re_compile p)) b s e)"
    using cons.IH [of "cat_of [r] # al"] cons.prems by auto
  have cat1: "cat_of [r] = Cat r Eps" by (simp add: cat_of_def)
  have step: "re_parse [] al [] No_Atom (union_source (p # ps)) = Some r'"
    using first r' by simp
  show ?case
    by (rule exI [of _ r']) (use step r in \<open>auto simp: seg cat1 simp del: re_seg.simps(7)\<close>)
qed

text \<open>
  The interface the rule matcher and the hosts reader use: an engine in which the union of
  expressions that compile compiles too, and matches what one of them matches.
\<close>

locale regexp_union =
  fixes E :: regexp_engine
  assumes union_compiles: "ps \<noteq> [] \<Longrightarrow> \<forall>p \<in> set ps. re_compiles E p \<Longrightarrow>
      re_compiles E (union_source ps)"
    and union_matches: "ps \<noteq> [] \<Longrightarrow> \<forall>p \<in> set ps. re_compiles E p \<Longrightarrow>
      re_matches E (union_source ps) s \<longleftrightarrow> (\<exists>p \<in> set ps. re_matches E p s)"

lemma re_search_def2:
  "re_search r s \<longleftrightarrow> (\<exists>i n. i + n \<le> length s \<and> re_seg r (i = 0) (take n (drop i s)) (i + n = length s))"
proof -
  have "i + n \<le> length s \<longleftrightarrow> i < Suc (length s) \<and> n < Suc (length s - i)" for i n by arith
  then show ?thesis by (simp add: re_search_def list_ex_iff Bex_def del: upt_Suc)
qed

interpretation union_re: regexp_union go_regexp
proof (unfold_locales, goal_cases)
  case (1 ps)
  then show ?case
    using union_parse [of ps "[]"] by (auto simp: go_regexp_def re_compile_def)
next
  case (2 ps s)
  then have c: "\<forall>p \<in> set ps. re_compile p \<noteq> None" by (simp add: go_regexp_def)
  then obtain r where r: "re_compile (union_source ps) = Some r"
    and seg: "\<And>b s e. re_seg r b s e \<longleftrightarrow> (\<exists>p \<in> set ps. re_seg (the (re_compile p)) b s e)"
    using union_parse [of ps "[]"] 2 by (auto simp: re_compile_def)
  have "re_search r s \<longleftrightarrow> (\<exists>p \<in> set ps. re_search (the (re_compile p)) s)"
    unfolding re_search_def2 seg by blast
  with r c show ?case by (force simp: go_regexp_def)
qed

subsection \<open>Wildcards\<close>

text \<open>
  A wildcard pattern of domain characters (letters, digits, \<open>-\<close>, \<open>_\<close>, dots) with \<open>*\<close> for any
  characters and \<open>?\<close> for one, and the expression the program writes for it.
\<close>

fun glob :: "string \<Rightarrow> string \<Rightarrow> bool" where
  "glob [] s = (s = [])"
| "glob (c # h) s =
     (if c = CHR ''*'' then
        list_ex (\<lambda>i. glob h (drop i s) \<and> CHR 0x0A \<notin> set (take i s)) [0..<Suc (length s)]
      else (case s of
              [] \<Rightarrow> False
            | d # t \<Rightarrow> (if c = CHR ''?'' then d \<noteq> CHR 0x0A else d = c) \<and> glob h t))"

definition domain_char :: "char \<Rightarrow> bool" where
  "domain_char c \<longleftrightarrow> is_alnum c \<or> c \<in> {CHR ''-'', CHR ''_'', CHR ''.''}"

definition glob_chars :: "string \<Rightarrow> string" where
  "glob_chars h = concat (map (\<lambda>c. if c = CHR ''.'' then [backslash, CHR ''.'']
     else if c = CHR ''*'' then ''.*'' else if c = CHR ''?'' then ''.'' else [c]) h)"

definition glob_source :: "string \<Rightarrow> string" where
  "glob_source h = ''^'' @ glob_chars h @ ''$''"

definition glob_atom :: "char \<Rightarrow> re" where
  "glob_atom c = (if c = CHR ''*'' then Star AnyC else if c = CHR ''?'' then AnyC else Chr c)"

lemma glob_chars_simps [simp]:
  "glob_chars [] = []"
  "glob_chars (CHR ''.'' # h) = backslash # CHR ''.'' # glob_chars h"
  "glob_chars (CHR ''*'' # h) = CHR ''.'' # CHR ''*'' # glob_chars h"
  "glob_chars (CHR ''?'' # h) = CHR ''.'' # glob_chars h"
  "c \<noteq> CHR ''.'' \<Longrightarrow> c \<noteq> CHR ''*'' \<Longrightarrow> c \<noteq> CHR ''?'' \<Longrightarrow> glob_chars (c # h) = c # glob_chars h"
  by (simp_all add: glob_chars_def)

lemma glob_atom_simps [simp]:
  "glob_atom (CHR ''*'') = Star AnyC"
  "glob_atom (CHR ''?'') = AnyC"
  "c \<noteq> CHR ''*'' \<Longrightarrow> c \<noteq> CHR ''?'' \<Longrightarrow> glob_atom c = Chr c"
  by (simp_all add: glob_atom_def)

lemma is_alnum_not_special:
  "is_alnum c \<Longrightarrow> c \<notin> {CHR ''('', CHR '')'', CHR ''|'', CHR ''*'', CHR ''+'', CHR ''?'', CHR ''['',
     backslash, CHR ''{'', CHR ''.'', CHR ''^'', CHR ''$''}"
  by (auto simp: is_alnum_def is_digit_def less_eq_char_def)

lemma re_parse_domain_char:
  assumes "domain_char c" "c \<noteq> CHR ''.''"
  shows "re_parse st al sq q (c # s) = re_parse st al (Chr c # sq) Atom s"
proof -
  from assms have "c \<notin> {CHR ''('', CHR '')'', CHR ''|'', CHR ''*'', CHR ''+'', CHR ''?'', CHR ''['',
     backslash, CHR ''{'', CHR ''.'', CHR ''^'', CHR ''$''}"
  proof (cases "is_alnum c")
    case True
    then show ?thesis by (rule is_alnum_not_special)
  next
    case False
    with assms have "c = CHR ''-'' \<or> c = CHR ''_''" by (simp add: domain_char_def)
    then show ?thesis by (elim disjE) simp_all
  qed
  then show ?thesis by (subst re_parse.simps(2)) (simp add: char_atom_def)
qed

lemma re_parse_glob:
  "\<forall>c \<in> set h. domain_char c \<or> c = CHR ''*'' \<or> c = CHR ''?'' \<Longrightarrow>
   re_parse [] [] sq q (glob_chars h @ ''$'') = Some (cat_of (Eol # rev (map glob_atom h) @ sq))"
proof (induction h arbitrary: sq q)
  case Nil
  show ?case by (simp add: re_parse.simps char_atom_def alt_of_def)
next
  case (Cons c h)
  then have IH: "re_parse [] [] sq' q' (glob_chars h @ ''$'')
      = Some (cat_of (Eol # rev (map glob_atom h) @ sq'))" for sq' q'
    by simp
  consider "c = CHR ''.''" | "c = CHR ''*''" | "c = CHR ''?''"
    | "domain_char c" "c \<noteq> CHR ''.''" "c \<noteq> CHR ''*''" "c \<noteq> CHR ''?''"
    using Cons.prems by auto
  then show ?case
  proof cases
    case 1
    then show ?thesis by (simp add: IH re_parse.simps(2) is_alnum_def is_digit_def)
  next
    case 2
    then show ?thesis by (simp add: IH re_parse.simps(2) char_atom_def repeat_atom_def)
  next
    case 3
    then show ?thesis by (simp add: IH re_parse.simps(2) char_atom_def)
  next
    case 4
    then show ?thesis by (simp add: IH re_parse_domain_char)
  qed
qed

lemma re_seg_Cat:
  "re_seg (Cat r1 r2) b s e \<longleftrightarrow>
   (\<exists>i \<le> length s. re_seg r1 b (take i s) (e \<and> i = length s) \<and> re_seg r2 (b \<and> i = 0) (drop i s) e)"
  by (auto simp: list_ex_iff less_Suc_eq_le simp del: upt_Suc)

declare re_seg.simps(7) [simp del]

lemma re_seg_Star:
  "re_seg (Star r) b s e \<longleftrightarrow> s = [] \<or>
   (\<exists>i. 1 \<le> i \<and> i \<le> length s \<and> re_seg r b (take i s) (e \<and> i = length s) \<and>
        re_seg (Star r) False (drop i s) e)"
  by (subst re_seg.simps(9)) (simp only: list_ex_iff set_upt Bex_def atLeastLessThan_iff less_Suc_eq_le conj_assoc)

lemma re_seg_AnyC: "re_seg AnyC b s e \<longleftrightarrow> (\<exists>d. s = [d] \<and> d \<noteq> CHR 0x0A)"
  by (auto split: list.splits)

lemma take_eq_single: "i \<le> length s \<Longrightarrow> take i s = [d] \<longleftrightarrow> i = 1 \<and> (\<exists>t. s = d # t)"
  by (cases s; cases i) auto

lemma ex_take_single:
  "(\<exists>i \<le> length s. take i s = [d] \<and> e \<and> glob h (drop i s)) \<longleftrightarrow> (\<exists>t. s = d # t \<and> e \<and> glob h t)"
proof
  assume "\<exists>i \<le> length s. take i s = [d] \<and> e \<and> glob h (drop i s)"
  then obtain i where "i \<le> length s" "take i s = [d]" "e" "glob h (drop i s)" by blast
  then show "\<exists>t. s = d # t \<and> e \<and> glob h t" by (auto simp: take_eq_single)
next
  assume "\<exists>t. s = d # t \<and> e \<and> glob h t"
  then show "\<exists>i \<le> length s. take i s = [d] \<and> e \<and> glob h (drop i s)" by (intro exI [of _ 1]) auto
qed

lemma re_seg_any_star: "re_seg (Star AnyC) b s e \<longleftrightarrow> CHR 0x0A \<notin> set s"
proof (induction s arbitrary: b)
  case Nil
  show ?case by (subst re_seg_Star) simp
next
  case (Cons c t)
  have "re_seg (Star AnyC) b (c # t) e \<longleftrightarrow>
      (\<exists>i. 1 \<le> i \<and> i \<le> length (c # t) \<and> (\<exists>d. take i (c # t) = [d] \<and> d \<noteq> CHR 0x0A) \<and>
         re_seg (Star AnyC) False (drop i (c # t)) e)"
    by (subst re_seg_Star) (simp only: re_seg_AnyC list.distinct simp_thms)
  also have "\<dots> \<longleftrightarrow> c \<noteq> CHR 0x0A \<and> re_seg (Star AnyC) False t e"
    (is "?L \<longleftrightarrow> ?R")
  proof
    assume ?L
    then obtain i d where "i \<le> length (c # t)" "take i (c # t) = [d]" "d \<noteq> CHR 0x0A"
      "re_seg (Star AnyC) False (drop i (c # t)) e" by blast
    then show ?R by (simp only: take_eq_single) auto
  next
    assume ?R
    then show ?L by (intro exI [of _ 1]) simp
  qed
  finally show ?case using Cons by auto
qed

lemma re_seg_glob:
  "re_seg (foldr Cat (map glob_atom h) (Cat Eol Eps)) b s e \<longleftrightarrow> e \<and> glob h s"
proof (induction h arbitrary: b s)
  case Nil
  show ?case by auto
next
  case (Cons c h)
  have cat: "re_seg (foldr Cat (map glob_atom (c # h)) (Cat Eol Eps)) b s e \<longleftrightarrow>
     (\<exists>i \<le> length s. re_seg (glob_atom c) b (take i s) (e \<and> i = length s) \<and> e \<and> glob h (drop i s))"
    using Cons.IH by (simp add: re_seg_Cat)
  consider "c = CHR ''*''" | "c = CHR ''?''" | "c \<noteq> CHR ''*''" "c \<noteq> CHR ''?''" by blast
  then show ?case
  proof cases
    case 1
    have "list_ex Q [0..<Suc n] \<longleftrightarrow> (\<exists>i \<le> n. Q i)" for Q n
      by (auto simp: list_ex_iff less_Suc_eq_le simp del: upt_Suc)
    with 1 show ?thesis unfolding cat by (auto simp: re_seg_any_star simp del: upt_Suc)
  next
    case 2
    then have "re_seg (foldr Cat (map glob_atom (c # h)) (Cat Eol Eps)) b s e \<longleftrightarrow>
        (\<exists>d. d \<noteq> CHR 0x0A \<and> (\<exists>i \<le> length s. take i s = [d] \<and> e \<and> glob h (drop i s)))"
      unfolding cat by (simp only: glob_atom_simps re_seg_AnyC) blast
    also have "\<dots> \<longleftrightarrow> e \<and> glob (c # h) s"
      unfolding ex_take_single using 2 by (cases s) auto
    finally show ?thesis .
  next
    case 3
    have "re_seg (foldr Cat (map glob_atom (c # h)) (Cat Eol Eps)) b s e \<longleftrightarrow>
        (\<exists>i \<le> length s. take i s = [c] \<and> e \<and> glob h (drop i s))"
      unfolding cat using 3 by simp
    also have "\<dots> \<longleftrightarrow> e \<and> glob (c # h) s"
      unfolding ex_take_single using 3 by (cases s) auto
    finally show ?thesis .
  qed
qed

lemma cat_of_foldr: "cat_of (rev rs) = foldr Cat rs Eps"
  by (simp add: cat_of_def foldr_conv_fold)

theorem glob_source_meaning:
  assumes "\<forall>c \<in> set h. domain_char c \<or> c = CHR ''*'' \<or> c = CHR ''?''"
  shows "re_compiles go_regexp (glob_source h)"
    and "re_matches go_regexp (glob_source h) s \<longleftrightarrow> glob h s"
proof -
  let ?r = "cat_of (Eol # rev (map glob_atom h) @ [Bol])"
  have r: "re_compile (glob_source h) = Some ?r"
    unfolding re_compile_def glob_source_def
    using re_parse_glob [OF assms, of "[Bol]" Atom] by (simp add: re_parse.simps(2) char_atom_def)
  have "?r = cat_of (rev (Bol # map glob_atom h @ [Eol]))" by simp
  then have cat: "?r = Cat Bol (foldr Cat (map glob_atom h) (Cat Eol Eps))"
    by (simp only: cat_of_foldr) simp
  have seg: "re_seg ?r b u e \<longleftrightarrow> b \<and> e \<and> glob h u" for b u e
  proof -
    have "re_seg ?r b u e \<longleftrightarrow> (\<exists>i \<le> length u. take i u = [] \<and> b \<and> e \<and> glob h (drop i u))"
      unfolding cat by (subst re_seg_Cat) (simp only: re_seg_glob re_seg.simps conj_assoc)
    also have "\<dots> \<longleftrightarrow> b \<and> e \<and> glob h u" by (auto simp: take_eq_Nil)
    finally show ?thesis .
  qed
  have "re_search ?r s \<longleftrightarrow> glob h s"
    unfolding re_search_def2 seg by (auto intro: exI [of _ "length s"])
  with r show "re_compiles go_regexp (glob_source h)"
    and "re_matches go_regexp (glob_source h) s \<longleftrightarrow> glob h s"
    by (simp_all add: go_regexp_def)
qed

text \<open>An engine that reads the program's wildcard expressions as wildcards.\<close>

locale regexp_glob = regexp_union +
  assumes glob_compiles:
      "\<forall>c \<in> set h. domain_char c \<or> c = CHR ''*'' \<or> c = CHR ''?'' \<Longrightarrow> re_compiles E (glob_source h)"
    and glob_matches:
      "\<forall>c \<in> set h. domain_char c \<or> c = CHR ''*'' \<or> c = CHR ''?'' \<Longrightarrow>
       re_matches E (glob_source h) s \<longleftrightarrow> glob h s"

interpretation glob_re: regexp_glob go_regexp
  by unfold_locales (rule glob_source_meaning, assumption)+

end
