(* ===== verification/Go_Io.thy ===== *)
theory Go_Io
  imports Go_Strings
begin

section \<open>Reading files line by line (\<open>bufio.Scanner\<close>)\<close>

text \<open>
  The file system is a parameter: the content of each file that can be opened. A scanner
  delivers the lines without their terminator (a final carriage return is dropped too, an
  empty last line is not delivered); it stops with an error at the first line that does not
  fit its buffer of 65536 bytes.
\<close>

type_synonym file_system = "string \<Rightarrow> string option"

definition newline :: char where "newline = CHR 0x0A"
definition carriage_return :: char where "carriage_return = CHR 0x0D"

definition max_scan_token :: nat where "max_scan_token = 65536"

definition drop_cr :: "string \<Rightarrow> string" where
  "drop_cr l = (if l \<noteq> [] \<and> last l = carriage_return then butlast l else l)"

definition raw_lines :: "string \<Rightarrow> string list" where
  "raw_lines s = (let ls = split_on newline s in if last ls = [] then butlast ls else ls)"

text \<open>The lines that are delivered, and whether the scanner ended with an error.\<close>

definition fits_buffer :: "string \<Rightarrow> bool" where
  "fits_buffer l \<longleftrightarrow> drop (max_scan_token - 1) l = []"

definition scan_lines :: "string \<Rightarrow> string list \<times> bool" where
  "scan_lines s =
     (let ls = raw_lines s
      in (map drop_cr (takeWhile fits_buffer ls), \<not> list_all fits_buffer ls))"

lemma fits_buffer_length: "fits_buffer l \<longleftrightarrow> length l < max_scan_token"
  by (auto simp: fits_buffer_def max_scan_token_def)

text \<open>Lines written one per row are read back.\<close>

lemma raw_lines_join:
  assumes "\<forall>l \<in> set ls. newline \<notin> set l" "ls \<noteq> []" "last ls \<noteq> []"
  shows "raw_lines (join [newline] ls) = ls"
  using assms split_on_join [of ls newline] by (simp add: raw_lines_def)

end
