(* ===== verification/Go_Base64.thy ===== *)
theory Go_Base64
  imports Go_Io
begin

section \<open>Base64 (\<open>encoding/base64\<close>)\<close>

text \<open>
  The standard encoding with padding, as the rule lists use it. Decoding ignores line
  breaks and the spare bits of the last group, as \<open>StdEncoding\<close> does.
\<close>

definition b64_alphabet :: string where
  "b64_alphabet = ''ABCDEFGHIJKLMNOPQRSTUVWXYZabcdefghijklmnopqrstuvwxyz0123456789+/''"

definition b64_char :: "nat \<Rightarrow> char" where
  "b64_char n = b64_alphabet ! n"

definition b64_val :: "char \<Rightarrow> nat option" where
  "b64_val c = str_index b64_alphabet [c]"

fun b64_encode :: "string \<Rightarrow> string" where
  "b64_encode [] = []"
| "b64_encode [a] =
     (let x = of_char a in [b64_char (x div 4), b64_char (x mod 4 * 16), CHR ''='', CHR ''=''])"
| "b64_encode [a, b] =
     (let x = of_char a; y = of_char b
      in [b64_char (x div 4), b64_char (x mod 4 * 16 + y div 16), b64_char (y mod 16 * 4), CHR ''=''])"
| "b64_encode (a # b # c # r) =
     (let x = of_char a; y = of_char b; z = of_char c
      in [b64_char (x div 4), b64_char (x mod 4 * 16 + y div 16), b64_char (y mod 16 * 4 + z div 64),
          b64_char (z mod 64)] @ b64_encode r)"

fun b64_quads :: "string \<Rightarrow> string option" where
  "b64_quads [] = Some []"
| "b64_quads (a # b # c # d # r) =
     (case (b64_val a, b64_val b) of
        (Some x, Some y) \<Rightarrow>
          if c = CHR ''='' then
            (if d = CHR ''='' \<and> r = [] then Some [char_of (x * 4 + y div 16)] else None)
          else
            (case b64_val c of
               None \<Rightarrow> None
             | Some z \<Rightarrow>
                 if d = CHR ''='' then
                   (if r = [] then Some [char_of (x * 4 + y div 16), char_of (y mod 16 * 16 + z div 4)]
                    else None)
                 else
                   (case (b64_val d, b64_quads r) of
                      (Some w, Some t) \<Rightarrow>
                        Some ([char_of (x * 4 + y div 16), char_of (y mod 16 * 16 + z div 4),
                               char_of (z mod 4 * 64 + w)] @ t)
                    | _ \<Rightarrow> None))
      | _ \<Rightarrow> None)"
| "b64_quads _ = None"

definition b64_decode :: "string \<Rightarrow> string option" where
  "b64_decode s = b64_quads (filter (\<lambda>c. c \<noteq> newline \<and> c \<noteq> carriage_return) s)"

subsection \<open>Round trip\<close>

lemma str_index_nth: "distinct xs \<Longrightarrow> n < length xs \<Longrightarrow> str_index xs [xs ! n] = Some n"
proof (induction xs arbitrary: n)
  case (Cons x xs)
  then show ?case by (cases n) auto
qed simp

lemma b64_alphabet_facts:
  "distinct b64_alphabet" "length b64_alphabet = 64"
  "CHR ''='' \<notin> set b64_alphabet" "newline \<notin> set b64_alphabet" "carriage_return \<notin> set b64_alphabet"
  by (simp_all add: b64_alphabet_def newline_def carriage_return_def)

lemma b64_char_val: "n < 64 \<Longrightarrow> b64_val (b64_char n) = Some n"
  using b64_alphabet_facts(1,2) by (simp add: b64_val_def b64_char_def str_index_nth)

lemma b64_char_plain:
  "n < 64 \<Longrightarrow> b64_char n \<noteq> CHR ''='' \<and> b64_char n \<noteq> newline \<and> b64_char n \<noteq> carriage_return"
  using b64_alphabet_facts(2-5) by (metis b64_char_def nth_mem)

lemma digits_div_mod:
  fixes b r m :: nat
  assumes "r < m"
  shows "(b * m + r) div m = b" "(b * m + r) mod m = r"
  using assms by simp_all

lemma byte_parts:
  fixes x y z :: nat
  assumes "x < 256" "y < 256" "z < 256"
  shows "x div 4 < 64" "x mod 4 * 16 < 64" "x mod 4 * 16 + y div 16 < 64" "y mod 16 * 4 < 64"
    "y mod 16 * 4 + z div 64 < 64" "z mod 64 < 64"
    "(x mod 4 * 16 + y div 16) div 16 = x mod 4" "(x mod 4 * 16 + y div 16) mod 16 = y div 16"
    "(y mod 16 * 4 + z div 64) div 4 = y mod 16" "(y mod 16 * 4 + z div 64) mod 4 = z div 64"
proof -
  have d: "x div 4 < 64" "y div 16 < 16" "z div 64 < 4"
    using assms by (simp_all add: less_mult_imp_div_less)
  have m: "x mod 4 < 4" "y mod 16 < 16" "z mod 64 < 64" by simp_all
  show "x div 4 < 64" "x mod 4 * 16 < 64" "x mod 4 * 16 + y div 16 < 64" "y mod 16 * 4 < 64"
    "y mod 16 * 4 + z div 64 < 64" "z mod 64 < 64"
    using d m by linarith+
  show "(x mod 4 * 16 + y div 16) div 16 = x mod 4" "(x mod 4 * 16 + y div 16) mod 16 = y div 16"
    "(y mod 16 * 4 + z div 64) div 4 = y mod 16" "(y mod 16 * 4 + z div 64) mod 4 = z div 64"
    using d(2,3) by (simp_all only: digits_div_mod)
qed

lemma of_char_byte: "(of_char c :: nat) < 256"
  by (rule nat_of_char_less_256)

lemma pad_plain: "CHR ''='' \<noteq> newline" "CHR ''='' \<noteq> carriage_return"
  by (simp_all add: newline_def carriage_return_def)

lemma b64_encode_plain: "\<forall>c \<in> set (b64_encode s). c \<noteq> newline \<and> c \<noteq> carriage_return"
proof (induction s rule: b64_encode.induct)
  case (2 a)
  note p = byte_parts [OF of_char_byte [of a] of_char_byte [of a] of_char_byte [of a]]
  note q = b64_char_plain [OF p(1)] b64_char_plain [OF p(2)] pad_plain
  show ?case using q by (simp only: b64_encode.simps Let_def list.set ball_simps simp_thms)
next
  case (3 a b)
  note p = byte_parts [OF of_char_byte [of a] of_char_byte [of b] of_char_byte [of a]]
  note q = b64_char_plain [OF p(1)] b64_char_plain [OF p(3)] b64_char_plain [OF p(4)] pad_plain
  show ?case using q by (simp only: b64_encode.simps Let_def list.set ball_simps simp_thms)
next
  case (4 a b c r)
  note p = byte_parts [OF of_char_byte [of a] of_char_byte [of b] of_char_byte [of c]]
  note q = b64_char_plain [OF p(1)] b64_char_plain [OF p(3)] b64_char_plain [OF p(5)] b64_char_plain [OF p(6)]
  show ?case using q 4 [OF refl refl refl]
    by (simp only: b64_encode.simps Let_def list.set ball_simps simp_thms append_Cons append_Nil)
qed simp

lemma b64_quads_encode: "b64_quads (b64_encode s) = Some s"
proof (induction s rule: b64_encode.induct)
  case (2 a)
  note p = byte_parts [OF of_char_byte [of a] of_char_byte [of a] of_char_byte [of a]]
  have "of_char a div 4 * 4 + of_char a mod 4 * 16 div 16 = (of_char a :: nat)" by simp
  then show ?case
    by (simp only: b64_encode.simps b64_quads.simps Let_def b64_char_val [OF p(1)] b64_char_val [OF p(2)]
        option.case prod.case simp_thms if_True char_of_char)
next
  case (3 a b)
  note p = byte_parts [OF of_char_byte [of a] of_char_byte [of b] of_char_byte [of a]]
  have "of_char a div 4 * 4 + of_char a mod 4 = (of_char a :: nat)"
    "of_char b div 16 * 16 + of_char b mod 16 * 4 div 4 = (of_char b :: nat)" by simp_all
  then show ?case
    using b64_char_plain [OF p(4)]
    by (simp only: b64_encode.simps b64_quads.simps Let_def b64_char_val [OF p(1)] b64_char_val [OF p(3)]
        b64_char_val [OF p(4)] p(7,8) option.case prod.case simp_thms if_True if_False char_of_char)
next
  case (4 a b c r)
  note p = byte_parts [OF of_char_byte [of a] of_char_byte [of b] of_char_byte [of c]]
  have "of_char a div 4 * 4 + of_char a mod 4 = (of_char a :: nat)"
    "of_char b div 16 * 16 + of_char b mod 16 = (of_char b :: nat)"
    "of_char c div 64 * 64 + of_char c mod 64 = (of_char c :: nat)" by simp_all
  then show ?case
    using b64_char_plain [OF p(5)] b64_char_plain [OF p(6)] 4 [OF refl refl refl]
    by (simp only: b64_encode.simps b64_quads.simps Let_def b64_char_val [OF p(1)] b64_char_val [OF p(3)]
        b64_char_val [OF p(5)] b64_char_val [OF p(6)] p(7-10) option.case prod.case simp_thms if_True if_False
        char_of_char append_Cons append_Nil)
qed simp

lemma b64_decode_encode: "b64_decode (b64_encode s) = Some s"
proof -
  have "filter (\<lambda>c. c \<noteq> newline \<and> c \<noteq> carriage_return) (b64_encode s) = b64_encode s"
    using b64_encode_plain by (auto intro!: filter_True)
  then show ?thesis by (simp add: b64_decode_def b64_quads_encode)
qed

subsection \<open>The alphabet for URLs, without padding (\<open>RawURLEncoding\<close>)\<close>

definition b64url_alphabet :: string where
  "b64url_alphabet = ''ABCDEFGHIJKLMNOPQRSTUVWXYZabcdefghijklmnopqrstuvwxyz0123456789-_''"

definition b64url_char :: "nat \<Rightarrow> char" where
  "b64url_char n = b64url_alphabet ! n"

definition b64url_val :: "char \<Rightarrow> nat option" where
  "b64url_val c = str_index b64url_alphabet [c]"

fun b64url_encode :: "string \<Rightarrow> string" where
  "b64url_encode [] = []"
| "b64url_encode [a] = (let x = of_char a in [b64url_char (x div 4), b64url_char (x mod 4 * 16)])"
| "b64url_encode [a, b] =
     (let x = of_char a; y = of_char b
      in [b64url_char (x div 4), b64url_char (x mod 4 * 16 + y div 16), b64url_char (y mod 16 * 4)])"
| "b64url_encode (a # b # c # r) =
     (let x = of_char a; y = of_char b; z = of_char c
      in [b64url_char (x div 4), b64url_char (x mod 4 * 16 + y div 16), b64url_char (y mod 16 * 4 + z div 64),
          b64url_char (z mod 64)] @ b64url_encode r)"

fun b64url_quads :: "string \<Rightarrow> string option" where
  "b64url_quads [] = Some []"
| "b64url_quads [a] = None"
| "b64url_quads [a, b] =
     (case (b64url_val a, b64url_val b) of
        (Some x, Some y) \<Rightarrow> Some [char_of (x * 4 + y div 16)]
      | _ \<Rightarrow> None)"
| "b64url_quads [a, b, c] =
     (case (b64url_val a, b64url_val b, b64url_val c) of
        (Some x, Some y, Some z) \<Rightarrow> Some [char_of (x * 4 + y div 16), char_of (y mod 16 * 16 + z div 4)]
      | _ \<Rightarrow> None)"
| "b64url_quads (a # b # c # d # r) =
     (case (b64url_val a, b64url_val b, b64url_val c, b64url_val d, b64url_quads r) of
        (Some x, Some y, Some z, Some w, Some t) \<Rightarrow>
          Some ([char_of (x * 4 + y div 16), char_of (y mod 16 * 16 + z div 4), char_of (z mod 4 * 64 + w)] @ t)
      | _ \<Rightarrow> None)"

definition b64url_decode :: "string \<Rightarrow> string option" where
  "b64url_decode s = b64url_quads (filter (\<lambda>c. c \<noteq> newline \<and> c \<noteq> carriage_return) s)"

lemma b64url_alphabet_facts:
  "distinct b64url_alphabet" "length b64url_alphabet = 64"
  "CHR ''='' \<notin> set b64url_alphabet" "newline \<notin> set b64url_alphabet" "carriage_return \<notin> set b64url_alphabet"
  by (simp_all add: b64url_alphabet_def newline_def carriage_return_def)

lemma b64url_char_val: "n < 64 \<Longrightarrow> b64url_val (b64url_char n) = Some n"
  using b64url_alphabet_facts(1,2) by (simp add: b64url_val_def b64url_char_def str_index_nth)

lemma b64url_char_plain: "n < 64 \<Longrightarrow> b64url_char n \<in> set b64url_alphabet"
  using b64url_alphabet_facts(2) by (simp add: b64url_char_def)

lemma b64url_encode_alphabet: "set (b64url_encode s) \<subseteq> set b64url_alphabet"
proof (induction s rule: b64url_encode.induct)
  case (2 a)
  note p = byte_parts [OF of_char_byte [of a] of_char_byte [of a] of_char_byte [of a]]
  show ?case using b64url_char_plain [OF p(1)] b64url_char_plain [OF p(2)]
    by (simp only: b64url_encode.simps Let_def list.set insert_subset empty_subsetI simp_thms)
next
  case (3 a b)
  note p = byte_parts [OF of_char_byte [of a] of_char_byte [of b] of_char_byte [of a]]
  show ?case using b64url_char_plain [OF p(1)] b64url_char_plain [OF p(3)] b64url_char_plain [OF p(4)]
    by (simp only: b64url_encode.simps Let_def list.set insert_subset empty_subsetI simp_thms)
next
  case (4 a b c r)
  note p = byte_parts [OF of_char_byte [of a] of_char_byte [of b] of_char_byte [of c]]
  show ?case
    using b64url_char_plain [OF p(1)] b64url_char_plain [OF p(3)] b64url_char_plain [OF p(5)]
      b64url_char_plain [OF p(6)] 4 [OF refl refl refl]
    by (simp only: b64url_encode.simps Let_def list.set insert_subset simp_thms append_Cons append_Nil)
qed simp

lemma b64url_quads_encode: "b64url_quads (b64url_encode s) = Some s"
proof (induction s rule: b64url_encode.induct)
  case (2 a)
  note p = byte_parts [OF of_char_byte [of a] of_char_byte [of a] of_char_byte [of a]]
  have "of_char a div 4 * 4 + of_char a mod 4 * 16 div 16 = (of_char a :: nat)" by simp
  then show ?case
    by (simp only: b64url_encode.simps b64url_quads.simps Let_def b64url_char_val [OF p(1)] b64url_char_val [OF p(2)]
        option.case prod.case char_of_char)
next
  case (3 a b)
  note p = byte_parts [OF of_char_byte [of a] of_char_byte [of b] of_char_byte [of a]]
  have "of_char a div 4 * 4 + of_char a mod 4 = (of_char a :: nat)"
    "of_char b div 16 * 16 + of_char b mod 16 * 4 div 4 = (of_char b :: nat)" by simp_all
  then show ?case
    by (simp only: b64url_encode.simps b64url_quads.simps Let_def b64url_char_val [OF p(1)] b64url_char_val [OF p(3)]
        b64url_char_val [OF p(4)] p(7,8) option.case prod.case char_of_char)
next
  case (4 a b c r)
  note p = byte_parts [OF of_char_byte [of a] of_char_byte [of b] of_char_byte [of c]]
  have "of_char a div 4 * 4 + of_char a mod 4 = (of_char a :: nat)"
    "of_char b div 16 * 16 + of_char b mod 16 = (of_char b :: nat)"
    "of_char c div 64 * 64 + of_char c mod 64 = (of_char c :: nat)" by simp_all
  then show ?case
    using 4 [OF refl refl refl]
    by (simp only: b64url_encode.simps b64url_quads.simps Let_def b64url_char_val [OF p(1)] b64url_char_val [OF p(3)]
        b64url_char_val [OF p(5)] b64url_char_val [OF p(6)] p(7-10) option.case prod.case char_of_char
        append_Cons append_Nil)
qed simp

lemma b64url_decode_encode: "b64url_decode (b64url_encode s) = Some s"
proof -
  have "filter (\<lambda>c. c \<noteq> newline \<and> c \<noteq> carriage_return) (b64url_encode s) = b64url_encode s"
    using b64url_encode_alphabet [of s] b64url_alphabet_facts(4,5) by (auto intro!: filter_True)
  then show ?thesis by (simp add: b64url_decode_def b64url_quads_encode)
qed

end
