(* ===== verification/Adblock.thy ===== *)
theory Adblock
  imports Domain_Trie Go_Regexp Go_Base64
begin

section \<open>The rule matcher (\<open>matcher/adblock.go\<close>)\<close>

text \<open>
  \<open>ABPlus\<close> holds the rules of a group: a trie of plain domains, the regular expressions of
  blocked and of unblocked wildcard rules, and, after \<open>Optimize\<close>, each list merged into a
  single expression. A compiled expression is its source text, and the engine is an
  argument. A panic of the code (\<open>regexp.MustCompile\<close> on a bad expression, a slice out of
  range) is the left side of the result.
\<close>

record abplus =
  trie :: trie_node
  blocked_regs :: "string list"
  unblocked_regs :: "string list"
  combined_blocked_reg :: "string option"
  combined_unblocked_reg :: "string option"

datatype panic = Must_Compile string | Slice_Bounds

subsection \<open>Optimize and Match\<close>

definition merge_regs :: "regexp_engine \<Rightarrow> string list \<Rightarrow> string option" where
  "merge_regs E regs =
     (if regs = [] then None
      else let combined = join ''|'' (map (\<lambda>r. ''(?:'' @ r @ '')'') regs)
           in if re_compiles E combined then Some combined else None)"

definition optimize :: "regexp_engine \<Rightarrow> abplus \<Rightarrow> abplus" where
  "optimize E m =
     m\<lparr>combined_blocked_reg := merge_regs E (blocked_regs m),
       combined_unblocked_reg := merge_regs E (unblocked_regs m)\<rparr>"

text \<open>
  One list of expressions against a domain: the merged expression if there is one, the
  expressions one after the other otherwise.
\<close>

definition regs_match :: "regexp_engine \<Rightarrow> string option \<Rightarrow> string list \<Rightarrow> string \<Rightarrow> bool" where
  "regs_match E combined regs domain =
     (case combined of
        Some c \<Rightarrow> re_matches E c domain
      | None \<Rightarrow> list_ex (\<lambda>r. re_matches E r domain) regs)"

text \<open>The domain as \<open>Match\<close> looks it up: lower case, without one trailing dot.\<close>

definition match_key :: "string \<Rightarrow> string" where
  "match_key domain =
     (let d = to_lower domain in if last d = CHR ''.'' then butlast d else d)"

definition abp_match :: "regexp_engine \<Rightarrow> abplus \<Rightarrow> string \<Rightarrow> bool \<times> bool" where
  "abp_match E m domain =
     (if domain = [] then (False, False)
      else let d = match_key domain; (_, block, ok_in_trie) = trie_match (trie m) d
           in if ok_in_trie then (block, True)
              else if regs_match E (combined_blocked_reg m) (blocked_regs m) d then (True, True)
              else if regs_match E (combined_unblocked_reg m) (unblocked_regs m) d then (False, True)
              else (False, False))"

subsection \<open>Extend\<close>

text \<open>\<open>ord\<close> is the order in which the target's trie is walked.\<close>

definition extend_abp ::
  "regexp_engine \<Rightarrow> ((string \<times> bool) list list \<Rightarrow> (string \<times> bool) list list) \<Rightarrow>
   abplus \<Rightarrow> abplus option \<Rightarrow> abplus" where
  "extend_abp E ord m target =
     (case target of
        None \<Rightarrow> m
      | Some t \<Rightarrow>
          optimize E (m\<lparr>
            trie := fold (\<lambda>(d, b) n. trie_add n d b) (trie_walk ord (trie t)) (trie m),
            blocked_regs := blocked_regs m @ blocked_regs t,
            unblocked_regs := unblocked_regs m @ unblocked_regs t\<rparr>))"

subsection \<open>Reading rules\<close>

text \<open>\<open>if i := strings.Index(rule, sub); i != -1 { rule = rule[i+len(sub):] }\<close> and its kin.\<close>

definition cut_after :: "string \<Rightarrow> string \<Rightarrow> string" where
  "cut_after rule sub = (case str_index rule sub of None \<Rightarrow> rule | Some i \<Rightarrow> drop (i + length sub) rule)"

definition cut_before :: "string \<Rightarrow> string \<Rightarrow> string" where
  "cut_before rule sub = (case str_index rule sub of None \<Rightarrow> rule | Some i \<Rightarrow> take i rule)"

definition extract_domain :: "string \<Rightarrow> string" where
  "extract_domain rule =
     cut_before (cut_before (cut_after (cut_after (cut_after rule ''||'') ''|'') ''://'') ''/'') ''^''"

text \<open>The prefix and the suffix of the one kind of path rule the code reads.\<close>

definition google_prefix :: string where
  "google_prefix = ''/^https?:'' @ [backslash, CHR ''/'', backslash, CHR ''/'']"

definition google_suffix :: string where
  "google_suffix = [backslash] @ ''/.*/''"

definition is_alpha :: "char \<Rightarrow> bool" where
  "is_alpha c \<longleftrightarrow> CHR ''A'' \<le> c \<and> c \<le> CHR ''Z'' \<or> CHR ''a'' \<le> c \<and> c \<le> CHR ''z''"

text \<open>The constant expressions \<open>^[a-zA-Z]{2,}$\<close> and \<open>^xn--[a-zA-Z0-9]{3,}$\<close>.\<close>

definition tld_reg :: "string \<Rightarrow> bool" where
  "tld_reg tld \<longleftrightarrow> 2 \<le> length tld \<and> list_all is_alpha tld"

definition idn_reg :: "string \<Rightarrow> bool" where
  "idn_reg tld \<longleftrightarrow> prefix ''xn--'' tld \<and> 7 \<le> length tld \<and> list_all is_alnum (drop 4 tld)"

text \<open>A slice \<open>line[:n]\<close>, which panics when the line is shorter.\<close>

definition slice_to :: "string \<Rightarrow> nat \<Rightarrow> panic + string" where
  "slice_to s n = (if n \<le> length s then Inr (take n s) else Inl Slice_Bounds)"

definition must_compile :: "regexp_engine \<Rightarrow> string \<Rightarrow> panic + string" where
  "must_compile E p = (if re_compiles E p then Inr p else Inl (Must_Compile p))"

text \<open>One iteration of the loop of \<open>NewABPByText\<close>, on an already trimmed line.\<close>

definition wildcard_source :: "string \<Rightarrow> string" where
  "wildcard_source domain =
     ''^'' @ replace_all ''*'' ''.*'' (replace_all ''.'' [backslash, CHR ''.''] domain) @ ''$''"

definition add_wildcard :: "regexp_engine \<Rightarrow> abplus \<Rightarrow> string \<Rightarrow> string \<Rightarrow> panic + abplus" where
  "add_wildcard E m line domain =
     (case must_compile E (wildcard_source domain) of
        Inl e \<Rightarrow> Inl e
      | Inr r \<Rightarrow>
          if 2 < length line \<and> take 2 line = ''@@''
          then Inr (m\<lparr>unblocked_regs := unblocked_regs m @ [r]\<rparr>)
          else Inr (m\<lparr>blocked_regs := blocked_regs m @ [r]\<rparr>))"

definition add_plain :: "abplus \<Rightarrow> string \<Rightarrow> string \<Rightarrow> panic + abplus" where
  "add_plain m line domain =
     (case last_index domain CHR ''.'' of
        None \<Rightarrow> Inr m
      | Some i \<Rightarrow>
          let tld = drop (i + 1) domain
          in if \<not> tld_reg tld \<and> \<not> idn_reg tld then Inr m
             else (case slice_to line 2 of
                     Inl e \<Rightarrow> Inl e
                   | Inr p \<Rightarrow> Inr (m\<lparr>trie := trie_add (trie m) (to_lower domain) (p \<noteq> ''@@'')\<rparr>)))"

definition add_path_rule :: "regexp_engine \<Rightarrow> abplus \<Rightarrow> string \<Rightarrow> panic + abplus" where
  "add_path_rule E m line =
     (if 13 < length line \<and> take 13 line = google_prefix \<and> drop (length line - 5) line = google_suffix
      then (if 13 \<le> length line - 5
            then (case must_compile E (take (length line - 5 - 13) (drop 13 line)) of
                    Inl e \<Rightarrow> Inl e
                  | Inr r \<Rightarrow> Inr (m\<lparr>blocked_regs := blocked_regs m @ [r]\<rparr>))
            else Inl Slice_Bounds)
      else Inr m)"

definition add_line :: "regexp_engine \<Rightarrow> abplus \<Rightarrow> string \<Rightarrow> panic + abplus" where
  "add_line E m raw =
     (let line = trim_space raw in
      case line of
        [] \<Rightarrow> Inr m
      | c # _ \<Rightarrow>
          if c = CHR ''!'' \<or> c = CHR ''['' then Inr m
          else if c = CHR ''/'' then add_path_rule E m line
          else
            let line = replace_all ''%2F'' ''/'' line;
                domain = trim_suffix (extract_domain line) ''.''
            in if CHR ''*'' \<in> set domain then add_wildcard E m line domain
               else add_plain m line domain)"

fun add_lines :: "regexp_engine \<Rightarrow> abplus \<Rightarrow> string list \<Rightarrow> panic + abplus" where
  "add_lines E m [] = Inr m"
| "add_lines E m (l # ls) = (case add_line E m l of Inl e \<Rightarrow> Inl e | Inr m' \<Rightarrow> add_lines E m' ls)"

definition empty_abp :: abplus where
  "empty_abp = \<lparr>trie = new_domain_trie, blocked_regs = [], unblocked_regs = [],
     combined_blocked_reg = None, combined_unblocked_reg = None\<rparr>"

definition new_abp_by_text :: "regexp_engine \<Rightarrow> string \<Rightarrow> panic + abplus" where
  "new_abp_by_text E text =
     (case add_lines E empty_abp (split_on CHR 0x0A text) of
        Inl e \<Rightarrow> Inl e
      | Inr m \<Rightarrow> Inr (optimize E m))"

text \<open>\<open>NewABPByFile\<close>: the errors it returns, and the panics of the reader below it.\<close>

datatype abp_file_error = Read_Failed string | Decode_Failed

definition new_abp_by_file ::
  "regexp_engine \<Rightarrow> file_system \<Rightarrow> string \<Rightarrow> bool \<Rightarrow> abp_file_error + (panic + abplus)" where
  "new_abp_by_file E fs filename b64decode =
     (case fs filename of
        None \<Rightarrow> Inl (Read_Failed filename)
      | Some raw \<Rightarrow>
          if b64decode then
            (case b64_decode raw of
               None \<Rightarrow> Inl Decode_Failed
             | Some text \<Rightarrow> Inr (new_abp_by_text E text))
          else Inr (new_abp_by_text E raw))"

subsection \<open>Reading rules: no slice of a line is out of range but one\<close>

lemma length_cut_after: "length (cut_after s sub) \<le> length s"
  by (auto simp: cut_after_def split: option.split)

lemma length_cut_before: "length (cut_before s sub) \<le> length s"
  by (auto simp: cut_before_def split: option.split)

lemma length_extract_domain: "length (extract_domain s) \<le> length s"
  unfolding extract_domain_def by (meson length_cut_after length_cut_before order_trans)

lemma length_trim_suffix: "length (trim_suffix s p) \<le> length s"
  by (simp add: trim_suffix_def)

lemma length_rule_domain: "length (trim_suffix (extract_domain line) ''.'') \<le> length line"
  by (meson length_trim_suffix length_extract_domain order_trans)

lemma tld_length: "tld_reg t \<or> idn_reg t \<Longrightarrow> 2 \<le> length t"
  by (auto simp: tld_reg_def idn_reg_def)

lemma tld_not_dots:
  assumes "tld_reg t \<or> idn_reg t"
  shows "\<exists>c \<in> set t. c \<noteq> CHR ''.''"
proof -
  have alpha: "is_alpha c \<Longrightarrow> c \<noteq> CHR ''.''" for c by (auto simp: is_alpha_def less_eq_char_def)
  have "hd t \<in> set t" using tld_length [OF assms] by (cases t) auto
  moreover have "hd t \<noteq> CHR ''.''"
    using assms
  proof
    assume "tld_reg t"
    then have "is_alpha (hd t)" by (cases t) (auto simp: tld_reg_def)
    then show ?thesis by (rule alpha)
  next
    assume "idn_reg t"
    then have "hd t = CHR ''x''" by (auto simp: idn_reg_def prefix_def)
    then show ?thesis by simp
  qed
  ultimately show ?thesis by blast
qed

lemma trim_char_Nil: "trim_char d s = [] \<longleftrightarrow> set s \<subseteq> {d}"
proof
  assume e: "trim_char d s = []"
  have "dropWhile (\<lambda>c. c = d) (rev (dropWhile (\<lambda>c. c = d) s)) = []"
    using e by (simp add: trim_def trim_left_def trim_right_def del: dropWhile_eq_Nil_conv)
  then have "\<forall>x \<in> set (dropWhile (\<lambda>c. c = d) s). x = d"
    by (simp only: dropWhile_eq_Nil_conv set_rev)
  then have "set (dropWhile (\<lambda>c. c = d) s) \<subseteq> {d}" by blast
  moreover have "dropWhile (\<lambda>c. c = d) s = [] \<or> hd (dropWhile (\<lambda>c. c = d) s) \<noteq> d"
    using hd_dropWhile [of "\<lambda>c. c = d" s] by blast
  ultimately have "dropWhile (\<lambda>c. c = d) s = []" by (cases "dropWhile (\<lambda>c. c = d) s") auto
  then show "set s \<subseteq> {d}" by auto
next
  assume "set s \<subseteq> {d}"
  then have "dropWhile (\<lambda>c. c = d) s = []" by (auto simp: dropWhile_eq_Nil_conv)
  then show "trim_char d s = []"
    by (simp only: trim_def trim_left_def trim_right_def rev.simps dropWhile.simps)
qed

lemma split_on_Nil_iff: "split_on d s = [[]] \<longleftrightarrow> s = []"
  by (metis join.simps(2) join_split_on split_on.simps(1))

lemma labels_dots: "labels d = [[]] \<longleftrightarrow> set d \<subseteq> {CHR ''.''}"
  by (simp add: labels_def split_on_Nil_iff trim_char_Nil)

lemma canonical_rule:
  assumes "c \<in> set d" "c \<noteq> CHR ''.''"
  shows "canonical (labels (to_lower d))"
proof -
  have "to_lower_char c \<in> set (to_lower d)" using assms(1) by (simp add: to_lower_def)
  moreover have "to_lower_char c \<noteq> CHR ''.''" using assms(2) by simp
  ultimately have "labels (to_lower d) \<noteq> [[]]" by (auto simp: labels_dots)
  then show ?thesis by (rule canonical_labels)
qed

text \<open>What the matcher keeps true: canonical rules, expressions that compile.\<close>

definition abp_inv :: "regexp_engine \<Rightarrow> abplus \<Rightarrow> bool" where
  "abp_inv E m \<longleftrightarrow> trie_inv (trie m) \<and>
     (\<forall>r \<in> set (blocked_regs m) \<union> set (unblocked_regs m). re_compiles E r)"

definition optimized :: "regexp_engine \<Rightarrow> abplus \<Rightarrow> bool" where
  "optimized E m \<longleftrightarrow> optimize E m = m"

lemma optimized_optimize [simp]: "optimized E (optimize E m)"
  by (simp add: optimized_def optimize_def)

lemma abp_inv_optimize [simp]: "abp_inv E (optimize E m) = abp_inv E m"
  by (simp add: abp_inv_def optimize_def)

lemma add_plain_ok:
  assumes "length domain \<le> length line"
  shows "\<exists>m'. add_plain m line domain = Inr m' \<and> (abp_inv E m \<longrightarrow> abp_inv E m')"
proof (cases "last_index domain CHR ''.''")
  case None
  then show ?thesis by (simp add: add_plain_def del: last_index_None)
next
  case (Some i)
  show ?thesis
  proof (cases "tld_reg (drop (i + 1) domain) \<or> idn_reg (drop (i + 1) domain)")
    case False
    with Some show ?thesis by (simp add: add_plain_def)
  next
    case True
    from tld_length [OF this] assms have "2 \<le> length line" by simp
    then have "add_plain m line domain =
        Inr (m\<lparr>trie := trie_add (trie m) (to_lower domain) (take 2 line \<noteq> ''@@'')\<rparr>)"
      using Some True by (auto simp: add_plain_def slice_to_def)
    moreover have "canonical (labels (to_lower domain))"
      using tld_not_dots [OF True] canonical_rule in_set_dropD by metis
    ultimately show ?thesis by (auto simp: abp_inv_def dt.inv_add)
  qed
qed

lemma add_wildcard_cases:
  obtains (Panic) p where "add_wildcard E m line domain = Inl (Must_Compile p)" "\<not> re_compiles E p"
  | (Ok) m' where "add_wildcard E m line domain = Inr m'" "abp_inv E m \<Longrightarrow> abp_inv E m'"
proof (cases "re_compiles E (wildcard_source domain)")
  case False
  then show ?thesis using Panic by (simp add: add_wildcard_def must_compile_def)
next
  case True
  let ?r = "wildcard_source domain"
  have "abp_inv E m \<Longrightarrow> abp_inv E (m\<lparr>unblocked_regs := unblocked_regs m @ [?r]\<rparr>)"
    "abp_inv E m \<Longrightarrow> abp_inv E (m\<lparr>blocked_regs := blocked_regs m @ [?r]\<rparr>)"
    using True by (auto simp: abp_inv_def)
  with True show ?thesis
    using Ok by (cases "2 < length line \<and> take 2 line = ''@@''")
      (simp_all add: add_wildcard_def must_compile_def)
qed

text \<open>The one line whose prefix and suffix overlap: the path rule with nothing between them.\<close>

definition overlapping_path_rule :: string where
  "overlapping_path_rule = google_prefix @ ''.*/''"

lemma google_overlap:
  assumes "13 < length line" "take 13 line = google_prefix" "drop (length line - 5) line = google_suffix"
    "length line - 5 < 13"
  shows "line = overlapping_path_rule"
proof -
  define rest where "rest = drop 13 line"
  have line: "line = google_prefix @ rest" using assms(2) rest_def by (metis append_take_drop_id)
  have "length google_prefix = 13" by (simp add: google_prefix_def)
  with assms(1,4) line have "0 < length rest" "length rest < 5" by auto
  then consider "length rest = 1" | "length rest = 2" | "length rest = 3" | "length rest = 4" by linarith
  then show ?thesis
  proof cases
    case 1
    then obtain a where "rest = [a]" by (auto simp: length_Suc_conv)
    with assms(3) line show ?thesis by (simp add: google_prefix_def google_suffix_def)
  next
    case 2
    then obtain a b where "rest = [a, b]" by (auto simp: length_Suc_conv numeral_2_eq_2)
    with assms(3) line show ?thesis by (simp add: google_prefix_def google_suffix_def)
  next
    case 3
    then obtain a b c where "rest = [a, b, c]" by (auto simp: length_Suc_conv numeral_3_eq_3)
    with assms(3) line show ?thesis
      by (simp add: google_prefix_def google_suffix_def overlapping_path_rule_def)
  next
    case 4
    then obtain a b c d where "rest = [a, b, c, d]" by (auto simp: length_Suc_conv numeral_eq_Suc)
    with assms(3) line show ?thesis by (simp add: google_prefix_def google_suffix_def)
  qed
qed

lemma add_path_rule_cases:
  obtains (Slice) "add_path_rule E m line = Inl Slice_Bounds" "line = overlapping_path_rule"
  | (Panic) p where "add_path_rule E m line = Inl (Must_Compile p)" "\<not> re_compiles E p"
  | (Ok) m' where "add_path_rule E m line = Inr m'" "abp_inv E m \<Longrightarrow> abp_inv E m'"
proof (cases "13 < length line \<and> take 13 line = google_prefix \<and> drop (length line - 5) line = google_suffix")
  case False
  then have "add_path_rule E m line = Inr m" unfolding add_path_rule_def by (simp only: if_False)
  then show ?thesis using Ok by blast
next
  case google: True
  show ?thesis
  proof (cases "13 \<le> length line - 5")
    case True
    let ?p = "take (length line - 5 - 13) (drop 13 line)"
    show ?thesis
    proof (cases "re_compiles E ?p")
      case comp: True
      with google True have "add_path_rule E m line = Inr (m\<lparr>blocked_regs := blocked_regs m @ [?p]\<rparr>)"
        by (simp add: add_path_rule_def must_compile_def)
      moreover have "abp_inv E m \<Longrightarrow> abp_inv E (m\<lparr>blocked_regs := blocked_regs m @ [?p]\<rparr>)"
        using comp by (auto simp: abp_inv_def)
      ultimately show ?thesis using Ok by blast
    next
      case comp: False
      with google True have "add_path_rule E m line = Inl (Must_Compile ?p)"
        by (simp add: add_path_rule_def must_compile_def)
      with comp show ?thesis using Panic by blast
    qed
  next
    case False
    with google have "add_path_rule E m line = Inl Slice_Bounds" by (simp add: add_path_rule_def)
    moreover have "line = overlapping_path_rule" using google_overlap google False by auto
    ultimately show ?thesis using Slice by blast
  qed
qed

lemma add_line_cases:
  obtains (Slice) "add_line E m raw = Inl Slice_Bounds" "trim_space raw = overlapping_path_rule"
  | (Panic) p where "add_line E m raw = Inl (Must_Compile p)" "\<not> re_compiles E p"
  | (Ok) m' where "add_line E m raw = Inr m'" "abp_inv E m \<Longrightarrow> abp_inv E m'"
proof (cases "trim_space raw")
  case Nil
  then have "add_line E m raw = Inr m" by (simp add: add_line_def)
  then show ?thesis using Ok by blast
next
  case (Cons c rest)
  let ?line = "replace_all ''%2F'' ''/'' (trim_space raw)"
  let ?domain = "trim_suffix (extract_domain ?line) ''.''"
  consider "c = CHR ''!'' \<or> c = CHR ''[''" | "c = CHR ''/''"
    | "c \<noteq> CHR ''!''" "c \<noteq> CHR ''[''" "c \<noteq> CHR ''/''" "CHR ''*'' \<in> set ?domain"
    | "c \<noteq> CHR ''!''" "c \<noteq> CHR ''[''" "c \<noteq> CHR ''/''" "CHR ''*'' \<notin> set ?domain" by blast
  then show ?thesis
  proof cases
    case 1
    then have "add_line E m raw = Inr m" using Cons by (auto simp: add_line_def)
    then show ?thesis using Ok by blast
  next
    case 2
    then have "add_line E m raw = add_path_rule E m (trim_space raw)" using Cons by (simp add: add_line_def)
    then show ?thesis using Slice Panic Ok by (cases rule: add_path_rule_cases [of E m "trim_space raw"]) auto
  next
    case 3
    then have "add_line E m raw = add_wildcard E m ?line ?domain" using Cons by (simp add: add_line_def Let_def)
    then show ?thesis using Panic Ok by (cases rule: add_wildcard_cases [of E m ?line ?domain]) auto
  next
    case 4
    then have "add_line E m raw = add_plain m ?line ?domain" using Cons by (simp add: add_line_def Let_def)
    then show ?thesis using Ok add_plain_ok [OF length_rule_domain] by metis
  qed
qed

lemma add_lines_inv: "add_lines E m ls = Inr m' \<Longrightarrow> abp_inv E m \<Longrightarrow> abp_inv E m'"
proof (induction ls arbitrary: m)
  case (Cons l ls)
  then show ?case by (cases rule: add_line_cases [of E m l]) auto
qed simp

lemma add_lines_panic:
  "add_lines E m ls = Inl e \<Longrightarrow>
   e = Slice_Bounds \<and> (\<exists>l \<in> set ls. trim_space l = overlapping_path_rule) \<or>
   (\<exists>p. e = Must_Compile p \<and> \<not> re_compiles E p)"
proof (induction ls arbitrary: m)
  case (Cons l ls)
  then show ?case by (cases rule: add_line_cases [of E m l]) auto
qed simp

lemma abp_inv_empty: "abp_inv E empty_abp"
  by (simp add: abp_inv_def empty_abp_def dt.inv_fresh)

lemma new_abp_inv: "new_abp_by_text E text = Inr m \<Longrightarrow> abp_inv E m \<and> optimized E m"
  using add_lines_inv [OF _ abp_inv_empty]
  by (auto simp: new_abp_by_text_def split: sum.splits)

lemma extend_abp_inv:
  assumes "visits_all ord" "abp_inv E m" "abp_inv E t"
  shows "abp_inv E (extend_abp E ord m (Some t))"
proof -
  have "trie_inv (fold (\<lambda>(d, b) n. trie_add n d b) (trie_walk ord (trie t)) (trie m))"
    using assms dt.inv_extend by (simp add: abp_inv_def)
  moreover have "extend_abp E ord m (Some t) = optimize E (m\<lparr>
      trie := fold (\<lambda>(d, b) n. trie_add n d b) (trie_walk ord (trie t)) (trie m),
      blocked_regs := blocked_regs m @ blocked_regs t,
      unblocked_regs := unblocked_regs m @ unblocked_regs t\<rparr>)"
    by (simp add: extend_abp_def)
  ultimately show ?thesis
    using assms(2,3) by (simp only: abp_inv_optimize) (auto simp: abp_inv_def)
qed

subsection \<open>What a rule set decides\<close>

text \<open>
  The decision without the trie's walk and without the merged expressions: the most
  specific plain rule, then the blocking expressions, then the excluding ones.
\<close>

definition decide ::
  "regexp_engine \<Rightarrow> (string list \<Rightarrow> bool option) \<Rightarrow> string list \<Rightarrow> string list \<Rightarrow> string \<Rightarrow> bool \<times> bool" where
  "decide E rules blocked unblocked d =
     (case most_specific rules (labels d) of
        Some block \<Rightarrow> (block, True)
      | None \<Rightarrow>
          if \<exists>r \<in> set blocked. re_matches E r d then (True, True)
          else if \<exists>r \<in> set unblocked. re_matches E r d then (False, True)
          else (False, False))"

lemma trie_match_labels:
  assumes "trie_inv t"
  shows "trie_match t d = verdict (most_specific (rules_of t) (labels d))"
proof (cases "d = []")
  case True
  have "rules_of t [[]] = None"
    using assms dt.inv_canonical [of t "[[]]"] by (cases "rules_of t [[]]") (auto simp: canonical_def)
  moreover have "labels [] = [[]]" by (simp add: labels_def trim_def trim_left_def trim_right_def)
  ultimately show ?thesis using True by (simp add: trie_match_def verdict_def)
next
  case False
  then show ?thesis by (rule dt.matches_spec)
qed

context regexp_union begin

lemma merge_regs_match:
  assumes "\<forall>r \<in> set regs. re_compiles E r"
  shows "regs_match E (merge_regs E regs) regs d \<longleftrightarrow> (\<exists>r \<in> set regs. re_matches E r d)"
proof (cases "regs = []")
  case True
  then show ?thesis by (simp add: merge_regs_def regs_match_def)
next
  case False
  then have "merge_regs E regs = Some (union_source regs)"
    using union_compiles [OF False assms] by (simp add: merge_regs_def union_source_def Let_def)
  then show ?thesis using union_matches [OF False assms] by (simp add: regs_match_def)
qed

lemma abp_match_decide:
  assumes "abp_inv E m" "optimized E m" "d \<noteq> []"
  shows "abp_match E m d = decide E (rules_of (trie m)) (blocked_regs m) (unblocked_regs m) (match_key d)"
proof -
  have regs: "\<forall>r \<in> set (blocked_regs m). re_compiles E r" "\<forall>r \<in> set (unblocked_regs m). re_compiles E r"
    and t: "trie_inv (trie m)"
    using assms(1) by (auto simp: abp_inv_def)
  have opt: "combined_blocked_reg m = merge_regs E (blocked_regs m)"
    "combined_unblocked_reg m = merge_regs E (unblocked_regs m)"
    using assms(2) unfolding optimized_def optimize_def
    by (metis (no_types, lifting) abplus.select_convs(4) abplus.surjective abplus.update_convs(4) abplus.update_convs(5),
        metis (no_types, lifting) abplus.select_convs(5) abplus.surjective abplus.update_convs(4) abplus.update_convs(5))
  show ?thesis
    using assms(3)
    by (simp add: abp_match_def decide_def trie_match_labels [OF t] verdict_def opt Let_def
        merge_regs_match [OF regs(1)] merge_regs_match [OF regs(2)] split: option.split)
qed

end

subsection \<open>Properties\<close>

text \<open>Reading a rule text gives a well-formed matcher: canonical trie rules, expressions
  that compile, and merged expressions that are up to date with the lists.\<close>

theorem new_abp_by_text_inv:
  assumes "new_abp_by_text E text = Inr m"
  shows "abp_inv E m \<and> optimize E m = m"
  using new_abp_inv [OF assms] by (simp add: optimized_def)

theorem new_abp_by_text_inv_witness:
  "\<exists>m. new_abp_by_text go_regexp ''||a.cn'' = Inr m \<and> abp_inv go_regexp m \<and> optimize go_regexp m = m"
proof -
  have "\<exists>m. new_abp_by_text go_regexp ''||a.cn'' = Inr m"
    by (simp add: new_abp_by_text_def add_line_def trim_space_def trim_def trim_left_def
        trim_right_def is_space_def replace_all.simps extract_domain_def cut_after_def cut_before_def
        trim_suffix_def suffix_def add_plain_def tld_reg_def is_alpha_def less_eq_char_def slice_to_def)
  then show ?thesis using new_abp_by_text_inv by blast
qed

text \<open>C23: What \<open>Match\<close> decides. For a matcher read from rules, the domain (lower case,
  without a trailing dot) is decided by the most specific plain rule of the trie; without
  one, a blocking expression makes it matched, else an excluding expression makes it
  explicitly unmatched. Merging the expressions changes nothing.\<close>

theorem abp_match_decides:
  assumes "abp_inv go_regexp m" and "optimize go_regexp m = m" and "d \<noteq> []"
  shows "abp_match go_regexp m d =
     (case most_specific (rules_of (trie m)) (labels (match_key d)) of
        Some block \<Rightarrow> (block, True)
      | None \<Rightarrow>
          if \<exists>r \<in> set (blocked_regs m). re_matches go_regexp r (match_key d) then (True, True)
          else if \<exists>r \<in> set (unblocked_regs m). re_matches go_regexp r (match_key d) then (False, True)
          else (False, False))"
  using union_re.abp_match_decide [OF assms(1) _ assms(3)] assms(2)
  by (simp add: optimized_def decide_def)

text \<open>A small matcher for the witnesses.\<close>

definition sample_abp :: "string \<Rightarrow> bool \<Rightarrow> abplus" where
  "sample_abp r b = optimize go_regexp (empty_abp\<lparr>trie := trie_add new_domain_trie r b\<rparr>)"

lemma sample_abp:
  "canonical (labels r) \<Longrightarrow> abp_inv go_regexp (sample_abp r b)"
  "optimize go_regexp (sample_abp r b) = sample_abp r b"
  "blocked_regs (sample_abp r b) = []" "unblocked_regs (sample_abp r b) = []"
  "r \<noteq> [] \<Longrightarrow> rules_of (trie (sample_abp r b)) = [labels r \<mapsto> b]"
  using dt.rules_add [of r new_domain_trie b] dt.inv_add [OF dt.inv_fresh, of r b]
  by (simp_all add: sample_abp_def abp_inv_def empty_abp_def dt.rules_fresh)
     (simp_all add: optimize_def merge_regs_def)

lemma labels_samples:
  "labels ''a.cn'' = [''a'', ''cn'']" "labels ''www.a.cn'' = [''www'', ''a'', ''cn'']"
  "labels ''b.a.cn'' = [''b'', ''a'', ''cn'']" "labels ''x.b.a.cn'' = [''x'', ''b'', ''a'', ''cn'']"
  by (simp_all add: labels_def trim_def trim_left_def trim_right_def)

theorem abp_match_decides_witness:
  "abp_match go_regexp (sample_abp ''a.cn'' True) ''WWW.A.cn.'' = (True, True)"
proof -
  have key: "match_key ''WWW.A.cn.'' = ''www.a.cn''"
    by code_simp
  have inv: "abp_inv go_regexp (sample_abp ''a.cn'' True)"
    by (simp add: sample_abp labels_samples canonical_def)
  show ?thesis
    by (subst abp_match_decides [OF inv]) (simp_all add: sample_abp key labels_samples)
qed

text \<open>\<open>Extend\<close> adds the target's rules and they win over rules on the same domain,
  whatever the order in which the target's trie is walked; the expressions of both sides
  count, and the merged expressions are rebuilt.\<close>

theorem extend_decides:
  assumes "visits_all ord" and "abp_inv go_regexp m" and "abp_inv go_regexp t" and "d \<noteq> []"
  shows "abp_match go_regexp (extend_abp go_regexp ord m (Some t)) d =
     decide go_regexp (rules_of (trie m) ++ rules_of (trie t))
       (blocked_regs m @ blocked_regs t) (unblocked_regs m @ unblocked_regs t) (match_key d)"
proof -
  let ?e = "extend_abp go_regexp ord m (Some t)"
  have "rules_of (trie ?e) = rules_of (trie m) ++ rules_of (trie t)"
    using dt.rules_extend [OF assms(1), of "trie t" "trie m"] assms(3)
    by (simp add: extend_abp_def optimize_def abp_inv_def)
  moreover have "blocked_regs ?e = blocked_regs m @ blocked_regs t"
    "unblocked_regs ?e = unblocked_regs m @ unblocked_regs t" "optimized go_regexp ?e"
    by (simp_all add: extend_abp_def) (simp_all add: optimize_def)
  ultimately show ?thesis
    using union_re.abp_match_decide [OF extend_abp_inv [OF assms(1-3)] _ assms(4)] by simp
qed

theorem extend_decides_witness:
  "abp_match go_regexp
     (extend_abp go_regexp rev (sample_abp ''a.cn'' True) (Some (sample_abp ''b.a.cn'' False))) ''x.b.a.cn''
   = (False, True)"
proof -
  have inv: "abp_inv go_regexp (sample_abp ''a.cn'' True)" "abp_inv go_regexp (sample_abp ''b.a.cn'' False)"
    by (simp_all add: sample_abp labels_samples canonical_def)
  have rev: "visits_all rev" by (simp add: visits_all_def)
  have key: "match_key ''x.b.a.cn'' = ''x.b.a.cn''"
    by code_simp
  show ?thesis
    by (subst extend_decides [OF rev inv]) (simp_all add: decide_def sample_abp key labels_samples)
qed

lemma new_abp_overlapping: "new_abp_by_text go_regexp overlapping_path_rule = Inl Slice_Bounds"
  by (simp add: new_abp_by_text_def add_line_def overlapping_path_rule_def google_prefix_def
      google_suffix_def add_path_rule_def trim_space_def trim_def trim_left_def trim_right_def is_space_def)

text \<open>Reading rules can panic in two ways only: an expression that does not compile, or
  the path rule whose prefix and suffix overlap. The slice \<open>line[:2]\<close> never does.\<close>

theorem new_abp_by_text_panics:
  assumes "new_abp_by_text E text = Inl e"
  shows "e = Slice_Bounds \<and> (\<exists>l \<in> set (split_on CHR 0x0A text). trim_space l = overlapping_path_rule) \<or>
     (\<exists>p. e = Must_Compile p \<and> \<not> re_compiles E p)"
  using assms add_lines_panic [of E empty_abp "split_on CHR 0x0A text" e]
  by (auto simp: new_abp_by_text_def split: sum.splits)

theorem new_abp_by_text_panics_witness:
  "\<exists>l \<in> set (split_on CHR 0x0A overlapping_path_rule). trim_space l = overlapping_path_rule"
proof -
  from new_abp_by_text_panics [OF new_abp_overlapping] show ?thesis by simp
qed

text \<open>C40: The path rule whose prefix and suffix overlap is accepted by the guard (the line has
  16 characters, more than 13) and the slice \<open>line[13:len(line)-5]\<close> is then \<open>line[13:11]\<close>: reading
  any rule text with this line crashes, whatever the other lines are.\<close>

theorem overlapping_path_rule_crashes:
  assumes "l \<in> set (split_on CHR 0x0A text)" and "trim_space l = overlapping_path_rule"
  shows "\<exists>e. new_abp_by_text E text = Inl e"
proof -
  have line: "add_line E m l = Inl Slice_Bounds" for m
    by (simp add: add_line_def assms(2))
       (simp add: overlapping_path_rule_def google_prefix_def google_suffix_def add_path_rule_def)
  have "l \<in> set ls \<Longrightarrow> \<exists>e. add_lines E m ls = Inl e" for m ls
    by (induction ls arbitrary: m) (auto simp: line split: sum.splits)
  from this [OF assms(1), of empty_abp] show ?thesis by (auto simp: new_abp_by_text_def)
qed

theorem overlapping_path_rule_crashes_witness:
  "\<exists>e. new_abp_by_text go_regexp (''||a.cn'' @ CHR 0x0A # overlapping_path_rule) = Inl e"
  by (rule overlapping_path_rule_crashes [where l = overlapping_path_rule])
     (simp_all add: overlapping_path_rule_def google_prefix_def google_suffix_def
        trim_space_def trim_def trim_left_def trim_right_def is_space_def)

lemma glob_upper:
  "glob h s \<Longrightarrow> c \<in> set h \<Longrightarrow> c \<noteq> CHR ''*'' \<Longrightarrow> c \<noteq> CHR ''?'' \<Longrightarrow> c \<in> set s"
proof (induction h s rule: glob.induct)
  case (2 d h s)
  show ?case
  proof (cases "d = CHR ''*''")
    case True
    with "2.prems" obtain i where i: "i \<in> set [0..<Suc (length s)]" "glob h (drop i s)" and "c \<in> set h"
      by (auto simp: list_ex_iff simp del: upt_Suc)
    with "2.IH"(1) [OF True i(1)] "2.prems" have "c \<in> set (drop i s)" by blast
    then show ?thesis by (rule in_set_dropD)
  next
    case False
    with "2.prems" "2.IH"(2) show ?thesis by (auto split: list.splits if_splits)
  qed
qed simp

lemma to_lower_no_upper: "c \<in> set (to_lower d) \<Longrightarrow> \<not> (CHR ''A'' \<le> c \<and> c \<le> CHR ''Z'')"
  by (auto simp: to_lower_def to_lower_char_def less_eq_char_def split: if_splits)

lemma set_match_key: "set (match_key d) \<subseteq> set (to_lower d)"
  by (auto simp: match_key_def Let_def dest: in_set_butlastD)

lemma wildcard_glob: "CHR ''?'' \<notin> set h \<Longrightarrow> wildcard_source h = glob_source h"
  by (induction h) (auto simp: wildcard_source_def glob_source_def glob_chars_def)

text \<open>Domains are matched in lower case but the expression of a wildcard rule keeps the
  rule's case: a wildcard rule with a capital letter never matches any domain, while a
  plain rule is lowered before it is stored.\<close>

theorem capital_wildcard_never_matches:
  assumes "\<forall>c \<in> set h. domain_char c \<or> c = CHR ''*''"
    and "c \<in> set h" and "CHR ''A'' \<le> c \<and> c \<le> CHR ''Z''"
  shows "\<not> re_matches go_regexp (wildcard_source h) (match_key d)"
proof
  assume m: "re_matches go_regexp (wildcard_source h) (match_key d)"
  have q: "CHR ''?'' \<notin> set h"
  proof
    assume "CHR ''?'' \<in> set h"
    with assms(1) have "domain_char CHR ''?''" by auto
    then show False by (simp add: domain_char_def is_alnum_def is_digit_def less_eq_char_def)
  qed
  have ok: "\<forall>c \<in> set h. domain_char c \<or> c = CHR ''*'' \<or> c = CHR ''?''" using assms(1) by blast
  from m have g: "glob h (match_key d)"
    by (simp add: wildcard_glob [OF q] glob_re.glob_matches [OF ok])
  have "c \<noteq> CHR ''*''" "c \<noteq> CHR ''?''" using assms(3) by (auto simp: less_eq_char_def)
  with glob_upper [OF g assms(2)] have "c \<in> set (to_lower d)" using set_match_key by blast
  from to_lower_no_upper [OF this] assms(3) show False by simp
qed

theorem capital_wildcard_never_matches_witness:
  "\<not> re_matches go_regexp (wildcard_source ''*.Example.com'') (match_key ''www.Example.com'')"
  by (rule capital_wildcard_never_matches [where c = "CHR ''E''"])
     (simp_all add: domain_char_def is_alnum_def is_digit_def less_eq_char_def)

end
