(* ===== verification/Go_Net.thy ===== *)
theory Go_Net
  imports Go_Strings
begin

section \<open>Addresses (package \<open>net\<close>)\<close>

text \<open>
  What the program uses of the standard library's \<open>net\<close>: parsing and printing IP
  addresses, CIDR notation, and host and port pairs. A \<open>net.IP\<close> is a byte slice of length
  4 or 16 (the empty list is the nil slice); \<open>ParseIP\<close> always returns 16 bytes.
\<close>

type_synonym ip = "u8 list"

definition v4_prefix :: ip where
  "v4_prefix = replicate 10 0 @ [255, 255]"

definition to4 :: "ip \<Rightarrow> ip option" where
  "to4 a =
     (if length a = 4 then Some a
      else if length a = 16 \<and> take 12 a = v4_prefix then Some (drop 12 a)
      else None)"

definition to16 :: "ip \<Rightarrow> ip option" where
  "to16 a =
     (if length a = 4 then Some (v4_prefix @ a) else if length a = 16 then Some a else None)"

subsection \<open>Printing\<close>

definition hex_digit :: "nat \<Rightarrow> char" where
  "hex_digit n = (if n < 10 then char_of (48 + n) else char_of (87 + n))"

definition v4_string :: "ip \<Rightarrow> string" where
  "v4_string a = join ''.'' (map (\<lambda>b. dec_nat (unat b)) a)"

text \<open>The eight 16-bit groups of a 16-byte address, as four hexadecimal digits each.\<close>

fun hextets :: "ip \<Rightarrow> nat list list" where
  "hextets (x # y # r) = [unat x div 16, unat x mod 16, unat y div 16, unat y mod 16] # hextets r"
| "hextets _ = []"

definition hextet_string :: "nat list \<Rightarrow> string" where
  "hextet_string ds =
     map hex_digit (case dropWhile (\<lambda>d. d = 0) ds of [] \<Rightarrow> [0] | d # r \<Rightarrow> d # r)"

definition zero_run :: "nat list list \<Rightarrow> nat \<Rightarrow> nat" where
  "zero_run gs i = length (takeWhile (\<lambda>g. g = [0, 0, 0, 0]) (drop i gs))"

text \<open>The first longest run of at least two zero groups, as start and length.\<close>

definition longest_zero_run :: "nat list list \<Rightarrow> nat \<times> nat" where
  "longest_zero_run gs =
     fold (\<lambda>i (s, l). let n = zero_run gs i in if 2 \<le> n \<and> l < n then (i, n) else (s, l))
       [0..<length gs] (0, 0)"

definition v6_string :: "ip \<Rightarrow> string" where
  "v6_string a =
     (let gs = hextets a; (s, l) = longest_zero_run gs; hex = (\<lambda>ns. join '':'' (map hextet_string ns))
      in if l = 0 then hex gs else hex (take s gs) @ ''::'' @ hex (drop (s + l) gs))"

definition ip_string :: "ip \<Rightarrow> string" where
  "ip_string a =
     (if a = [] then ''<nil>''
      else case to4 a of
          Some b \<Rightarrow> v4_string b
        | None \<Rightarrow>
            if length a = 16 then v6_string a
            else ''?'' @ concat (map (\<lambda>b. [hex_digit (unat b div 16), hex_digit (unat b mod 16)]) a))"

text \<open>What printed addresses look like.\<close>

definition hex_chars :: string where
  "hex_chars = ''0123456789abcdef''"

lemma hex_digit_chars: "n < 16 \<Longrightarrow> hex_digit n \<in> set hex_chars"
proof -
  have "\<forall>n \<in> set [0..<16]. hex_digit n \<in> set hex_chars" by code_simp
  then show "n < 16 \<Longrightarrow> hex_digit n \<in> set hex_chars" by simp
qed

lemma set_join: "set (join sep ps) \<subseteq> set sep \<union> \<Union> (set (map set ps))"
proof (induction ps)
  case (Cons p ps)
  then show ?case by (cases "ps = []") (auto simp: join_Cons)
qed simp

lemma hextets_digits: "ds \<in> set (hextets a) \<Longrightarrow> \<forall>d \<in> set ds. d < 16"
proof (induction a rule: hextets.induct)
  case (1 x y r)
  have "unat z < 256" for z :: u8 using unsigned_less [of z, where ?'a = nat] by simp
  then have "unat z div 16 < 16" for z :: u8 by (simp add: less_mult_imp_div_less)
  with 1 show ?case by auto
qed auto

lemma length_hextets: "length (hextets a) = length a div 2"
  by (induction a rule: hextets.induct) auto

lemma set_hextet_string: "\<forall>d \<in> set ds. d < 16 \<Longrightarrow> set (hextet_string ds) \<subseteq> set hex_chars"
  using hex_digit_chars hex_digit_chars [of 0]
  by (auto simp: hextet_string_def dest: set_dropWhileD split: list.splits)
    (metis list.set_intros(1,2) set_dropWhileD)+

text \<open>A printed IPv6 address: lower-case hexadecimal digits and at least one colon.\<close>

lemma v6_string_chars:
  assumes "length a = 16"
  shows "set (v6_string a) \<subseteq> set (CHR '':'' # hex_chars)" "CHR '':'' \<in> set (v6_string a)"
proof -
  obtain s l where sl: "longest_zero_run (hextets a) = (s, l)" by (cases "longest_zero_run (hextets a)")
  have hex: "set (join '':'' (map hextet_string gs)) \<subseteq> set (CHR '':'' # hex_chars)"
    if "set gs \<subseteq> set (hextets a)" for gs
  proof -
    have "set (hextet_string ds) \<subseteq> set hex_chars" if "ds \<in> set gs" for ds
      using set_hextet_string hextets_digits \<open>set gs \<subseteq> set (hextets a)\<close> that by blast
    then have "\<Union> (set (map set (map hextet_string gs))) \<subseteq> set hex_chars" by auto
    with set_join [of "'':''" "map hextet_string gs"] show ?thesis by auto
  qed
  show "set (v6_string a) \<subseteq> set (CHR '':'' # hex_chars)"
    using hex [OF order_refl] hex [OF set_take_subset [of s]] hex [OF set_drop_subset [of "s + l"]]
    by (auto simp: v6_string_def sl Let_def)
  have "length (hextets a) = 8" using length_hextets [of a] assms by simp
  then obtain g g' gs where "hextets a = g # g' # gs"
    by (cases "hextets a"; cases "tl (hextets a)") auto
  then show "CHR '':'' \<in> set (v6_string a)"
    using sl by (auto simp: v6_string_def Let_def join_Cons)
qed

lemma v4_string_parts:
  assumes "length b = 4"
  obtains o1 o2 o3 o4 where "v4_string b = o1 @ CHR ''.'' # o2 @ CHR ''.'' # o3 @ CHR ''.'' # o4"
    "list_all is_digit o1" "list_all is_digit o2" "list_all is_digit o3" "list_all is_digit o4"
proof -
  from assms obtain b1 b2 b3 b4 where b: "b = [b1, b2, b3, b4]"
    by (auto simp: numeral_eq_Suc length_Suc_conv)
  show thesis
    by (rule that [of "dec_nat (unat b1)" "dec_nat (unat b2)" "dec_nat (unat b3)" "dec_nat (unat b4)"])
      (simp_all add: b v4_string_def list_all_iff dec_nat_digits)
qed

lemma ip_string_not_Nil [simp]: "ip_string a \<noteq> []"
proof (cases "to4 a")
  case None
  then show ?thesis
  proof (cases "length a = 16")
    case True
    then have "length (hextets a) = 8"
      using length_hextets [of a] by simp
    obtain s l where "longest_zero_run (hextets a) = (s, l)" by (cases "longest_zero_run (hextets a)")
    moreover obtain g gs where "hextets a = g # gs" using \<open>length (hextets a) = 8\<close> by (cases "hextets a") auto
    moreover have "hextet_string g \<noteq> []" by (simp add: hextet_string_def split: list.split)
    ultimately show ?thesis using None True
      by (cases "gs = []") (auto simp: ip_string_def v6_string_def Let_def join_Cons)
  qed (auto simp: ip_string_def)
next
  case (Some b)
  then have "length b = 4" by (auto simp: to4_def split: if_splits)
  then obtain x y where "b = x # y" by (cases b) auto
  with Some show ?thesis by (cases "y = []") (auto simp: ip_string_def v4_string_def join_Cons)
qed

subsection \<open>Parsing\<close>

text \<open>One field of a dotted address: decimal, at most 255, no leading zero.\<close>

definition parse_octet :: "string \<Rightarrow> u8 option" where
  "parse_octet s =
     (if s \<noteq> [] \<and> list_all is_digit s \<and> (length s = 1 \<or> hd s \<noteq> CHR ''0'') \<and> val_dec 0 s \<le> 255
      then Some (of_nat (val_dec 0 s)) else None)"

definition parse_v4 :: "string \<Rightarrow> ip option" where
  "parse_v4 s =
     (case map parse_octet (split_on CHR ''.'' s) of
        [Some a, Some b, Some c, Some d] \<Rightarrow> Some [a, b, c, d]
      | _ \<Rightarrow> None)"

definition hex_val :: "char \<Rightarrow> nat option" where
  "hex_val c =
     (if CHR ''0'' \<le> c \<and> c \<le> CHR ''9'' then Some (of_char c - 48)
      else if CHR ''a'' \<le> c \<and> c \<le> CHR ''f'' then Some (of_char c - 87)
      else if CHR ''A'' \<le> c \<and> c \<le> CHR ''F'' then Some (of_char c - 55)
      else None)"

text \<open>The two bytes of a group of one to four hexadecimal digits.\<close>

definition group_bytes :: "string \<Rightarrow> u8 list" where
  "group_bytes ds =
     (let v = (\<lambda>c. case hex_val c of Some n \<Rightarrow> n | None \<Rightarrow> 0);
          ns = replicate (4 - length ds) 0 @ map v ds
      in [of_nat (16 * ns ! 0 + ns ! 1), of_nat (16 * ns ! 2 + ns ! 3)])"

text \<open>
  The loop of the IPv6 parser: \<open>acc\<close> holds the bytes read so far, \<open>ell\<close> the position of the
  \<open>::\<close> in them. The result is the bytes, the position and whether the text was used up.
\<close>

function parse_v6_groups :: "ip \<Rightarrow> nat option \<Rightarrow> string \<Rightarrow> (ip \<times> nat option) option" where
  "parse_v6_groups acc ell s =
     (if 16 \<le> length acc then (if s = [] then Some (acc, ell) else None)
      else
        let ds = takeWhile (\<lambda>c. hex_val c \<noteq> None) s; r = drop (length ds) s
        in if ds = [] \<or> 4 < length ds then None
           else if prefix ''.'' r then
             (if ell = None \<and> length acc \<noteq> 12 \<or> 16 < length acc + 4 then None
              else map_option (\<lambda>v4. (acc @ v4, ell)) (parse_v4 s))
           else
             let acc' = acc @ group_bytes ds
             in (case r of
                   [] \<Rightarrow> Some (acc', ell)
                 | c # t \<Rightarrow>
                     if c \<noteq> CHR '':'' then None
                     else (case t of
                             [] \<Rightarrow> None
                           | d # u \<Rightarrow>
                               if d = CHR '':'' then
                                 (if ell \<noteq> None then None
                                  else if u = [] then Some (acc', Some (length acc'))
                                  else parse_v6_groups acc' (Some (length acc')) u)
                               else parse_v6_groups acc' ell t)))"
  by pat_completeness auto
termination
  by (relation "measure (\<lambda>(acc, ell, s). 16 - length acc)") (auto simp: group_bytes_def Let_def)

declare parse_v6_groups.simps [simp del]

definition parse_v6 :: "string \<Rightarrow> ip option" where
  "parse_v6 s =
     (if CHR ''%'' \<in> set s then None
      else if s = ''::'' then Some (replicate 16 0)
      else
        case (if prefix ''::'' s then parse_v6_groups [] (Some 0) (drop 2 s)
              else parse_v6_groups [] None s) of
          None \<Rightarrow> None
        | Some (a, ell) \<Rightarrow>
            (case ell of
               None \<Rightarrow> if length a = 16 then Some a else None
             | Some e \<Rightarrow>
                 if length a < 16 then Some (take e a @ replicate (16 - length a) 0 @ drop e a)
                 else None))"

text \<open>
  \<open>net.ParseIP\<close>: dotted or colon notation by the first of the two characters; the
  dotted form is returned in 16 bytes.
\<close>

definition parse_ip :: "string \<Rightarrow> ip option" where
  "parse_ip s =
     (case find (\<lambda>c. c = CHR ''.'' \<or> c = CHR '':'' \<or> c = CHR ''%'') s of
        None \<Rightarrow> None
      | Some c \<Rightarrow>
          if c = CHR ''.'' then map_option (\<lambda>a. v4_prefix @ a) (parse_v4 s)
          else if c = CHR '':'' then parse_v6 s
          else None)"

subsection \<open>CIDR\<close>

text \<open>The network of a CIDR: the address as written, its family's width, and the prefix length.\<close>

record ip_net =
  net_ip :: ip
  net_ones :: nat
  net_bits :: nat

definition mask_byte :: "nat \<Rightarrow> u8" where
  "mask_byte n = (if 8 \<le> n then 255 else of_nat (256 - 2 ^ (8 - n)))"

definition apply_mask :: "nat \<Rightarrow> ip \<Rightarrow> ip" where
  "apply_mask ones a = map (\<lambda>(i, b). and b (mask_byte (ones - 8 * i))) (zip [0..<length a] a)"

text \<open>
  The prefix length of a CIDR is all decimal digits. (The library also refuses numbers
  above \<open>0xFFFFFF\<close>, which the bound of the caller refuses anyway.)
\<close>

definition parse_mask :: "string \<Rightarrow> nat option" where
  "parse_mask s = (if s \<noteq> [] \<and> list_all is_digit s then Some (val_dec 0 s) else None)"

definition parse_cidr :: "string \<Rightarrow> (ip \<times> ip_net) option" where
  "parse_cidr s =
     (case str_index s ''/'' of
        None \<Rightarrow> None
      | Some i \<Rightarrow>
          let addr = take i s; mask = drop (i + 1) s
          in (case parse_ip addr of
                None \<Rightarrow> None
              | Some a \<Rightarrow>
                  let bits = (if CHR '':'' \<in> set addr then 128 else 32)
                  in (case parse_mask mask of
                        None \<Rightarrow> None
                      | Some n \<Rightarrow>
                          if bits < n then None
                          else Some (a, \<lparr>net_ip = apply_mask n (if bits = 32 then drop 12 a else a),
                                         net_ones = n, net_bits = bits\<rparr>))))"

subsection \<open>Host and port\<close>

definition join_host_port :: "string \<Rightarrow> string \<Rightarrow> string" where
  "join_host_port host port =
     (if CHR '':'' \<in> set host then ''['' @ host @ '']:'' @ port else host @ '':'' @ port)"

definition split_host_port :: "string \<Rightarrow> (string \<times> string) option" where
  "split_host_port hp =
     (case last_index hp CHR '':'' of
        None \<Rightarrow> None
      | Some i \<Rightarrow>
          if prefix ''['' hp then
            (case str_index hp '']'' of
               None \<Rightarrow> None
             | Some e \<Rightarrow>
                 if e + 1 \<noteq> i then None
                 else if CHR ''['' \<in> set (drop 1 hp) \<or> CHR '']'' \<in> set (drop (e + 1) hp) then None
                 else Some (drop 1 (take e hp), drop (i + 1) hp))
          else if CHR '':'' \<in> set (take i hp) then None
          else if CHR ''['' \<in> set hp \<or> CHR '']'' \<in> set hp then None
          else Some (take i hp, drop (i + 1) hp))"

end
