(* ===== verification/Dns_Types.thy ===== *)
theory Dns_Types
  imports Go_Net
begin

section \<open>DNS messages\<close>

text \<open>
  The message types of the DNS library the program works on, with the fields the program
  reads or writes, and the library's operations it calls. The library is not part of the
  repository: its operations are the fields of a record the definitions take as an
  argument, and what a theorem relies on is a named hypothesis about them.

  A pointer to a message that may be nil is an option. \<open>Copy\<close> makes a deep copy, which is
  the value itself here: the model has no aliasing between messages.
\<close>

subsection \<open>Records and messages\<close>

record ecs =
  ecs_family :: u16
  ecs_netmask :: u8
  ecs_address :: ip

datatype edns0 = EDNS0_SUBNET ecs | EDNS0_COOKIE string | EDNS0_OTHER u16 string

record rr_header =
  hdr_name :: string
  hdr_rrtype :: u16
  hdr_class :: u16
  hdr_ttl :: u32

text \<open>A resource record: its Go type (the constructor), its header, its data.\<close>

datatype rr =
    RR_A (hdr: rr_header) (rr_ip: ip)
  | RR_AAAA (hdr: rr_header) (rr_ip: ip)
  | RR_CNAME (hdr: rr_header) (rr_text: string)
  | RR_PTR (hdr: rr_header) (rr_text: string)
  | RR_TXT (hdr: rr_header) (rr_texts: "string list")
  | RR_OPT (hdr: rr_header) (rr_options: "edns0 list")
  | RR_Other (hdr: rr_header) (rr_text: string)

fun set_hdr :: "rr_header \<Rightarrow> rr \<Rightarrow> rr" where
  "set_hdr h (RR_A _ a) = RR_A h a"
| "set_hdr h (RR_AAAA _ a) = RR_AAAA h a"
| "set_hdr h (RR_CNAME _ t) = RR_CNAME h t"
| "set_hdr h (RR_PTR _ t) = RR_PTR h t"
| "set_hdr h (RR_TXT _ t) = RR_TXT h t"
| "set_hdr h (RR_OPT _ os) = RR_OPT h os"
| "set_hdr h (RR_Other _ t) = RR_Other h t"

lemma hdr_set_hdr [simp]: "hdr (set_hdr h r) = h"
  by (cases r) auto

lemma set_hdr_twice [simp]: "set_hdr h (set_hdr h' r) = set_hdr h r"
  by (cases r) auto

definition set_ttl :: "u32 \<Rightarrow> rr \<Rightarrow> rr" where
  "set_ttl t r = set_hdr ((hdr r)\<lparr>hdr_ttl := t\<rparr>) r"

lemma hdr_set_ttl [simp]: "hdr (set_ttl t r) = (hdr r)\<lparr>hdr_ttl := t\<rparr>"
  by (simp add: set_ttl_def)

lemma set_ttl_twice [simp]: "set_ttl t (set_ttl t' r) = set_ttl t r"
  by (simp add: set_ttl_def)

lemma set_ttl_same [simp]: "hdr_ttl (hdr r) = t \<Longrightarrow> set_ttl t r = r"
  by (cases r) (auto simp: set_ttl_def)

record question =
  q_name :: string
  q_type :: u16
  q_class :: u16

record dns_msg =
  msg_id :: u16
  msg_response :: bool
  msg_opcode :: nat
  msg_recursion_desired :: bool
  msg_authenticated_data :: bool
  msg_checking_disabled :: bool
  msg_rcode :: nat
  msg_question :: "question list"
  msg_answer :: "rr list"
  msg_ns :: "rr list"
  msg_extra :: "rr list"

definition new_msg :: dns_msg where
  "new_msg = \<lparr>msg_id = 0, msg_response = False, msg_opcode = 0, msg_recursion_desired = False,
     msg_authenticated_data = False, msg_checking_disabled = False, msg_rcode = 0,
     msg_question = [], msg_answer = [], msg_ns = [], msg_extra = []\<rparr>"

text \<open>The registered numbers the program names.\<close>

definition type_A :: u16 where "type_A = 1"
definition type_AAAA :: u16 where "type_AAAA = 28"
definition type_OPT :: u16 where "type_OPT = 41"
definition class_INET :: u16 where "class_INET = 1"
definition rcode_format_error :: nat where "rcode_format_error = 1"
definition rcode_server_failure :: nat where "rcode_server_failure = 2"
definition rcode_refused :: nat where "rcode_refused = 5"

lemmas dns_consts = type_A_def type_AAAA_def type_OPT_def class_INET_def
  rcode_format_error_def rcode_server_failure_def rcode_refused_def

subsection \<open>The operations of the DNS library\<close>

record dns_lib =
  lib_set_reply :: "dns_msg \<Rightarrow> dns_msg \<Rightarrow> dns_msg"
  lib_set_rcode :: "dns_msg \<Rightarrow> dns_msg \<Rightarrow> nat \<Rightarrow> dns_msg"
  lib_is_edns0 :: "dns_msg \<Rightarrow> rr option"
  lib_opt_do :: "rr \<Rightarrow> bool"
  lib_set_udp_size :: "rr_header \<Rightarrow> nat \<Rightarrow> rr_header"
  lib_fqdn :: "string \<Rightarrow> string"
  lib_new_rr :: "string \<Rightarrow> rr option"
  lib_string_to_type :: "string \<Rightarrow> u16 option"

text \<open>
  Documented behaviour. \<open>SetReply\<close> turns a message into the reply to a request: it sets the
  header (with the response code of success) and takes over the question, the record
  sections stay. \<open>SetRcode\<close> does the same
  and sets the response code. \<open>Fqdn\<close> appends the root dot to a name that does not have it
  (a final dot counts unless a backslash escapes it).
  \<open>IsEdns0\<close> returns an OPT record of the additional section.
\<close>

definition set_reply_law :: "dns_lib \<Rightarrow> bool" where
  "set_reply_law L \<longleftrightarrow>
     (\<forall>m r. msg_answer (lib_set_reply L m r) = msg_answer m \<and>
            msg_ns (lib_set_reply L m r) = msg_ns m \<and>
            msg_extra (lib_set_reply L m r) = msg_extra m \<and>
            msg_id (lib_set_reply L m r) = msg_id r \<and>
            msg_rcode (lib_set_reply L m r) = 0 \<and>
            msg_question (lib_set_reply L m r) = take 1 (msg_question r))"

definition set_rcode_law :: "dns_lib \<Rightarrow> bool" where
  "set_rcode_law L \<longleftrightarrow>
     (\<forall>m r c. msg_rcode (lib_set_rcode L m r c) = c \<and>
            msg_answer (lib_set_rcode L m r c) = msg_answer m \<and>
            msg_id (lib_set_rcode L m r c) = msg_id r)"

definition fqdn_law :: "dns_lib \<Rightarrow> bool" where
  "fqdn_law L \<longleftrightarrow>
     (\<forall>s. lib_fqdn L s \<in> {s, s @ ''.''} \<and> suffix ''.'' (lib_fqdn L s) \<and>
          lib_fqdn L (lib_fqdn L s) = lib_fqdn L s \<and>
          (CHR 0x5C \<notin> set s \<and> suffix ''.'' s \<longrightarrow> lib_fqdn L s = s))"

definition is_edns0_law :: "dns_lib \<Rightarrow> bool" where
  "is_edns0_law L \<longleftrightarrow>
     (\<forall>m r. lib_is_edns0 L m = Some r \<longrightarrow> r \<in> set (msg_extra m) \<and> hdr_rrtype (hdr r) = type_OPT)"

text \<open>Messages as bytes.\<close>

record wire_lib =
  wl_unpack :: "string \<Rightarrow> dns_msg option"
  wl_pack :: "dns_msg \<Rightarrow> string option"

subsection \<open>An instance\<close>

text \<open>
  A concrete instance of the library's operations with the documented behaviour; it shows
  that the laws can hold together, and concrete inputs are evaluated with it.
\<close>

fun find_opt_rr :: "rr list \<Rightarrow> rr option" where
  "find_opt_rr [] = None"
| "find_opt_rr (r # rs) = (if hdr_rrtype (hdr r) = type_OPT then Some r else find_opt_rr rs)"

definition plain_lib :: dns_lib where
  "plain_lib =
     \<lparr>lib_set_reply = (\<lambda>m r. m\<lparr>msg_id := msg_id r, msg_response := True, msg_rcode := 0,
        msg_question := take 1 (msg_question r)\<rparr>),
      lib_set_rcode = (\<lambda>m r c. m\<lparr>msg_id := msg_id r, msg_response := True, msg_rcode := c,
        msg_question := take 1 (msg_question r)\<rparr>),
      lib_is_edns0 = (\<lambda>m. find_opt_rr (msg_extra m)),
      lib_opt_do = (\<lambda>r. bit (hdr_ttl (hdr r)) 15),
      lib_set_udp_size = (\<lambda>h n. h\<lparr>hdr_class := of_nat n\<rparr>),
      lib_fqdn = (\<lambda>s. if suffix ''.'' s then s else s @ ''.''),
      lib_new_rr = (\<lambda>s. None),
      lib_string_to_type = (\<lambda>s. if s = ''A'' then Some type_A else if s = ''AAAA'' then Some type_AAAA else None)\<rparr>"

lemma find_opt_rr: "find_opt_rr rs = Some r \<Longrightarrow> r \<in> set rs \<and> hdr_rrtype (hdr r) = type_OPT"
  by (induction rs) (auto split: if_splits)

lemma plain_lib_laws:
  "set_reply_law plain_lib" "set_rcode_law plain_lib" "fqdn_law plain_lib" "is_edns0_law plain_lib"
  by (simp_all add: plain_lib_def set_reply_law_def set_rcode_law_def fqdn_law_def is_edns0_law_def
      suffix_def find_opt_rr)

end
