(* ===== verification/Utils_Dns.thy ===== *)
theory Utils_Dns
  imports Dns_Types
begin

section \<open>Message helpers (\<open>utils/dns.go\<close>)\<close>

text \<open>
  Parsing and printing the EDNS client subnet, adding a default one, removing cookies and
  address records, and the smallest TTL of a message. Functions that mutate a message
  return the new one; a nil message is \<open>None\<close>.
\<close>

subsection \<open>Client subnets\<close>

datatype utils_error = Bad_Cidr string | Wrong_Ip_Address string

definition parse_ecs :: "string \<Rightarrow> utils_error + ecs option" where
  "parse_ecs s =
     (if s = [] then Inr None
      else
        case
          (if str_contains s ''/'' then
             (case parse_cidr s of
                None \<Rightarrow> Inl (Bad_Cidr s)
              | Some (ip_addr, net) \<Rightarrow> Inr (ip_addr, of_nat (net_ones net) :: u8))
           else
             (case parse_ip s of
                None \<Rightarrow> Inl (Wrong_Ip_Address s)
              | Some addr \<Rightarrow>
                  if to4 addr \<noteq> None then Inr (addr, 32)
                  else if to16 addr \<noteq> None then Inr (addr, 128)
                  else Inl (Wrong_Ip_Address s))) of
          Inl e \<Rightarrow> Inl e
        | Inr (addr, ones) \<Rightarrow>
            Inr (Some \<lparr>ecs_family = (if to4 addr \<noteq> None then 1 else 2),
                       ecs_netmask = ones, ecs_address = addr\<rparr>))"

definition ecs_string :: "ecs \<Rightarrow> string" where
  "ecs_string e = ip_string (ecs_address e) @ ''/'' @ dec_nat (unat (ecs_netmask e))"

fun first_subnet :: "edns0 list \<Rightarrow> ecs option" where
  "first_subnet [] = None"
| "first_subnet (EDNS0_SUBNET e # os) = Some e"
| "first_subnet (_ # os) = first_subnet os"

fun format_extras :: "rr list \<Rightarrow> string" where
  "format_extras [] = []"
| "format_extras (RR_OPT h os # rest) =
     (case first_subnet os of Some e \<Rightarrow> ecs_string e | None \<Rightarrow> format_extras rest)"
| "format_extras (_ # rest) = format_extras rest"

definition format_ecs :: "dns_msg option \<Rightarrow> string" where
  "format_ecs r = (case r of None \<Rightarrow> [] | Some m \<Rightarrow> format_extras (msg_extra m))"

text \<open>
  The loop of \<open>SetDefaultECS\<close>: \<open>None\<close> when it returns early because a subnet is there, else
  the index of the first OPT record, -1 when there is none.
\<close>

fun find_opt :: "rr list \<Rightarrow> int \<Rightarrow> int \<Rightarrow> int option" where
  "find_opt [] index first = Some first"
| "find_opt (RR_OPT h os # rest) index first =
     (let first' = (if first < 0 then index else first)
      in if first_subnet os \<noteq> None then None else find_opt rest (index + 1) first')"
| "find_opt (_ # rest) index first = find_opt rest (index + 1) first"

fun cons_option :: "edns0 \<Rightarrow> rr \<Rightarrow> rr" where
  "cons_option o1 (RR_OPT h os) = RR_OPT h (o1 # os)"
| "cons_option o1 r = r"

definition new_opt :: "dns_lib \<Rightarrow> ecs \<Rightarrow> rr" where
  "new_opt L e =
     RR_OPT ((lib_set_udp_size L \<lparr>hdr_name = [], hdr_rrtype = 0, hdr_class = 0, hdr_ttl = 0\<rparr> 4096)
               \<lparr>hdr_name := ''.'', hdr_rrtype := type_OPT\<rparr>) [EDNS0_SUBNET e]"

definition set_default_ecs :: "dns_lib \<Rightarrow> dns_msg \<Rightarrow> ecs option \<Rightarrow> dns_msg" where
  "set_default_ecs L r ecs =
     (case ecs of
        None \<Rightarrow> r
      | Some e \<Rightarrow>
          (case find_opt (msg_extra r) 0 (-1) of
             None \<Rightarrow> r
           | Some i \<Rightarrow>
               if i < 0 then r\<lparr>msg_extra := msg_extra r @ [new_opt L e]\<rparr>
               else r\<lparr>msg_extra := (msg_extra r)[nat i := cons_option (EDNS0_SUBNET e) (msg_extra r ! nat i)]\<rparr>))"

subsection \<open>Removing options and records\<close>

definition is_cookie :: "edns0 \<Rightarrow> bool" where
  "is_cookie x = (case x of EDNS0_COOKIE _ \<Rightarrow> True | _ \<Rightarrow> False)"

fun remove_cookies_rr :: "rr \<Rightarrow> rr" where
  "remove_cookies_rr (RR_OPT h os) = RR_OPT h (del_loop is_cookie 0 os)"
| "remove_cookies_rr r = r"

definition remove_edns_cookie :: "dns_msg \<Rightarrow> dns_msg" where
  "remove_edns_cookie m = m\<lparr>msg_extra := map remove_cookies_rr (msg_extra m)\<rparr>"

definition is_A :: "rr \<Rightarrow> bool" where
  "is_A r = (case r of RR_A _ _ \<Rightarrow> True | _ \<Rightarrow> False)"

definition is_AAAA :: "rr \<Rightarrow> bool" where
  "is_AAAA r = (case r of RR_AAAA _ _ \<Rightarrow> True | _ \<Rightarrow> False)"

definition remove_A :: "dns_msg \<Rightarrow> dns_msg" where
  "remove_A m = m\<lparr>msg_answer := del_loop is_A 0 (msg_answer m)\<rparr>"

subsection \<open>The smallest TTL\<close>

text \<open>\<open>updateMin\<close> on its captured variables: the minimum so far, and whether there is none.\<close>

definition update_min :: "u32 \<Rightarrow> u32 \<times> bool \<Rightarrow> u32 \<times> bool" where
  "update_min ttl st = (case st of (m, first) \<Rightarrow> if first \<or> ttl < m then (ttl, False) else st)"

definition get_min_ttl :: "dns_msg option \<Rightarrow> u32" where
  "get_min_ttl msg =
     (case msg of
        None \<Rightarrow> 0
      | Some m \<Rightarrow>
          let st = fold (\<lambda>r. update_min (hdr_ttl (hdr r))) (msg_answer m) (0, True);
              st = fold (\<lambda>r. update_min (hdr_ttl (hdr r))) (msg_ns m) st;
              st = fold (\<lambda>r st. if hdr_rrtype (hdr r) \<noteq> type_OPT then update_min (hdr_ttl (hdr r)) st else st)
                     (msg_extra m) st
          in fst st)"

subsection \<open>Lemmas\<close>

lemma find_opt_None: "find_opt rs i f = None \<longleftrightarrow> (\<exists>h os. RR_OPT h os \<in> set rs \<and> first_subnet os \<noteq> None)"
proof (induction rs i f rule: find_opt.induct)
  case (2 h os rest index first)
  show ?case
  proof (cases "first_subnet os = None")
    case True
    with 2 [OF refl] show ?thesis by auto
  next
    case False
    then show ?thesis by fastforce
  qed
qed auto

lemma find_opt_kept: "find_opt rs i f = Some k \<Longrightarrow> 0 \<le> f \<Longrightarrow> 0 \<le> i \<Longrightarrow> k = f"
  by (induction rs i f rule: find_opt.induct) (auto simp: Let_def split: if_splits)

text \<open>What the loop finds, when no subnet is there: the first OPT record.\<close>

lemma find_opt_Some:
  "find_opt rs (int n) (-1) = Some k \<Longrightarrow>
   k = -1 \<and> (\<forall>h os. RR_OPT h os \<notin> set rs) \<or>
   (\<exists>pre h os post. rs = pre @ RR_OPT h os # post \<and> k = int (n + length pre) \<and>
      (\<forall>h os. RR_OPT h os \<notin> set pre))"
proof (induction rs arbitrary: n)
  case Nil
  then show ?case by simp
next
  case (Cons r rs)
  show ?case
  proof (cases "\<exists>h os. r = RR_OPT h os")
    case True
    then obtain h os where r: "r = RR_OPT h os" by blast
    with Cons.prems have "find_opt rs (int n + 1) (int n) = Some k" by (simp split: if_splits)
    then have "k = int n" by (auto dest: find_opt_kept)
    with r have "r # rs = [] @ RR_OPT h os # rs \<and> k = int (n + length [])" by simp
    then show ?thesis by (metis empty_iff empty_set)
  next
    case False
    then have "find_opt (r # rs) (int n) (-1) = find_opt rs (int (Suc n)) (-1)"
      by (cases r) (auto simp: algebra_simps)
    with Cons.prems have "find_opt rs (int (Suc n)) (-1) = Some k" by simp
    from Cons.IH [OF this] show ?thesis
    proof
      assume "k = -1 \<and> (\<forall>h os. RR_OPT h os \<notin> set rs)"
      with False show ?thesis by auto
    next
      assume "\<exists>pre h os post. rs = pre @ RR_OPT h os # post \<and> k = int (Suc n + length pre) \<and>
        (\<forall>h os. RR_OPT h os \<notin> set pre)"
      then obtain pre h os post where "rs = pre @ RR_OPT h os # post" "k = int (Suc n + length pre)"
        "\<forall>h os. RR_OPT h os \<notin> set pre" by blast
      with False have "r # rs = (r # pre) @ RR_OPT h os # post \<and> k = int (n + length (r # pre)) \<and>
        (\<forall>h os. RR_OPT h os \<notin> set (r # pre))" by auto
      then show ?thesis by blast
    qed
  qed
qed

lemma format_extras_skip:
  "\<forall>h os. RR_OPT h os \<in> set rs \<longrightarrow> first_subnet os = None \<Longrightarrow>
   format_extras (rs @ rest) = format_extras rest"
proof (induction rs)
  case (Cons r rs)
  then show ?case by (cases r) auto
qed simp

lemma format_extras_none:
  "\<forall>h os. RR_OPT h os \<in> set rs \<longrightarrow> first_subnet os = None \<Longrightarrow> format_extras rs = []"
  using format_extras_skip [of rs "[]"] by simp

lemma set_default_ecs_extra:
  "set_default_ecs L r (Some e) =
     (if \<exists>h os. RR_OPT h os \<in> set (msg_extra r) \<and> first_subnet os \<noteq> None then r
      else r\<lparr>msg_extra := msg_extra (set_default_ecs L r (Some e))\<rparr>)"
  using find_opt_None [of "msg_extra r" 0 "-1"]
  by (auto simp: set_default_ecs_def split: option.splits)

text \<open>An option of the message afterwards was there before or is the default subnet.\<close>

lemma set_default_ecs_options:
  assumes "RR_OPT h os \<in> set (msg_extra (set_default_ecs L m ecs))" "x \<in> set os"
  shows "(\<exists>h os. RR_OPT h os \<in> set (msg_extra m) \<and> x \<in> set os) \<or> (\<exists>e. x = EDNS0_SUBNET e)"
proof (cases ecs)
  case None
  with assms show ?thesis by (auto simp: set_default_ecs_def)
next
  case (Some e)
  show ?thesis
  proof (cases "find_opt (msg_extra m) 0 (-1)")
    case None
    with assms Some show ?thesis by (auto simp: set_default_ecs_def)
  next
    case k: (Some k)
    then have "find_opt (msg_extra m) (int 0) (-1) = Some k" by simp
    from find_opt_Some [OF this] show ?thesis
    proof (elim disjE exE conjE)
      assume "k = -1"
      with assms Some k show ?thesis by (auto simp: set_default_ecs_def new_opt_def)
    next
      fix pre h' os' post
      assume e: "msg_extra m = pre @ RR_OPT h' os' # post" "k = int (0 + length pre)"
      with assms(1) Some k
      have "RR_OPT h os \<in> set (msg_extra m) \<or> os = EDNS0_SUBNET (the ecs) # os'"
        by (auto simp: set_default_ecs_def)
      moreover have "RR_OPT h' os' \<in> set (msg_extra m)" using e(1) by simp
      ultimately show ?thesis using assms(2) by auto
    qed
  qed
qed

text \<open>The TTLs that count.\<close>

definition ttls :: "dns_msg \<Rightarrow> u32 list" where
  "ttls m = map (hdr_ttl \<circ> hdr)
     (msg_answer m @ msg_ns m @ filter (\<lambda>r. hdr_rrtype (hdr r) \<noteq> type_OPT) (msg_extra m))"

lemma fold_if_filter: "fold (\<lambda>x s. if P x then f x s else s) xs s = fold f (filter P xs) s"
  by (induction xs arbitrary: s) auto

lemma get_min_ttl_fold: "get_min_ttl (Some m) = fst (fold update_min (ttls m) (0, True))"
  by (simp add: get_min_ttl_def ttls_def fold_if_filter fold_map comp_def Let_def)

lemma update_min_fold_False: "fst (fold update_min ts (t, False)) = Min (set (t # ts))"
proof (induction ts arbitrary: t)
  case (Cons u ts)
  have "fold update_min (u # ts) (t, False) = fold update_min ts (min u t, False)"
    by (auto simp: update_min_def min_def not_less)
  with Cons.IH [of "min u t"] show ?case
    by (cases "ts = []") (auto simp: ac_simps)
qed simp

lemma update_min_fold:
  "fst (fold update_min ts (0, True)) = (if ts = [] then 0 else Min (set ts))"
  using update_min_fold_False by (cases ts) (auto simp: update_min_def)

subsection \<open>Properties\<close>

text \<open>A default client subnet is added exactly when the message carries none: a message
  that has a subnet is returned unchanged, and otherwise the subnet the message prints
  afterwards is the default one. The other sections are untouched.\<close>

theorem set_default_ecs_spec:
  "(if \<exists>h os. RR_OPT h os \<in> set (msg_extra m) \<and> first_subnet os \<noteq> None
    then set_default_ecs L m (Some e) = m
    else format_ecs (Some (set_default_ecs L m (Some e))) = ecs_string e) \<and>
   msg_question (set_default_ecs L m (Some e)) = msg_question m \<and>
   msg_answer (set_default_ecs L m (Some e)) = msg_answer m"
proof (cases "find_opt (msg_extra m) 0 (-1)")
  case None
  then show ?thesis using find_opt_None [of "msg_extra m" 0 "-1"] by (auto simp: set_default_ecs_def)
next
  case (Some k)
  then have no: "\<nexists>h os. RR_OPT h os \<in> set (msg_extra m) \<and> first_subnet os \<noteq> None"
    using find_opt_None [of "msg_extra m" 0 "-1"] by auto
  from Some have "find_opt (msg_extra m) (int 0) (-1) = Some k" by simp
  from find_opt_Some [OF this]
  have "format_extras (msg_extra (set_default_ecs L m (Some e))) = ecs_string e"
  proof (elim disjE exE conjE)
    assume "k = -1"
    with Some no show ?thesis by (simp add: set_default_ecs_def format_extras_skip new_opt_def)
  next
    fix pre h os post
    assume x: "msg_extra m = pre @ RR_OPT h os # post" "k = int (0 + length pre)"
    then have "msg_extra (set_default_ecs L m (Some e)) = pre @ RR_OPT h (EDNS0_SUBNET e # os) # post"
      using Some by (simp add: set_default_ecs_def)
    moreover have "format_extras (pre @ RR_OPT h (EDNS0_SUBNET e # os) # post) = ecs_string e"
      using no x by (subst format_extras_skip) auto
    ultimately show ?thesis by simp
  qed
  with no show ?thesis using Some by (auto simp: format_ecs_def set_default_ecs_def)
qed

text \<open>Removing cookies deletes exactly the cookie options, of every OPT record, and keeps
  the order of the others; removing address records deletes exactly the A records.\<close>

theorem removals_filter:
  "(\<forall>h os. remove_cookies_rr (RR_OPT h os) = RR_OPT h (filter (\<lambda>x. \<not> is_cookie x) os)) \<and>
   msg_answer (remove_A m) = filter (\<lambda>r. \<not> is_A r) (msg_answer m) \<and>
   remove_edns_cookie (remove_edns_cookie m) = remove_edns_cookie m"
proof -
  have "remove_cookies_rr (remove_cookies_rr r) = remove_cookies_rr r" for r by (cases r) auto
  then show ?thesis by (simp add: remove_A_def remove_edns_cookie_def)
qed

text \<open>The smallest TTL: 0 for a missing message and for one without records; otherwise a
  lower bound of the TTL of every record that is not an OPT record of the additional
  section, reached by one of them.\<close>

theorem get_min_ttl_spec:
  "get_min_ttl None = 0 \<and>
   get_min_ttl (Some m) =
     (if ttls m = [] then 0 else Min (set (ttls m)))"
  unfolding get_min_ttl_fold update_min_fold by (simp add: get_min_ttl_def)

text \<open>What a client subnet parses to: nothing for the empty text; for an address the full
  length of its family; for a CIDR the address as written with the prefix length, the family
  decided by the address alone.\<close>

theorem parse_ecs_address:
  "parse_ecs [] = Inr None \<and>
   (\<not> str_contains s ''/'' \<and> parse_ip s = Some a \<and> length a = 16 \<longrightarrow>
      parse_ecs s = Inr (Some \<lparr>ecs_family = (if to4 a \<noteq> None then 1 else 2),
                               ecs_netmask = (if to4 a \<noteq> None then 32 else 128), ecs_address = a\<rparr>)) \<and>
   (str_contains s ''/'' \<and> parse_cidr s = Some (a, n) \<longrightarrow>
      parse_ecs s = Inr (Some \<lparr>ecs_family = (if to4 a \<noteq> None then 1 else 2),
                               ecs_netmask = of_nat (net_ones n), ecs_address = a\<rparr>))"
  by (cases "s = []") (auto simp: parse_ecs_def to16_def str_contains_def parse_ip_def)

theorem parse_ecs_address_witness:
  "parse_ecs ''192.0.2.1'' =
     Inr (Some \<lparr>ecs_family = 1, ecs_netmask = 32, ecs_address = v4_prefix @ [192, 0, 2, 1]\<rparr>)"
proof -
  have c: "\<not> str_contains ''192.0.2.1'' ''/''" by code_simp
  have p: "parse_ip ''192.0.2.1'' = Some (v4_prefix @ [192, 0, 2, 1])" by code_simp
  have l: "length (v4_prefix @ [192, 0, 2, 1]) = 16" by (simp add: v4_prefix_def)
  have t: "to4 (v4_prefix @ [192, 0, 2, 1]) \<noteq> None" by (simp add: to4_def v4_prefix_def)
  from parse_ecs_address [of "''192.0.2.1''" "v4_prefix @ [192, 0, 2, 1]"] c p l
  have "parse_ecs ''192.0.2.1'' =
    Inr (Some \<lparr>ecs_family = (if to4 (v4_prefix @ [192, 0, 2, 1]) \<noteq> None then 1 else 2),
               ecs_netmask = (if to4 (v4_prefix @ [192, 0, 2, 1]) \<noteq> None then 32 else 128),
               ecs_address = v4_prefix @ [192, 0, 2, 1]\<rparr>)" by blast
  then show ?thesis using t by (simp only: if_True simp_thms)
qed

end
