(* ===== verification/Hijack.thy ===== *)
theory Hijack
  imports Utils_Dns
begin

section \<open>Hijack rules (\<open>outbound/groups.go\<close>)\<close>

text \<open>
  A hijack rule replaces the suffix \<open>source\<close> of the name that is asked upstream by \<open>dest\<close>.
  On the response the rules are undone in reverse order, and the answer is cleaned of
  everything that names the destination.
\<close>

record hijack_rule =
  hj_source :: string
  hj_dest :: string

definition replace_domain_suffix :: "dns_lib \<Rightarrow> string \<Rightarrow> string \<Rightarrow> string \<Rightarrow> string" where
  "replace_domain_suffix L name source dest =
     (if name = [] \<or> source = [] \<or> dest = [] then name
      else
        let has_trailing_dot = suffix ''.'' name;
            n = lib_fqdn L name; s = lib_fqdn L source; d = lib_fqdn L dest;
            sfx = ''.'' @ s
        in if equal_fold n s then
             (if has_trailing_dot then d else trim_suffix d ''.'')
           else if length n \<le> length sfx \<or> \<not> equal_fold (drop (length n - length sfx) n) sfx then name
           else
             let replaced = take (length n - length s) n @ d
             in if has_trailing_dot then replaced else trim_suffix replaced ''.'')"

definition rewrite :: "dns_lib \<Rightarrow> bool \<Rightarrow> string \<Rightarrow> hijack_rule \<Rightarrow> string" where
  "rewrite L backwards name r =
     (if backwards then replace_domain_suffix L name (hj_dest r) (hj_source r)
      else replace_domain_suffix L name (hj_source r) (hj_dest r))"

definition rewrite_question :: "dns_lib \<Rightarrow> bool \<Rightarrow> hijack_rule list \<Rightarrow> question \<Rightarrow> question" where
  "rewrite_question L backwards rules q =
     q\<lparr>q_name := foldl (rewrite L backwards) (q_name q) (if backwards then rev rules else rules)\<rparr>"

fun clean_answers :: "question \<Rightarrow> rr list \<Rightarrow> rr list" where
  "clean_answers q [] = []"
| "clean_answers q (RR_A h ip # rs) =
     (if q_type q = type_A then RR_A (h\<lparr>hdr_name := q_name q\<rparr>) ip # clean_answers q rs
      else clean_answers q rs)"
| "clean_answers q (RR_AAAA h ip # rs) =
     (if q_type q = type_AAAA then RR_AAAA (h\<lparr>hdr_name := q_name q\<rparr>) ip # clean_answers q rs
      else clean_answers q rs)"
| "clean_answers q (_ # rs) = clean_answers q rs"

definition clean_hijack_answer :: "dns_lib \<Rightarrow> dns_msg \<Rightarrow> dns_msg" where
  "clean_hijack_answer L msg =
     (case msg_question msg of
        [q] \<Rightarrow>
          if q_type q \<noteq> type_A \<and> q_type q \<noteq> type_AAAA then msg
          else if (case lib_is_edns0 L msg of None \<Rightarrow> False | Some opt \<Rightarrow> lib_opt_do L opt) then msg
          else
            let cleaned = clean_answers q (msg_answer msg);
                extra = (case lib_is_edns0 L msg of None \<Rightarrow> [] | Some opt \<Rightarrow> [opt])
            in msg\<lparr>msg_answer := cleaned, msg_ns := [], msg_extra := extra\<rparr>
      | _ \<Rightarrow> msg)"

definition process_hijack_rules :: "dns_lib \<Rightarrow> hijack_rule list \<Rightarrow> bool \<Rightarrow> dns_msg \<Rightarrow> dns_msg" where
  "process_hijack_rules L rules backwards msg =
     (if rules = [] then msg
      else
        let msg' = msg\<lparr>msg_question := map (rewrite_question L backwards rules) (msg_question msg)\<rparr>
        in if backwards then clean_hijack_answer L msg' else msg')"

subsection \<open>Names\<close>

text \<open>
  A fully qualified name without escapes, and what it means for such a name to lie under a
  domain: to be the domain, or to end in a dot and the domain, up to case.
\<close>

definition plain_fqdn :: "string \<Rightarrow> bool" where
  "plain_fqdn s \<longleftrightarrow> suffix ''.'' s \<and> CHR 0x5C \<notin> set s"

definition under :: "string \<Rightarrow> string \<Rightarrow> bool" where
  "under name zone \<longleftrightarrow>
     equal_fold name zone \<or>
     (\<exists>p. p \<noteq> [] \<and> to_lower name = p @ ''.'' @ to_lower zone)"

definition stem :: "string \<Rightarrow> string \<Rightarrow> string" where
  "stem name zone = take (length name - length zone) name"

lemma plain_fqdn_id: "fqdn_law L \<Longrightarrow> plain_fqdn s \<Longrightarrow> lib_fqdn L s = s"
  unfolding fqdn_law_def plain_fqdn_def by blast

lemma plain_fqdn_not_Nil: "plain_fqdn s \<Longrightarrow> s \<noteq> []"
  by (auto simp: plain_fqdn_def suffix_def)

lemma under_fold: "equal_fold a b \<Longrightarrow> under a d \<longleftrightarrow> under b d"
  by (simp add: under_def equal_fold_def)

lemma equal_fold_trans: "equal_fold a b \<Longrightarrow> equal_fold b c \<Longrightarrow> equal_fold a c"
  by (simp add: equal_fold_def)

lemma equal_fold_sym: "equal_fold a b \<Longrightarrow> equal_fold b a"
  by (simp add: equal_fold_def)

lemma equal_fold_append: "equal_fold a b \<Longrightarrow> equal_fold c d \<Longrightarrow> equal_fold (a @ c) (b @ d)"
  by (simp add: equal_fold_def)

lemma under_suffix_iff:
  "under name zone \<longleftrightarrow> equal_fold name zone \<or>
     \<not> (length name \<le> length (''.'' @ zone) \<or>
        \<not> equal_fold (drop (length name - length (''.'' @ zone)) name) (''.'' @ zone))"
proof -
  let ?s = "''.'' @ zone"
  have "(\<exists>p. p \<noteq> [] \<and> to_lower name = p @ ''.'' @ to_lower zone) \<longleftrightarrow>
    length ?s < length name \<and> to_lower (drop (length name - length ?s) name) = to_lower ?s" (is "?l \<longleftrightarrow> ?r")
  proof
    assume ?l
    then obtain p where p: "p \<noteq> []" "to_lower name = p @ to_lower ?s"
      by (auto simp: to_lower_Cons to_lower_char_def)
    then have "length (to_lower name) = length p + length ?s" by simp
    then have len: "length name = length p + length ?s" by simp
    then show ?r using p by (simp add: to_lower_drop)
  next
    assume r: ?r
    then have "to_lower name = to_lower (take (length name - length ?s) name) @ to_lower ?s"
      by (metis append_take_drop_id to_lower_append)
    moreover have "to_lower (take (length name - length ?s) name) \<noteq> []" using r by auto
    ultimately show ?l by (auto simp: to_lower_Cons to_lower_char_def intro!: exI)
  qed
  then show ?thesis unfolding under_def by (auto simp: equal_fold_def)
qed

text \<open>The routine on such names.\<close>

lemma replace_domain_suffix_plain:
  assumes "fqdn_law L" "plain_fqdn n" "plain_fqdn s" "plain_fqdn d"
  shows "replace_domain_suffix L n s d = (if under n s then stem n s @ d else n)"
proof -
  have "stem n s = []" if "equal_fold n s" using equal_fold_length [OF that] by (simp add: stem_def)
  then show ?thesis
    using assms plain_fqdn_not_Nil [of n] plain_fqdn_not_Nil [of s] plain_fqdn_not_Nil [of d]
    unfolding under_suffix_iff
    by (simp add: replace_domain_suffix_def plain_fqdn_id Let_def stem_def) (simp add: plain_fqdn_def)
qed

subsection \<open>Undoing one rule\<close>

lemma to_lower_stem: "to_lower (stem n s) = take (length n - length s) (to_lower n)"
  by (simp add: stem_def to_lower_take)

lemma under_stem:
  assumes "under n s"
  shows "to_lower n = to_lower (stem n s @ s)"
  using assms unfolding under_def
proof
  assume "equal_fold n s"
  then show ?thesis using equal_fold_length [of n s] by (simp add: stem_def equal_fold_def)
next
  assume "\<exists>p. p \<noteq> [] \<and> to_lower n = p @ ''.'' @ to_lower s"
  then obtain p where p: "to_lower n = p @ ''.'' @ to_lower s" by blast
  then have "length (to_lower n) = length p + 1 + length s" by simp
  then have "length n - length s = length p + 1" by simp
  then show ?thesis using p by (simp add: to_lower_stem)
qed

lemma stem_cases:
  assumes "under n s"
  shows "stem n s = [] \<or> (\<exists>q. q \<noteq> [] \<and> to_lower (stem n s) = q @ ''.'')"
  using assms unfolding under_def
proof
  assume "equal_fold n s"
  then show ?thesis using equal_fold_length [of n s] by (simp add: stem_def)
next
  assume "\<exists>p. p \<noteq> [] \<and> to_lower n = p @ ''.'' @ to_lower s"
  then obtain p where p: "p \<noteq> []" "to_lower n = p @ ''.'' @ to_lower s" by blast
  then have "length (to_lower n) = length p + 1 + length s" by simp
  then have "length n - length s = length p + 1" by simp
  then have "to_lower (stem n s) = p @ ''.''" using p(2) by (simp add: to_lower_stem)
  with p(1) show ?thesis by blast
qed

lemma under_replaced:
  assumes "under n s"
  shows "under (stem n s @ d) d" and "stem (stem n s @ d) d = stem n s"
proof -
  from stem_cases [OF assms] show "under (stem n s @ d) d"
    by (auto simp: under_def equal_fold_def)
  show "stem (stem n s @ d) d = stem n s" unfolding stem_def [of "stem n s @ d"] by simp
qed

lemma stem_fold: "equal_fold a b \<Longrightarrow> equal_fold (stem a s) (stem b s)"
  using equal_fold_length [of a b] by (simp add: equal_fold_def to_lower_stem)

lemma plain_fqdn_replaced: "plain_fqdn n \<Longrightarrow> plain_fqdn d \<Longrightarrow> plain_fqdn (stem n s @ d)"
  by (auto simp: plain_fqdn_def stem_def suffix_def dest: in_set_takeD)

definition plain_rule :: "hijack_rule \<Rightarrow> bool" where
  "plain_rule r \<longleftrightarrow> plain_fqdn (hj_source r) \<and> plain_fqdn (hj_dest r)"

lemma rewrite_plain:
  assumes "fqdn_law L" "plain_fqdn n" "plain_rule r"
  shows "plain_fqdn (rewrite L b n r)"
    and "rewrite L False n r = (if under n (hj_source r) then stem n (hj_source r) @ hj_dest r else n)"
    and "rewrite L True n r = (if under n (hj_dest r) then stem n (hj_dest r) @ hj_source r else n)"
  using assms plain_fqdn_replaced [OF assms(2)]
  by (auto simp: rewrite_def replace_domain_suffix_plain plain_rule_def)

lemma rewrite_fold:
  assumes "fqdn_law L" "plain_fqdn n" "plain_fqdn m" "plain_rule r" "equal_fold n m"
  shows "equal_fold (rewrite L b n r) (rewrite L b m r)"
  using assms(5) rewrite_plain [OF assms(1,2,4)] rewrite_plain [OF assms(1,3,4)] under_fold [OF assms(5)]
    stem_fold [OF assms(5)]
  by (cases b) (auto intro: equal_fold_append)

text \<open>
  When one rule is undone: unless the name already lay under the rule's destination and not
  under its source.
\<close>

definition undoes :: "string \<Rightarrow> hijack_rule \<Rightarrow> bool" where
  "undoes n r \<longleftrightarrow> under n (hj_source r) \<or> \<not> under n (hj_dest r)"

lemma rewrite_undo:
  assumes "fqdn_law L" "plain_fqdn n" "plain_rule r" "undoes n r"
  shows "equal_fold (rewrite L True (rewrite L False n r) r) n"
proof (cases "under n (hj_source r)")
  case True
  let ?m = "stem n (hj_source r) @ hj_dest r"
  have "rewrite L False n r = ?m" using True rewrite_plain(2) [OF assms(1-3)] by simp
  moreover have "rewrite L True ?m r = stem n (hj_source r) @ hj_source r"
    using rewrite_plain(3) [OF assms(1) _ assms(3), of ?m] under_replaced [OF True, of "hj_dest r"]
      plain_fqdn_replaced [OF assms(2)] assms(3) by (simp add: plain_rule_def)
  ultimately show ?thesis using under_stem [OF True] by (simp add: equal_fold_def)
next
  case False
  with assms show ?thesis using rewrite_plain(2,3) [OF assms(1-3)] by (simp add: undoes_def)
qed

text \<open>The same along a list of rules: each one against the name as it is when the rule is met.\<close>

fun all_undo :: "dns_lib \<Rightarrow> hijack_rule list \<Rightarrow> string \<Rightarrow> bool" where
  "all_undo L [] n = True"
| "all_undo L (r # rs) n = (undoes n r \<and> all_undo L rs (rewrite L False n r))"

lemma foldl_plain:
  assumes "fqdn_law L" "list_all plain_rule rs" "plain_fqdn n"
  shows "plain_fqdn (foldl (rewrite L b) n rs)"
  using assms(2,3) by (induction rs arbitrary: n) (auto simp: rewrite_plain(1) [OF assms(1)])

lemma rewrites_undo:
  assumes "fqdn_law L" "list_all plain_rule rs" "plain_fqdn n" "all_undo L rs n"
  shows "equal_fold (foldl (rewrite L True) (foldl (rewrite L False) n rs) (rev rs)) n"
  using assms(2-4)
proof (induction rs arbitrary: n)
  case (Cons r rs)
  let ?m = "rewrite L False n r"
  have m: "plain_fqdn ?m" using rewrite_plain(1) [OF assms(1)] Cons.prems by simp
  with Cons have "equal_fold (foldl (rewrite L True) (foldl (rewrite L False) ?m rs) (rev rs)) ?m" by simp
  moreover have "plain_fqdn (foldl (rewrite L True) (foldl (rewrite L False) ?m rs) (rev rs))"
    using foldl_plain [OF assms(1)] m Cons.prems(1) by simp
  ultimately have "equal_fold (rewrite L True (foldl (rewrite L True) (foldl (rewrite L False) ?m rs) (rev rs)) r)
      (rewrite L True ?m r)"
    by (intro rewrite_fold [OF assms(1)]) (use m Cons.prems(1) in simp_all)
  moreover have "equal_fold (rewrite L True ?m r) n"
    by (rule rewrite_undo [OF assms(1)]) (use Cons.prems in simp_all)
  ultimately show ?case by (simp add: equal_fold_def)
qed simp

subsection \<open>Cleaning\<close>

lemma clean_answers_eq:
  "clean_answers q rs =
     map (\<lambda>r. set_hdr ((hdr r)\<lparr>hdr_name := q_name q\<rparr>) r)
       (filter (\<lambda>r. is_A r \<and> q_type q = type_A \<or> is_AAAA r \<and> q_type q = type_AAAA) rs)"
  by (induction q rs rule: clean_answers.induct) (simp_all add: is_A_def is_AAAA_def)

subsection \<open>Properties\<close>

text \<open>A name is rewritten only on label boundaries: it changes exactly when it is the
  source domain or ends in a dot and the source domain, ignoring case, and then the part in
  front is kept as it is and the source is replaced by the destination.\<close>

theorem replace_suffix_spec:
  assumes "fqdn_law L" "plain_fqdn n" "plain_fqdn s" "plain_fqdn d"
  shows "(under n s \<longrightarrow> (\<exists>p s'. n = p @ s' \<and> equal_fold s' s \<and> (p = [] \<or> suffix ''.'' p) \<and>
      replace_domain_suffix L n s d = p @ d)) \<and>
    (\<not> under n s \<longrightarrow> replace_domain_suffix L n s d = n)"
proof (cases "under n s")
  case True
  let ?p = "stem n s" and ?t = "drop (length n - length s) n"
  have n: "n = ?p @ ?t" by (simp add: stem_def)
  have "to_lower ?p @ to_lower ?t = to_lower ?p @ to_lower s"
    using under_stem [OF True] n by (metis to_lower_append)
  then have "equal_fold ?t s" by (simp add: equal_fold_def)
  moreover have "?p = [] \<or> suffix ''.'' ?p"
  proof (cases "?p = []")
    case False
    with stem_cases [OF True] obtain q where "to_lower ?p = q @ ''.''" by blast
    with False have "to_lower_char (last ?p) = CHR ''.''"
      by (metis last_map last_snoc to_lower_def)
    with False show ?thesis by (metis append_butlast_last_id suffix_def to_lower_char_dot_iff)
  qed simp
  moreover have "replace_domain_suffix L n s d = ?p @ d"
    using True assms by (simp add: replace_domain_suffix_plain)
  ultimately show ?thesis using True n by blast
qed (use assms in \<open>simp add: replace_domain_suffix_plain\<close>)

theorem replace_suffix_spec_witness:
  "(\<exists>p s'. ''wWw.a.test.'' = p @ s' \<and> equal_fold s' ''a.test.'' \<and>
     replace_domain_suffix plain_lib ''wWw.a.test.'' ''a.test.'' ''b.test.'' = p @ ''b.test.'') \<and>
   replace_domain_suffix plain_lib ''wwwa.test.'' ''a.test.'' ''b.test.'' = ''wwwa.test.''"
proof -
  have p: "plain_fqdn ''wWw.a.test.''" "plain_fqdn ''wwwa.test.''" "plain_fqdn ''a.test.''" "plain_fqdn ''b.test.''"
    by (simp_all add: plain_fqdn_def suffix_def)
  have u: "under ''wWw.a.test.'' ''a.test.''" "\<not> under ''wwwa.test.'' ''a.test.''"
    unfolding under_suffix_iff by code_simp+
  show ?thesis
    using replace_suffix_spec [OF plain_lib_laws(3) p(1,3,4)] replace_suffix_spec [OF plain_lib_laws(3) p(2,3,4)] u
    by blast
qed



text \<open>The response to a query for the destination of a rule itself comes back with another
  question: it is not rewritten on the way out, but it is on the way back, to the rule's
  source. So when two rules share a destination, a query that the first one rewrites comes
  back with the source of the second.\<close>

theorem hijack_shared_destination:
  assumes "fqdn_law L" "plain_fqdn a" "plain_fqdn b" "plain_fqdn d"
    and "\<not> under d a" "\<not> under d b" "\<not> under b d" "\<not> under a b"
  shows "q_name (rewrite_question L True [\<lparr>hj_source = a, hj_dest = d\<rparr>]
      (rewrite_question L False [\<lparr>hj_source = a, hj_dest = d\<rparr>] (q\<lparr>q_name := d\<rparr>))) = a \<and>
    q_name (rewrite_question L True [\<lparr>hj_source = a, hj_dest = d\<rparr>, \<lparr>hj_source = b, hj_dest = d\<rparr>]
      (rewrite_question L False [\<lparr>hj_source = a, hj_dest = d\<rparr>, \<lparr>hj_source = b, hj_dest = d\<rparr>] (q\<lparr>q_name := a\<rparr>))) = b"
proof -
  have u: "under x x" "stem x x = []" for x by (simp_all add: under_def stem_def)
  show ?thesis
    using assms by (simp add: rewrite_question_def rewrite_def replace_domain_suffix_plain u)
qed

theorem hijack_shared_destination_witness:
  "q_name (rewrite_question plain_lib True
       [\<lparr>hj_source = ''a.test.'', hj_dest = ''safe.example.''\<rparr>, \<lparr>hj_source = ''b.test.'', hj_dest = ''safe.example.''\<rparr>]
     (rewrite_question plain_lib False
       [\<lparr>hj_source = ''a.test.'', hj_dest = ''safe.example.''\<rparr>, \<lparr>hj_source = ''b.test.'', hj_dest = ''safe.example.''\<rparr>]
       \<lparr>q_name = ''a.test.'', q_type = 1, q_class = 1\<rparr>)) = ''b.test.''"
proof -
  have p: "plain_fqdn ''a.test.''" "plain_fqdn ''b.test.''" "plain_fqdn ''safe.example.''"
    by (simp_all add: plain_fqdn_def suffix_def)
  have u: "\<not> under ''safe.example.'' ''a.test.''" "\<not> under ''safe.example.'' ''b.test.''"
    "\<not> under ''b.test.'' ''safe.example.''" "\<not> under ''a.test.'' ''b.test.''"
    unfolding under_suffix_iff by code_simp+
  from hijack_shared_destination [OF plain_lib_laws(3) p u, of "\<lparr>q_name = ''a.test.'', q_type = 1, q_class = 1\<rparr>"]
  show ?thesis by simp
qed

text \<open>C33: The answer to a hijacked address query never names the destination: with the DNSSEC
  flag off, the answer section holds exactly the address records of the asked type, in
  their order and with their data and TTLs, owned by the name of the question; the
  authority section is empty and nothing but the OPT record is left in the additional one.\<close>

theorem hijack_answer_clean:
  assumes "rules \<noteq> []" "msg_question m = [q]" "q_type q = type_A \<or> q_type q = type_AAAA"
    and "\<And>opt. lib_is_edns0 L (m\<lparr>msg_question := [rewrite_question L True rules q]\<rparr>) = Some opt \<Longrightarrow> \<not> lib_opt_do L opt"
  defines "m' \<equiv> process_hijack_rules L rules True m"
  shows "msg_question m' = [rewrite_question L True rules q] \<and>
    msg_answer m' = map (\<lambda>r. set_hdr ((hdr r)\<lparr>hdr_name := q_name (hd (msg_question m'))\<rparr>) r)
      (filter (\<lambda>r. if q_type q = type_A then is_A r else is_AAAA r) (msg_answer m)) \<and>
    msg_ns m' = [] \<and>
    (\<forall>r \<in> set (msg_extra m'). lib_is_edns0 L (m\<lparr>msg_question := [rewrite_question L True rules q]\<rparr>) = Some r)"
proof -
  let ?q = "rewrite_question L True rules q"
  have t: "q_type ?q = q_type q" by (simp add: rewrite_question_def)
  have m': "m' = clean_hijack_answer L (m\<lparr>msg_question := [?q]\<rparr>)"
    using assms(1,2) by (simp add: m'_def process_hijack_rules_def)
  have f: "(is_A r \<and> q_type q = type_A \<or> is_AAAA r \<and> q_type q = type_AAAA) \<longleftrightarrow>
      (if q_type q = type_A then is_A r else is_AAAA r)" for r
    using assms(3) by (auto simp: type_A_def type_AAAA_def)
  show ?thesis
    using assms(3,4) unfolding m'
    by (auto simp: clean_hijack_answer_def Let_def clean_answers_eq t f split: option.splits)
qed

theorem hijack_answer_clean_witness:
  "msg_answer (process_hijack_rules plain_lib [\<lparr>hj_source = ''a.test.'', hj_dest = ''b.test.''\<rparr>] True
     (new_msg\<lparr>msg_question := [\<lparr>q_name = ''b.test.'', q_type = 1, q_class = 1\<rparr>],
        msg_answer := [RR_CNAME \<lparr>hdr_name = ''b.test.'', hdr_rrtype = 5, hdr_class = 1, hdr_ttl = 9\<rparr> ''c.test.'',
                       RR_A \<lparr>hdr_name = ''c.test.'', hdr_rrtype = 1, hdr_class = 1, hdr_ttl = 9\<rparr> [192, 0, 2, 1]]\<rparr>)) =
   [RR_A \<lparr>hdr_name = ''a.test.'', hdr_rrtype = 1, hdr_class = 1, hdr_ttl = 9\<rparr> [192, 0, 2, 1]]"
proof -
  let ?rs = "[\<lparr>hj_source = ''a.test.'', hj_dest = ''b.test.''\<rparr>]"
  let ?q = "\<lparr>q_name = ''b.test.'', q_type = 1, q_class = 1\<rparr>"
  let ?m = "new_msg\<lparr>msg_question := [?q],
        msg_answer := [RR_CNAME \<lparr>hdr_name = ''b.test.'', hdr_rrtype = 5, hdr_class = 1, hdr_ttl = 9\<rparr> ''c.test.'',
                       RR_A \<lparr>hdr_name = ''c.test.'', hdr_rrtype = 1, hdr_class = 1, hdr_ttl = 9\<rparr> [192, 0, 2, 1]]\<rparr>"
  have e: "lib_is_edns0 plain_lib (?m\<lparr>msg_question := [rewrite_question plain_lib True ?rs ?q]\<rparr>) = None"
    by (simp add: plain_lib_def new_msg_def)
  have n: "q_name (rewrite_question plain_lib True ?rs ?q) = ''a.test.''" by code_simp
  have "msg_question ?m = [?q]" by simp
  from hijack_answer_clean [of ?rs ?m ?q plain_lib, OF _ this] e n show ?thesis
    by (simp add: type_A_def is_A_def)
qed

end
