(* ===== verification/Callers.thy ===== *)
theory Callers
  imports Dns_Types
begin

section \<open>Upstream callers (\<open>outbound/caller.go\<close>)\<close>

text \<open>
  The callers a group asks: plain DNS and DNS over TLS (one Go type), and DNS over HTTPS,
  which resolves the name of its server through the program itself. A proxy is the text it
  was configured with; an HTTP client is the host it dials. Sending a request is the
  network's and stays outside; so does \<open>url.Parse\<close>, whose result is an argument.
\<close>

subsection \<open>Callers and their constructors\<close>

record dns_caller =
  dc_server :: string
  dc_net :: string
  dc_server_name :: "string option"
  dc_proxy :: "string option"

record doh_caller =
  dh_host :: string
  dh_port :: string
  dh_url :: string
  dh_clients :: "string list"
  dh_dialer :: "string option"

datatype caller = DNSCaller dns_caller | DoHCallerV2 doh_caller

definition new_dns_caller :: "string \<Rightarrow> string \<Rightarrow> string option \<Rightarrow> dns_caller" where
  "new_dns_caller server network proxy =
     \<lparr>dc_server = server, dc_net = network, dc_server_name = None, dc_proxy = proxy\<rparr>"

definition new_dot_caller :: "string \<Rightarrow> string \<Rightarrow> string option \<Rightarrow> dns_caller" where
  "new_dot_caller server server_name proxy =
     \<lparr>dc_server = server, dc_net = ''tcp-tls'', dc_server_name = Some server_name, dc_proxy = proxy\<rparr>"

text \<open>What \<open>url.Parse\<close> finds in an address.\<close>

record parsed_url =
  pu_scheme :: string
  pu_hostname :: string
  pu_port :: string
  pu_string :: string

datatype doh_error = Bad_Url | Not_Abs | No_Host | Bad_Host string

definition new_doh_caller ::
  "(string \<Rightarrow> parsed_url option) \<Rightarrow> string \<Rightarrow> string option \<Rightarrow> doh_error + doh_caller" where
  "new_doh_caller url_parse raw_url proxy_dialer =
     (case url_parse raw_url of
        None \<Rightarrow> Inl Bad_Url
      | Some u \<Rightarrow>
          if pu_scheme u = [] then Inl Not_Abs
          else
            let host = pu_hostname u; port = pu_port u
            in if host = [] then Inl No_Host
               else if str_contains host '':'' \<and> parse_ip host = None then Inl (Bad_Host host)
               else Inr \<lparr>dh_host = host,
                         dh_port = (if port = [] then (if pu_scheme u = ''http'' then ''80'' else ''443'') else port),
                         dh_url = pu_string u,
                         dh_clients = (case parse_ip host of None \<Rightarrow> [] | Some ip \<Rightarrow> [ip_string ip]),
                         dh_dialer = proxy_dialer\<rparr>)"

definition caller_string :: "caller \<Rightarrow> string" where
  "caller_string c =
     (case c of
        DNSCaller d \<Rightarrow> ''DNSCaller<'' @ dc_server d @ ''/'' @ dc_net d @ ''>''
      | DoHCallerV2 d \<Rightarrow> ''DoHCallerV2<'' @ dh_url d @ ''>'')"

subsection \<open>Resolving the server of a DoH caller\<close>

text \<open>The addresses in an answer section, in order, of both types.\<close>

fun answer_hosts :: "rr list \<Rightarrow> string list" where
  "answer_hosts [] = []"
| "answer_hosts (RR_A h a # rs) = ip_string a # answer_hosts rs"
| "answer_hosts (RR_AAAA h a # rs) = ip_string a # answer_hosts rs"
| "answer_hosts (_ # rs) = answer_hosts rs"

text \<open>The two questions that are asked, for the type A and the type AAAA.\<close>

definition resolve_request :: "doh_caller \<Rightarrow> u16 \<Rightarrow> dns_msg" where
  "resolve_request c qtype =
     new_msg\<lparr>msg_id := 0xffff, msg_recursion_desired := True, msg_authenticated_data := True,
             msg_question := [\<lparr>q_name = dh_host c @ ''.'', q_type = qtype, q_class = class_INET\<rparr>]\<rparr>"

text \<open>
  \<open>resolve\<close>: \<open>msgs\<close> are the two results in the order they arrive, \<open>None\<close> for one that timed
  out or has no message. A request for the server's own name is not resolved: it came from
  a query this very caller is to answer.
\<close>

definition is_own_name :: "doh_caller \<Rightarrow> dns_msg option \<Rightarrow> bool" where
  "is_own_name c src_req \<longleftrightarrow>
     (case src_req of
        None \<Rightarrow> False
      | Some m \<Rightarrow> (case msg_question m of [] \<Rightarrow> False | q # _ \<Rightarrow> equal_fold (q_name q) (dh_host c @ ''.'')))"

definition doh_resolve :: "dns_msg option \<Rightarrow> dns_msg option list \<Rightarrow> doh_caller \<Rightarrow> doh_caller" where
  "doh_resolve src_req msgs c =
     (case parse_ip (dh_host c) of
        Some ip \<Rightarrow> c\<lparr>dh_clients := [ip_string ip]\<rparr>
      | None \<Rightarrow>
          if is_own_name c src_req then c
          else
            let clients = concat (map (\<lambda>m. case m of None \<Rightarrow> [] | Some r \<Rightarrow> answer_hosts (msg_answer r)) msgs)
            in if clients \<noteq> [] then c\<lparr>dh_clients := clients\<rparr> else c)"

text \<open>What the background goroutine does when a query asks for a client.\<close>

definition doh_on_require :: "dns_msg option \<Rightarrow> dns_msg option list \<Rightarrow> doh_caller \<Rightarrow> doh_caller" where
  "doh_on_require req msgs c = (if dh_clients c \<noteq> [] then c else doh_resolve req msgs c)"

definition pick_client :: "(nat \<Rightarrow> nat) \<Rightarrow> doh_caller \<Rightarrow> string option" where
  "pick_client draw c =
     (if dh_clients c = [] then None else Some (dh_clients c ! draw (length (dh_clients c))))"

text \<open>The life of a DoH caller: cycles of its ticker and demands of its queries.\<close>

inductive doh_reach :: "doh_caller \<Rightarrow> doh_caller \<Rightarrow> bool" for c0 where
  doh_init: "doh_reach c0 c0"
| doh_tick: "doh_reach c0 c \<Longrightarrow> doh_reach c0 (doh_resolve None msgs c)"
| doh_require: "doh_reach c0 c \<Longrightarrow> doh_reach c0 (doh_on_require req msgs c)"

subsection \<open>Properties\<close>

lemma doh_resolve_fixed:
  "dh_host (doh_resolve r m c) = dh_host c \<and> dh_port (doh_resolve r m c) = dh_port c \<and>
   dh_url (doh_resolve r m c) = dh_url c \<and> dh_dialer (doh_resolve r m c) = dh_dialer c"
  by (simp add: doh_resolve_def Let_def split: option.split)

lemma doh_resolve_clients: "dh_clients c \<noteq> [] \<Longrightarrow> dh_clients (doh_resolve r m c) \<noteq> []"
  by (simp add: doh_resolve_def Let_def split: option.split)

text \<open>A DoH caller never loses its server: once it has an address to dial it always has
  one, since a lookup that finds nothing keeps what was there, and the server's host, port
  and URL never change. A caller whose URL names an address has exactly that address from
  the start and never asks the program to resolve anything.\<close>

theorem doh_clients_stay:
  assumes "new_doh_caller url_parse raw proxy_dialer = Inr c0" "doh_reach c0 c"
  shows "dh_host c = dh_host c0 \<and> dh_port c = dh_port c0 \<and> dh_port c \<noteq> [] \<and> dh_url c = dh_url c0 \<and>
    (\<forall>c'. dh_clients c \<noteq> [] \<and> doh_reach c c' \<longrightarrow> dh_clients c' \<noteq> []) \<and>
    (\<forall>ip. parse_ip (dh_host c0) = Some ip \<longrightarrow> dh_clients c = [ip_string ip])"
proof -
  have port: "dh_port c0 \<noteq> []" and start: "\<And>ip. parse_ip (dh_host c0) = Some ip \<Longrightarrow> dh_clients c0 = [ip_string ip]"
    using assms(1) by (auto simp: new_doh_caller_def Let_def split: option.splits if_splits)
  have fixed: "dh_host d' = dh_host d \<and> dh_port d' = dh_port d \<and> dh_url d' = dh_url d"
    if "doh_reach d d'" for d d'
    using that by (induction rule: doh_reach.induct) (simp_all add: doh_resolve_fixed doh_on_require_def)
  have keep: "dh_clients c' \<noteq> []" if "dh_clients c \<noteq> []" "doh_reach c c'" for c'
    using that(2) by (induction rule: doh_reach.induct) (use that(1) in \<open>simp_all add: doh_resolve_clients doh_on_require_def\<close>)
  have "dh_clients c = [ip_string ip]" if ip: "parse_ip (dh_host c0) = Some ip" for ip
    using assms(2)
  proof (induction rule: doh_reach.induct)
    case doh_init
    with start ip show ?case by simp
  next
    case (doh_tick c msgs)
    with fixed ip show ?case by (simp add: doh_resolve_def)
  next
    case (doh_require c req msgs)
    then show ?case by (simp add: doh_on_require_def)
  qed
  with fixed [OF assms(2)] port keep show ?thesis by simp
qed

definition sample_url :: "string \<Rightarrow> parsed_url option" where
  "sample_url s = Some \<lparr>pu_scheme = ''https'', pu_hostname = ''192.0.2.53'', pu_port = [], pu_string = s\<rparr>"

theorem doh_clients_stay_witness:
  "\<exists>c0. new_doh_caller sample_url ''https://192.0.2.53/dns-query'' None = Inr c0 \<and>
     dh_clients (doh_resolve None [None, None] c0) = [''192.0.2.53''] \<and> dh_port c0 = ''443''"
proof -
  let ?c = "\<lparr>dh_host = ''192.0.2.53'', dh_port = ''443'', dh_url = ''https://192.0.2.53/dns-query'',
    dh_clients = [''192.0.2.53''], dh_dialer = None\<rparr>"
  have c: "new_doh_caller sample_url ''https://192.0.2.53/dns-query'' None = Inr ?c" by code_simp
  have "map_option ip_string (parse_ip ''192.0.2.53'') = Some ''192.0.2.53''" by code_simp
  then obtain ip where ip: "parse_ip (dh_host ?c) = Some ip" "ip_string ip = ''192.0.2.53''" by auto
  have "dh_clients (doh_resolve None [None, None] ?c) = [''192.0.2.53'']"
    using doh_clients_stay [OF c doh_tick [OF doh_init, of ?c "[None, None]"]] ip by simp
  with c show ?thesis by (intro exI [of _ ?c]) simp
qed

text \<open>A DoH caller does not wait for itself: a demand that comes from a query for the name of
  its own server leaves it as it is instead of resolving that name, in any case of letters.\<close>

theorem doh_no_self_resolution:
  assumes "msg_question req = q # qs" "equal_fold (q_name q) (dh_host c @ ''.'')" "parse_ip (dh_host c) = None"
  shows "doh_on_require (Some req) msgs c = c"
  using assms by (simp add: doh_on_require_def doh_resolve_def is_own_name_def)

theorem doh_no_self_resolution_witness:
  "doh_on_require (Some (new_msg\<lparr>msg_question := [\<lparr>q_name = ''DNS.test.'', q_type = 1, q_class = 1\<rparr>]\<rparr>)) []
     \<lparr>dh_host = ''dns.test'', dh_port = ''443'', dh_url = [], dh_clients = [], dh_dialer = None\<rparr> =
   \<lparr>dh_host = ''dns.test'', dh_port = ''443'', dh_url = [], dh_clients = [], dh_dialer = None\<rparr>"
proof -
  let ?c = "\<lparr>dh_host = ''dns.test'', dh_port = ''443'', dh_url = [], dh_clients = [], dh_dialer = None\<rparr>"
  have q: "msg_question (new_msg\<lparr>msg_question := [\<lparr>q_name = ''DNS.test.'', q_type = 1, q_class = 1\<rparr>]\<rparr>) =
    \<lparr>q_name = ''DNS.test.'', q_type = 1, q_class = 1\<rparr> # []" by simp
  have e: "equal_fold (q_name \<lparr>q_name = ''DNS.test.'', q_type = 1, q_class = 1\<rparr>) (dh_host ?c @ ''.'')" by code_simp
  have p: "parse_ip (dh_host ?c) = None" by code_simp
  show ?thesis by (rule doh_no_self_resolution [OF q e p])
qed

end
