(* ===== verification/Caller_Stats.thy ===== *)
theory Caller_Stats
  imports Callers
begin

section \<open>Per-host caller statistics (\<open>outbound/groups.go\<close>)\<close>

text \<open>
  A group remembers, per queried host, which upstream answered last and keeps to it for an
  hour. The state is the group's callers, the table of statistics and the time of the last
  cleanup; each operation runs under the state lock, so it is one step. Times are arguments,
  one for each call of \<open>time.Now\<close>.
\<close>

subsection \<open>State\<close>

record indexed_caller =
  ic_caller :: caller
  ic_index :: int

definition ic_name :: "indexed_caller \<Rightarrow> string" where
  "ic_name wc = caller_string (ic_caller wc)"

datatype caller_state = Caller_Idle | Caller_Active

record host_stats =
  hs_active_index :: int
  hs_state :: caller_state
  hs_seen :: bool
  hs_last_used :: time
  hs_reselect_after :: time

record caller_pool =
  cp_callers :: "indexed_caller list"
  cp_host_stats :: "string \<rightharpoonup> host_stats"
  cp_last_cleanup :: time

text \<open>The zero \<open>time.Time\<close>, the first instant of year 1.\<close>

definition zero_time :: time where "zero_time = - 62135596800 * second"

definition caller_reselect_interval :: duration where "caller_reselect_interval = hour"
definition caller_stats_ttl :: duration where "caller_stats_ttl = 24 * hour"
definition caller_stats_cleanup_interval :: duration where "caller_stats_cleanup_interval = 5 * minute"

definition fresh_stats :: host_stats where
  "fresh_stats = \<lparr>hs_active_index = -1, hs_state = Caller_Idle, hs_seen = False,
     hs_last_used = zero_time, hs_reselect_after = zero_time\<rparr>"

subsection \<open>Operations\<close>

definition cleanup_host_stats :: "time \<Rightarrow> caller_pool \<Rightarrow> caller_pool" where
  "cleanup_host_stats now p =
     (if cp_last_cleanup p \<noteq> zero_time \<and> now - cp_last_cleanup p < caller_stats_cleanup_interval then p
      else p\<lparr>cp_last_cleanup := now,
             cp_host_stats := (\<lambda>h. case cp_host_stats p h of
                None \<Rightarrow> None
              | Some e \<Rightarrow>
                  if hs_last_used e \<noteq> zero_time \<and> now - hs_last_used e > caller_stats_ttl then None
                  else Some e)\<rparr>)"

definition all_caller_candidates :: "caller_pool \<Rightarrow> indexed_caller list" where
  "all_caller_candidates p = cp_callers p"

definition candidates_for_host :: "time \<Rightarrow> string \<Rightarrow> caller_pool \<Rightarrow> indexed_caller list \<times> caller_pool" where
  "candidates_for_host now host p =
     (let p = cleanup_host_stats now p
      in case cp_host_stats p host of
           None \<Rightarrow> (all_caller_candidates p, p)
         | Some e \<Rightarrow>
             let e = e\<lparr>hs_last_used := now\<rparr>;
                 p = p\<lparr>cp_host_stats := (cp_host_stats p)(host \<mapsto> e)\<rparr>
             in if \<not> hs_seen e then (all_caller_candidates p, p)
                else if hs_state e = Caller_Active \<and> \<not> now < hs_reselect_after e then
                  (all_caller_candidates p, p)
                else if hs_state e = Caller_Active \<and> hs_active_index e \<ge> 0 \<and>
                        hs_active_index e < int (length (cp_callers p)) then
                  ([cp_callers p ! nat (hs_active_index e)], p)
                else (all_caller_candidates p, p))"

text \<open>The entry of a host, made if it is missing, with its use noted.\<close>

definition ensure_host_stats :: "time \<Rightarrow> string \<Rightarrow> caller_pool \<Rightarrow> host_stats" where
  "ensure_host_stats now host p =
     (case cp_host_stats p host of None \<Rightarrow> fresh_stats | Some e \<Rightarrow> e)\<lparr>hs_last_used := now\<rparr>"

definition index_ok :: "caller_pool \<Rightarrow> indexed_caller \<Rightarrow> bool" where
  "index_ok p wc \<longleftrightarrow> ic_index wc \<ge> 0 \<and> ic_index wc < int (length (cp_callers p))"

definition put_stats :: "string \<Rightarrow> host_stats \<Rightarrow> caller_pool \<Rightarrow> caller_pool" where
  "put_stats host e p = p\<lparr>cp_host_stats := (cp_host_stats p)(host \<mapsto> e)\<rparr>"

definition record_caller_success :: "time \<Rightarrow> time \<Rightarrow> string \<Rightarrow> indexed_caller \<Rightarrow> caller_pool \<Rightarrow> caller_pool" where
  "record_caller_success now now' host wc p =
     (if \<not> index_ok p wc then p
      else
        let e = ensure_host_stats now' host p;
            should_reset_reselect =
              \<not> hs_seen e \<or> hs_state e \<noteq> Caller_Active \<or> hs_active_index e \<noteq> ic_index wc \<or>
              \<not> now < hs_reselect_after e;
            e = e\<lparr>hs_active_index := ic_index wc, hs_state := Caller_Active, hs_seen := True\<rparr>;
            e = (if should_reset_reselect then e\<lparr>hs_reselect_after := now + caller_reselect_interval\<rparr> else e)
        in put_stats host e p)"

definition record_caller_failure :: "time \<Rightarrow> string \<Rightarrow> indexed_caller \<Rightarrow> caller_pool \<Rightarrow> caller_pool" where
  "record_caller_failure now' host wc p =
     (if \<not> index_ok p wc then p
      else
        let e = ensure_host_stats now' host p;
            e = (if \<not> hs_seen e \<or> hs_active_index e = ic_index wc
                 then e\<lparr>hs_active_index := -1, hs_state := Caller_Idle, hs_seen := True\<rparr> else e)
        in put_stats host e p)"

definition host_stats_snapshot :: "string \<Rightarrow> caller_pool \<Rightarrow> host_stats" where
  "host_stats_snapshot host p = (case cp_host_stats p host of None \<Rightarrow> fresh_stats | Some e \<Rightarrow> e)"

subsection \<open>Reachable states\<close>

text \<open>
  The pool as a state machine: any number of goroutines call the three operations, in any
  order. The clock does not run backwards: \<open>pool_reach p t\<close> says that the state \<open>p\<close> can be
  reached with every call so far at or before \<open>t\<close>.
\<close>

definition callers_ok :: "indexed_caller list \<Rightarrow> bool" where
  "callers_ok cs \<longleftrightarrow> list_all (\<lambda>i. ic_index (cs ! i) = int i) [0..<length cs]"

definition new_pool :: "indexed_caller list \<Rightarrow> caller_pool" where
  "new_pool cs = \<lparr>cp_callers = cs, cp_host_stats = Map.empty, cp_last_cleanup = zero_time\<rparr>"

inductive pool_reach :: "indexed_caller list \<Rightarrow> caller_pool \<Rightarrow> time \<Rightarrow> bool" for cs where
  reach_new: "pool_reach cs (new_pool cs) t"
| reach_later: "pool_reach cs p t \<Longrightarrow> t \<le> t' \<Longrightarrow> pool_reach cs p t'"
| reach_candidates: "pool_reach cs p t \<Longrightarrow> pool_reach cs (snd (candidates_for_host t host p)) t"
| reach_success:
    "pool_reach cs p t \<Longrightarrow> now \<le> t \<Longrightarrow> pool_reach cs (record_caller_success now t host wc p) t"
| reach_failure: "pool_reach cs p t \<Longrightarrow> pool_reach cs (record_caller_failure t host wc p) t"

inductive_cases pool_reachE: "pool_reach cs p t"

subsection \<open>The invariant\<close>

definition stats_ok :: "nat \<Rightarrow> time \<Rightarrow> host_stats \<Rightarrow> bool" where
  "stats_ok n t e \<longleftrightarrow>
     hs_seen e \<and> hs_last_used e \<le> t \<and>
     (hs_state e = Caller_Idle \<longrightarrow> hs_active_index e = -1) \<and>
     (hs_state e = Caller_Active \<longrightarrow> 0 \<le> hs_active_index e \<and> hs_active_index e < int n \<and>
        hs_reselect_after e \<le> t + caller_reselect_interval)"

definition pool_inv :: "indexed_caller list \<Rightarrow> time \<Rightarrow> caller_pool \<Rightarrow> bool" where
  "pool_inv cs t p \<longleftrightarrow> cp_callers p = cs \<and>
     (\<forall>h e. cp_host_stats p h = Some e \<longrightarrow> stats_ok (length cs) t e)"

lemma pool_inv_new: "pool_inv cs t (new_pool cs)"
  by (simp add: pool_inv_def new_pool_def)

lemma stats_ok_later: "stats_ok n t e \<Longrightarrow> t \<le> t' \<Longrightarrow> stats_ok n t' e"
  by (auto simp: stats_ok_def)

lemma stats_ok_used: "stats_ok n t e \<Longrightarrow> stats_ok n t (e\<lparr>hs_last_used := t\<rparr>)"
  by (auto simp: stats_ok_def)

lemma pool_inv_later: "pool_inv cs t p \<Longrightarrow> t \<le> t' \<Longrightarrow> pool_inv cs t' p"
  by (auto simp: pool_inv_def dest: stats_ok_later)

lemma cleanup_callers [simp]: "cp_callers (cleanup_host_stats now p) = cp_callers p"
  by (simp add: cleanup_host_stats_def)

lemma cleanup_stats:
  "cp_host_stats (cleanup_host_stats now p) h = Some e \<Longrightarrow> cp_host_stats p h = Some e"
  by (auto simp: cleanup_host_stats_def split: if_splits option.splits)

lemma pool_inv_cleanup: "pool_inv cs t p \<Longrightarrow> pool_inv cs t (cleanup_host_stats now p)"
  by (auto simp: pool_inv_def dest: cleanup_stats)

lemma candidates_callers [simp]: "cp_callers (snd (candidates_for_host now host p)) = cp_callers p"
  by (simp add: candidates_for_host_def Let_def split: option.splits)

lemma candidates_stats:
  "cp_host_stats (snd (candidates_for_host now host p)) =
     (case cp_host_stats (cleanup_host_stats now p) host of
        None \<Rightarrow> cp_host_stats (cleanup_host_stats now p)
      | Some e \<Rightarrow> (cp_host_stats (cleanup_host_stats now p))(host \<mapsto> e\<lparr>hs_last_used := now\<rparr>))"
  by (simp add: candidates_for_host_def Let_def split: option.splits)

lemma pool_inv_candidates:
  assumes "pool_inv cs t p"
  shows "pool_inv cs t (snd (candidates_for_host t host p))"
  using pool_inv_cleanup [OF assms, of t]
  by (auto simp: pool_inv_def candidates_stats intro: stats_ok_used split: option.splits if_splits)

lemma put_stats_simps [simp]:
  "cp_callers (put_stats host e p) = cp_callers p"
  "cp_host_stats (put_stats host e p) = (cp_host_stats p)(host \<mapsto> e)"
  by (simp_all add: put_stats_def)

lemma pool_inv_put: "pool_inv cs t p \<Longrightarrow> stats_ok (length cs) t e \<Longrightarrow> pool_inv cs t (put_stats host e p)"
  by (simp add: pool_inv_def)

lemma ensure_ok:
  assumes "pool_inv cs t p"
  shows "ensure_host_stats t host p = fresh_stats\<lparr>hs_last_used := t\<rparr> \<or>
    stats_ok (length cs) t (ensure_host_stats t host p)"
  using assms by (auto simp: pool_inv_def ensure_host_stats_def intro: stats_ok_used split: option.splits)

lemma pool_inv_success:
  assumes "pool_inv cs t p" "now \<le> t"
  shows "pool_inv cs t (record_caller_success now t host wc p)"
proof (cases "index_ok p wc")
  case False
  with assms show ?thesis by (simp add: record_caller_success_def)
next
  case True
  with assms(1) have i: "0 \<le> ic_index wc" "ic_index wc < int (length cs)"
    by (simp_all add: index_ok_def pool_inv_def)
  show ?thesis
    using ensure_ok [OF assms(1), of host] i assms(2) True
    by (auto simp: record_caller_success_def Let_def fresh_stats_def stats_ok_def
        intro!: pool_inv_put [OF assms(1)])
qed

lemma pool_inv_failure:
  assumes "pool_inv cs t p"
  shows "pool_inv cs t (record_caller_failure t host wc p)"
  using ensure_ok [OF assms, of host] assms
  by (auto simp: record_caller_failure_def Let_def fresh_stats_def stats_ok_def intro!: pool_inv_put)

lemma pool_reach_inv: "pool_reach cs p t \<Longrightarrow> pool_inv cs t p"
  by (induction rule: pool_reach.induct)
    (auto intro: pool_inv_new pool_inv_later pool_inv_candidates pool_inv_success pool_inv_failure)

subsection \<open>A concrete pool\<close>

definition caller0 :: indexed_caller where
  "caller0 = \<lparr>ic_caller = DNSCaller (new_dns_caller ''192.0.2.1:53'' ''udp'' None), ic_index = 0\<rparr>"
definition caller1 :: indexed_caller where
  "caller1 = \<lparr>ic_caller = DNSCaller (new_dns_caller ''192.0.2.2:53'' ''udp'' None), ic_index = 1\<rparr>"

definition sample_pool :: caller_pool where
  "sample_pool = record_caller_success (1000 * second) (1000 * second) ''a.test.'' caller1
     (new_pool [caller0, caller1])"

definition sample_stats :: host_stats where
  "sample_stats = \<lparr>hs_active_index = 1, hs_state = Caller_Active, hs_seen = True,
     hs_last_used = 1000 * second, hs_reselect_after = 4600 * second\<rparr>"

lemma sample_reach: "pool_reach [caller0, caller1] sample_pool (1000 * second)"
  unfolding sample_pool_def by (rule reach_success [OF reach_new]) simp

lemma sample_pool_stats: "cp_host_stats sample_pool ''a.test.'' = Some sample_stats"
  by (simp add: sample_pool_def record_caller_success_def new_pool_def index_ok_def caller1_def
      ensure_host_stats_def fresh_stats_def Let_def sample_stats_def caller_reselect_interval_def
      hour_def minute_def second_def)

subsection \<open>Properties\<close>

text \<open>C31: In every reachable state each entry has been seen, an active entry points at one of
  the group's callers, an idle one at none, no reselection is due more than one hour ahead,
  and no use lies in the future.\<close>

theorem caller_stats_invariant:
  assumes "pool_reach cs p t" "cp_host_stats p host = Some e"
  shows "hs_seen e \<and> hs_last_used e \<le> t \<and>
    (hs_state e = Caller_Active \<longrightarrow> 0 \<le> hs_active_index e \<and> hs_active_index e < int (length cs) \<and>
       hs_reselect_after e \<le> t + caller_reselect_interval) \<and>
    (hs_state e = Caller_Idle \<longrightarrow> hs_active_index e = -1)"
  using pool_reach_inv [OF assms(1)] assms(2) by (simp add: pool_inv_def stats_ok_def)

theorem caller_stats_invariant_witness:
  "0 \<le> hs_active_index sample_stats \<and> hs_active_index sample_stats < 2 \<and>
   hs_reselect_after sample_stats \<le> 1000 * second + caller_reselect_interval"
  using caller_stats_invariant [OF sample_reach sample_pool_stats] by (simp add: sample_stats_def)

text \<open>Whom a query of a host goes to, in every reachable state: to the active caller alone
  while its entry is kept and its reselection is not due, and to all callers otherwise. So
  a group with callers always asks somebody, and never a caller that is not its own.\<close>

theorem candidates_spec:
  assumes "pool_reach cs p t"
  shows "fst (candidates_for_host t host p) =
    (case cp_host_stats (cleanup_host_stats t p) host of
       Some e \<Rightarrow> if hs_state e = Caller_Active \<and> t < hs_reselect_after e
         then [cs ! nat (hs_active_index e)] else cs
     | None \<Rightarrow> cs) \<and>
    set (fst (candidates_for_host t host p)) \<subseteq> set cs \<and>
    (fst (candidates_for_host t host p) = [] \<longleftrightarrow> cs = [])"
proof -
  have inv: "pool_inv cs t (cleanup_host_stats t p)"
    by (rule pool_inv_cleanup [OF pool_reach_inv [OF assms]])
  show ?thesis
  proof (cases "cp_host_stats (cleanup_host_stats t p) host")
    case None
    with inv show ?thesis
      by (simp add: candidates_for_host_def all_caller_candidates_def pool_inv_def)
  next
    case (Some e)
    with inv have e: "stats_ok (length cs) t e" "cp_callers p = cs" by (auto simp: pool_inv_def)
    show ?thesis
    proof (cases "hs_state e = Caller_Active \<and> t < hs_reselect_after e")
      case True
      with e have i: "0 \<le> hs_active_index e" "nat (hs_active_index e) < length cs"
        by (auto simp: stats_ok_def nat_less_iff)
      with True Some e have "fst (candidates_for_host t host p) = [cs ! nat (hs_active_index e)]"
        by (simp add: candidates_for_host_def Let_def stats_ok_def)
      with True Some i show ?thesis by (auto simp: nth_mem)
    next
      case False
      with Some e have "fst (candidates_for_host t host p) = cs"
        by (auto simp: candidates_for_host_def Let_def stats_ok_def all_caller_candidates_def)
      with False Some show ?thesis by auto
    qed
  qed
qed

theorem candidates_spec_witness:
  "fst (candidates_for_host (2000 * second) ''a.test.'' sample_pool) = [caller1] \<and>
   fst (candidates_for_host (4600 * second) ''a.test.'' sample_pool) = [caller0, caller1]"
proof -
  have r: "pool_reach [caller0, caller1] sample_pool (2000 * second)"
    "pool_reach [caller0, caller1] sample_pool (4600 * second)"
    using reach_later [OF sample_reach] by (simp_all add: second_def)
  have "cp_host_stats (cleanup_host_stats t sample_pool) ''a.test.'' = Some sample_stats"
    if "t \<le> 4600 * second" for t
    using that sample_pool_stats
    by (simp add: cleanup_host_stats_def sample_stats_def caller_stats_ttl_def hour_def minute_def second_def)
  from this [of "2000 * second"] this [of "4600 * second"]
    candidates_spec [OF r(1), of "''a.test.''"] candidates_spec [OF r(2), of "''a.test.''"]
  show ?thesis by (simp add: sample_stats_def second_def)
qed

text \<open>Successes of the caller a host is kept to never put off its reselection: while the
  deadline has not come they leave it where it is, so once it has come all callers are
  asked again; a success after the deadline, or of another caller, sets it to an hour ahead.\<close>

theorem reselect_not_postponed:
  assumes "index_ok p wc" "cp_host_stats p host = Some e" "hs_seen e"
  shows "(\<exists>e'. cp_host_stats (record_caller_success now now' host wc p) host = Some e' \<and>
      hs_active_index e' = ic_index wc \<and> hs_state e' = Caller_Active \<and>
      hs_reselect_after e' =
        (if hs_state e = Caller_Active \<and> hs_active_index e = ic_index wc \<and> now < hs_reselect_after e
         then hs_reselect_after e else now + caller_reselect_interval)) \<and>
    (\<forall>h. h \<noteq> host \<longrightarrow>
       cp_host_stats (record_caller_success now now' host wc p) h = cp_host_stats p h)"
  using assms by (auto simp: record_caller_success_def ensure_host_stats_def Let_def)

theorem reselect_not_postponed_witness:
  "\<exists>e'. cp_host_stats (record_caller_success (2000 * second) (2000 * second) ''a.test.'' caller1 sample_pool) ''a.test.'' = Some e' \<and>
     hs_reselect_after e' = 4600 * second"
proof -
  have i: "index_ok sample_pool caller1" "hs_seen sample_stats"
    by (simp_all add: index_ok_def caller1_def sample_pool_def record_caller_success_def new_pool_def
        Let_def sample_stats_def)
  from reselect_not_postponed [OF i(1) sample_pool_stats i(2), of "2000 * second" "2000 * second"]
  show ?thesis by (auto simp: sample_stats_def caller1_def second_def)
qed

text \<open>A failure of the caller a host is kept to makes the next query of the host ask all
  callers; the failure of any other caller leaves the choice as it is.\<close>

theorem failure_reselects:
  assumes "pool_reach cs p t" "cp_host_stats p host = Some e" "wc \<in> set cs" "callers_ok cs" "t \<le> t'"
  shows "(hs_active_index e = ic_index wc \<longrightarrow>
      fst (candidates_for_host t' host (record_caller_failure t host wc p)) = cs) \<and>
    (hs_active_index e \<noteq> ic_index wc \<longrightarrow>
      cp_host_stats (record_caller_failure t host wc p) host = Some (e\<lparr>hs_last_used := t\<rparr>))"
proof -
  from assms(1) have inv: "pool_inv cs t p" by (rule pool_reach_inv)
  then have cs: "cp_callers p = cs" and e: "stats_ok (length cs) t e"
    using assms(2) by (auto simp: pool_inv_def)
  from assms(3) obtain i where "i < length cs" "wc = cs ! i" by (auto simp: in_set_conv_nth)
  with assms(4) have ok: "index_ok p wc" by (simp add: index_ok_def cs callers_ok_def list_all_iff)
  let ?p = "record_caller_failure t host wc p"
  have r: "pool_reach cs ?p t'" using assms(1,5) by (blast intro: pool_reach.intros)
  have "fst (candidates_for_host t' host ?p) = cs" if "hs_active_index e = ic_index wc"
  proof -
    have "hs_state e' = Caller_Idle" if "cp_host_stats ?p host = Some e'" for e'
      using that ok e assms(2) \<open>hs_active_index e = ic_index wc\<close>
      by (auto simp: record_caller_failure_def ensure_host_stats_def Let_def stats_ok_def)
    then have "hs_state e' = Caller_Idle" if "cp_host_stats (cleanup_host_stats t' ?p) host = Some e'" for e'
      using that cleanup_stats by blast
    with candidates_spec [OF r, of host] show ?thesis by (auto split: option.splits)
  qed
  moreover have "cp_host_stats ?p host = Some (e\<lparr>hs_last_used := t\<rparr>)" if "hs_active_index e \<noteq> ic_index wc"
    using that ok e assms(2) by (auto simp: record_caller_failure_def ensure_host_stats_def Let_def stats_ok_def)
  ultimately show ?thesis by blast
qed

theorem failure_reselects_witness:
  "fst (candidates_for_host (1001 * second) ''a.test.''
     (record_caller_failure (1000 * second) ''a.test.'' caller1 sample_pool)) = [caller0, caller1]"
proof -
  have "callers_ok [caller0, caller1]" by (simp add: callers_ok_def caller0_def caller1_def)
  from failure_reselects [OF sample_reach sample_pool_stats _ this, of caller1 "1001 * second"]
  show ?thesis by (simp add: sample_stats_def caller1_def second_def)
qed

text \<open>The table does not grow without bound: the cleanup runs at most every five minutes,
  and when it runs it drops exactly the entries that have not been used for a day. What is
  dropped is only a choice, so the host's next query asks all callers.\<close>

theorem cleanup_spec:
  assumes "pool_reach cs p t" "zero_time < t"
    and "cp_last_cleanup p = zero_time \<or> caller_stats_cleanup_interval \<le> t - cp_last_cleanup p"
  shows "cp_last_cleanup (cleanup_host_stats t p) = t \<and>
    (\<forall>h. cp_host_stats (cleanup_host_stats t p) h =
       (case cp_host_stats p h of
          Some e \<Rightarrow> if hs_last_used e = zero_time \<or> t - hs_last_used e \<le> 24 * hour then Some e else None
        | None \<Rightarrow> None)) \<and>
    cleanup_host_stats t (cleanup_host_stats t p) = cleanup_host_stats t p"
proof -
  have "\<not> (cp_last_cleanup p \<noteq> zero_time \<and> t - cp_last_cleanup p < caller_stats_cleanup_interval)"
    using assms(3) by auto
  moreover have "0 < caller_stats_cleanup_interval"
    by (simp add: caller_stats_cleanup_interval_def minute_def)
  ultimately show ?thesis using assms(2)
    by (auto simp: cleanup_host_stats_def caller_stats_ttl_def fun_eq_iff split: option.splits)
qed

theorem cleanup_spec_witness:
  "cp_host_stats (cleanup_host_stats (100000 * second) sample_pool) ''a.test.'' = None"
proof -
  have r: "pool_reach [caller0, caller1] sample_pool (100000 * second)"
    by (rule reach_later [OF sample_reach]) (simp add: second_def)
  have z: "zero_time < 100000 * second" "cp_last_cleanup sample_pool = zero_time"
    by (simp_all add: zero_time_def second_def sample_pool_def record_caller_success_def new_pool_def
        put_stats_def Let_def)
  from cleanup_spec [OF r z(1)] z(2) sample_pool_stats show ?thesis
    by (simp add: sample_stats_def hour_def minute_def second_def zero_time_def)
qed

end
