(* ===== verification/Step_System.thy ===== *)
theory Step_System
  imports Prelude
begin

section \<open>Machines that step on events\<close>

text \<open>
  What the concurrent parts of the program share: a state, events that are possible in some
  states and not in others, and runs of events. The locales state what is proved of a
  machine once its steps are known: an invariant that is kept, work that every step does a
  part of, and steps that remain until the machine has finished.
\<close>

fun run_steps :: "('e \<Rightarrow> 's \<Rightarrow> 's option) \<Rightarrow> 'e list \<Rightarrow> 's \<Rightarrow> 's option" where
  "run_steps step [] s = Some s"
| "run_steps step (e # es) s = Option.bind (step e s) (run_steps step es)"

lemma run_steps_append:
  "run_steps step (es @ fs) s = Option.bind (run_steps step es s) (run_steps step fs)"
proof (induction es arbitrary: s)
  case (Cons e es)
  then show ?case by (cases "step e s") simp_all
qed simp

lemma run_steps_snoc: "run_steps step (es @ [e]) s = Option.bind (run_steps step es s) (step e)"
proof -
  have "run_steps step [e] = step e"
  proof
    show "run_steps step [e] s = step e s" for s by (cases "step e s") simp_all
  qed
  then show ?thesis by (simp only: run_steps_append)
qed

locale step_system =
  fixes step :: "'e \<Rightarrow> 's \<Rightarrow> 's option" and allowed :: "'e \<Rightarrow> bool" and inv :: "'s \<Rightarrow> bool"
  assumes inv_step: "allowed e \<Longrightarrow> inv s \<Longrightarrow> step e s = Some s' \<Longrightarrow> inv s'"
begin

lemma inv_run: "list_all allowed es \<Longrightarrow> inv s \<Longrightarrow> run_steps step es s = Some s' \<Longrightarrow> inv s'"
  by (induction es arbitrary: s) (auto simp: bind_eq_Some_conv dest: inv_step)

end

text \<open>
  Where the surroundings may give a machine more to do, each of its own steps is paid for by the
  work it had or by the cost of what came from outside.
\<close>

locale charged_steps = step_system +
  fixes work :: "'s \<Rightarrow> nat" and own :: "'e \<Rightarrow> bool" and cost :: "'e \<Rightarrow> nat"
  assumes charged: "allowed e \<Longrightarrow> inv s \<Longrightarrow> step e s = Some s' \<Longrightarrow>
    work s' + (if own e then 1 else 0) \<le> work s + cost e"
begin

lemma own_bound:
  "list_all allowed es \<Longrightarrow> inv s \<Longrightarrow> run_steps step es s = Some s' \<Longrightarrow>
   length (filter own es) + work s' \<le> work s + sum_list (map cost es)"
proof (induction es arbitrary: s)
  case (Cons e es)
  from Cons.prems(3) obtain t where t: "step e s = Some t" "run_steps step es t = Some s'"
    by (auto simp: bind_eq_Some_conv)
  have "length (filter own es) + work s' \<le> work t + sum_list (map cost es)"
    using Cons.IH [OF _ _ t(2)] Cons.prems(1,2) inv_step [OF _ _ t(1)] by simp
  with charged [OF _ Cons.prems(2) t(1)] Cons.prems(1) show ?case by (simp split: if_splits)
qed simp

end

text \<open>A machine that gets nothing to do from outside runs at most as long as its work.\<close>

locale working_steps = step_system +
  fixes work :: "'s \<Rightarrow> nat"
  assumes works: "allowed e \<Longrightarrow> inv s \<Longrightarrow> step e s = Some s' \<Longrightarrow> work s' < work s"

sublocale working_steps \<subseteq> paid: charged_steps step allowed inv work "\<lambda>e. True" "\<lambda>e. 0"
  by unfold_locales (use works in fastforce)

context working_steps
begin

lemma run_bound: "list_all allowed es \<Longrightarrow> inv s \<Longrightarrow> run_steps step es s = Some s' \<Longrightarrow> length es + work s' \<le> work s"
  using paid.own_bound [of es s s'] by simp

end

text \<open>
  A value that is replaced while the machine runs, by what some of the events bring. The value
  in use is the latest that was brought.
\<close>

fun latest :: "('e \<Rightarrow> 'v option) \<Rightarrow> 'e list \<Rightarrow> 'v option \<Rightarrow> 'v option" where
  "latest brings [] v = v"
| "latest brings (e # es) v = latest brings es (case brings e of None \<Rightarrow> v | Some v' \<Rightarrow> Some v')"

lemma latest_not_None: "v \<noteq> None \<Longrightarrow> latest brings es v \<noteq> None"
  by (induction es arbitrary: v) (simp_all split: option.split)

lemma latest_brought: "latest brings es v = Some x \<Longrightarrow> v = Some x \<or> (\<exists>e \<in> set es. brings e = Some x)"
  by (induction es arbitrary: v) (auto split: option.splits)

lemma latest_nothing: "list_all (\<lambda>e. brings e = None) es \<Longrightarrow> latest brings es v = v"
  by (induction es arbitrary: v) auto

lemma latest_snoc: "latest brings (es @ [e]) v = (case brings e of None \<Rightarrow> latest brings es v | Some x \<Rightarrow> Some x)"
  by (induction es arbitrary: v) (simp_all split: option.split)

locale hot_swap = step_system +
  fixes brings :: "'e \<Rightarrow> 'v option" and in_use :: "'s \<Rightarrow> 'v option"
  assumes swap: "allowed e \<Longrightarrow> inv s \<Longrightarrow> step e s = Some s' \<Longrightarrow>
    in_use s' = (case brings e of None \<Rightarrow> in_use s | Some v \<Rightarrow> Some v)"
begin

lemma in_use_latest:
  "list_all allowed es \<Longrightarrow> inv s \<Longrightarrow> run_steps step es s = Some s' \<Longrightarrow> in_use s' = latest brings es (in_use s)"
proof (induction es arbitrary: s)
  case (Cons e es)
  from Cons.prems(3) obtain t where t: "step e s = Some t" "run_steps step es t = Some s'"
    by (auto simp: bind_eq_Some_conv)
  from Cons.IH [OF _ _ t(2)] Cons.prems(1,2) inv_step [OF _ _ t(1)] swap [OF _ _ t(1)] show ?case by simp
qed simp

end

locale finishing_steps = working_steps +
  fixes finished :: "'s \<Rightarrow> bool"
  assumes goes_on: "inv s \<Longrightarrow> \<not> finished s \<Longrightarrow> \<exists>e s'. allowed e \<and> step e s = Some s'"
begin

lemma can_finish: "inv s \<Longrightarrow> \<exists>es s'. list_all allowed es \<and> run_steps step es s = Some s' \<and> finished s'"
proof (induction "work s" arbitrary: s rule: less_induct)
  case less
  show ?case
  proof (cases "finished s")
    case True
    then have "list_all allowed [] \<and> run_steps step [] s = Some s \<and> finished s" by simp
    then show ?thesis by blast
  next
    case False
    from goes_on [OF less.prems this] obtain e t where e: "allowed e" "step e s = Some t" by blast
    from less.hyps [OF works [OF e(1) less.prems e(2)] inv_step [OF e(1) less.prems e(2)]]
    obtain es s' where "list_all allowed es" "run_steps step es t = Some s'" "finished s'" by blast
    with e have "list_all allowed (e # es) \<and> run_steps step (e # es) s = Some s' \<and> finished s'" by simp
    then show ?thesis by blast
  qed
qed

end

end
