(* ===== verification/Group_Race.thy ===== *)
theory Group_Race
  imports Adblock Hijack Caller_Stats Step_System
begin

section \<open>A group and the race of its callers (\<open>outbound/groups.go\<close>)\<close>

text \<open>
  The state of a group, and what happens when it handles one query: every candidate caller
  is asked in a goroutine of its own, the answers come back through a channel, and the loop
  of \<open>firstResponse\<close> or \<open>fastestResp\<close> takes the first one that is a message. The race is a
  state machine whose events are the ends of attempts, the receives, the cancellation of
  the context and the end of the ping. What an upstream answers and which address pings
  fastest is chosen by the environment, that is, by the event.
\<close>

subsection \<open>State of a group\<close>

record ipset =
  is_name :: string
  is_timeout :: int

record ipset_task =
  it_val :: string
  it_timeout :: int
  it_target :: ipset

record group =
  g_name :: string
  g_fallback :: bool
  g_disable_qtypes :: "u16 set"
  g_matcher :: abplus
  g_gfwlist :: "abplus option"
  g_gfwlist_url :: string
  g_gfwlist_file :: string
  g_gfwlist_period :: duration
  g_no_cookie :: bool
  g_with_ecs :: "ecs option"
  g_proxy :: "string option"
  g_hijack_rules :: "hijack_rule list"
  g_fastest_ip :: bool
  g_tcp_ping_port :: int
  g_ping_timeout :: int
  g_max_ping_ips :: int
  g_pool :: caller_pool
  g_ipset :: "ipset option"
  g_ipset6 :: "ipset option"
  g_ipset_ch :: "ipset_task list"
  g_started :: bool

record handle_result =
  hr_msg :: dns_msg
  hr_caller_name :: string

record caller_result =
  cr_msg :: dns_msg
  cr_caller :: indexed_caller
  cr_caller_name :: string

subsection \<open>One attempt\<close>

text \<open>
  What \<open>Caller.Call\<close> returns: a message, neither a message nor an error, an error that is
  \<open>context.Canceled\<close>, any other error.
\<close>

datatype call_result = Call_Msg dns_msg | Call_Nothing | Call_Canceled | Call_Failed

definition run_caller_attempt ::
  "dns_lib \<Rightarrow> group \<Rightarrow> time \<Rightarrow> string \<Rightarrow> indexed_caller \<Rightarrow> call_result \<Rightarrow> caller_pool \<Rightarrow>
   caller_result option \<times> caller_pool"
where
  "run_caller_attempt L g now host wc res pool =
     (case res of
        Call_Msg resp \<Rightarrow>
          (Some \<lparr>cr_msg = process_hijack_rules L (g_hijack_rules g) True resp,
                 cr_caller = wc, cr_caller_name = ic_name wc\<rparr>, pool)
      | Call_Canceled \<Rightarrow> (None, pool)
      | _ \<Rightarrow> (None, record_caller_failure now host wc pool))"

subsection \<open>The fastest address\<close>

definition answer_ip :: "u16 \<Rightarrow> rr \<Rightarrow> string" where
  "answer_ip qtype r =
     (case r of
        RR_A h a \<Rightarrow> if qtype = type_A then ip_string a else []
      | RR_AAAA h a \<Rightarrow> if qtype = type_AAAA then ip_string a else []
      | _ \<Rightarrow> [])"

fun collect_ips :: "int \<Rightarrow> u16 \<Rightarrow> rr list \<Rightarrow> string list \<Rightarrow> string list" where
  "collect_ips max_num qtype [] all = all"
| "collect_ips max_num qtype (r # rs) all =
     (let ip = answer_ip qtype r
      in if ip \<noteq> [] then
           (if ip \<in> set all then collect_ips max_num qtype rs all
            else if int (length (all @ [ip])) \<ge> max_num then all @ [ip]
            else collect_ips max_num qtype rs (all @ [ip]))
         else collect_ips max_num qtype rs all)"

definition max_go_num :: "group \<Rightarrow> int" where
  "max_go_num g = (if g_max_ping_ips g > 0 then g_max_ping_ips g else 15)"

definition millisecond :: duration where "millisecond = 10 ^ 6"

definition ping_timeout :: "group \<Rightarrow> duration" where
  "ping_timeout g =
     (if g_ping_timeout g > 0 then wrap64 (g_ping_timeout g * millisecond) else 500 * millisecond)"

text \<open>The time the ping may take, given what is left until the deadline; \<open>None\<close> is no ping.\<close>

definition ping_budget :: "group \<Rightarrow> duration option \<Rightarrow> duration option" where
  "ping_budget g remaining =
     (case remaining of
        None \<Rightarrow> Some (ping_timeout g)
      | Some r \<Rightarrow>
          if r < ping_timeout g then (if r \<le> 0 then None else Some r) else Some (ping_timeout g))"

text \<open>The loop that deletes the other address records in place.\<close>

definition slower :: "u16 \<Rightarrow> string \<Rightarrow> rr \<Rightarrow> bool" where
  "slower qtype fastest r =
     (case r of
        RR_A h a \<Rightarrow> qtype = type_A \<and> ip_string a \<noteq> fastest
      | RR_AAAA h a \<Rightarrow> qtype = type_AAAA \<and> ip_string a \<noteq> fastest
      | _ \<Rightarrow> False)"

definition keep_fastest :: "u16 \<Rightarrow> string \<Rightarrow> dns_msg \<Rightarrow> dns_msg" where
  "keep_fastest qtype fastest m = m\<lparr>msg_answer := del_loop (slower qtype fastest) 0 (msg_answer m)\<rparr>"

subsection \<open>The race\<close>

text \<open>
  The receiver: taking from the channel for the \<open>i\<close>-th time, pinging the addresses of the
  message it took, or returned. A channel holds what was sent and not yet received; its
  capacity is the number of candidates, so a send never blocks.
\<close>

datatype phase =
    Receiving nat
  | Pinging caller_result "string list"
  | Returned "handle_result option"

record race =
  ra_pool :: caller_pool
  ra_running :: "indexed_caller list"
  ra_chan :: "caller_result option list"
  ra_cancelled :: bool
  ra_phase :: phase

datatype race_event =
    Ev_Finish nat call_result time
  | Ev_Drop nat call_result time
  | Ev_Cancel
  | Ev_Receive time time
  | Ev_Done
  | Ev_Ping "duration option" "string option" time time

definition use_fastest :: "group \<Rightarrow> u16 \<Rightarrow> bool" where
  "use_fastest g qtype \<longleftrightarrow> (qtype = type_A \<or> qtype = type_AAAA) \<and> g_fastest_ip g"

text \<open>Returning runs the deferred cancel.\<close>

definition return_result :: "handle_result option \<Rightarrow> race \<Rightarrow> race" where
  "return_result res r = r\<lparr>ra_phase := Returned res, ra_cancelled := True\<rparr>"

definition succeed :: "time \<Rightarrow> time \<Rightarrow> string \<Rightarrow> caller_result \<Rightarrow> dns_msg \<Rightarrow> race \<Rightarrow> race" where
  "succeed now now' host cr m r =
     return_result (Some \<lparr>hr_msg = m, hr_caller_name = cr_caller_name cr\<rparr>)
       (r\<lparr>ra_pool := record_caller_success now now' host (cr_caller cr) (ra_pool r)\<rparr>)"

definition drop_nth :: "nat \<Rightarrow> 'a list \<Rightarrow> 'a list" where
  "drop_nth k xs = take k xs @ drop (Suc k) xs"

definition race_step ::
  "dns_lib \<Rightarrow> group \<Rightarrow> string \<Rightarrow> u16 \<Rightarrow> nat \<Rightarrow> race_event \<Rightarrow> race \<Rightarrow> race option"
where
  "race_step L g host qtype ch_len ev r =
     (case ev of
        Ev_Finish k res now \<Rightarrow>
          if k < length (ra_running r) then
            let (cr, pool) = run_caller_attempt L g now host (ra_running r ! k) res (ra_pool r)
            in Some (r\<lparr>ra_pool := pool, ra_running := drop_nth k (ra_running r), ra_chan := ra_chan r @ [cr]\<rparr>)
          else None
      | Ev_Drop k res now \<Rightarrow>
          if k < length (ra_running r) \<and> ra_cancelled r then
            let (cr, pool) = run_caller_attempt L g now host (ra_running r ! k) res (ra_pool r)
            in Some (r\<lparr>ra_pool := pool, ra_running := drop_nth k (ra_running r)\<rparr>)
          else None
      | Ev_Cancel \<Rightarrow> if ra_cancelled r then None else Some (r\<lparr>ra_cancelled := True\<rparr>)
      | Ev_Receive now now' \<Rightarrow>
          (case (ra_phase r, ra_chan r) of
             (Receiving i, x # rest) \<Rightarrow>
               let r' = r\<lparr>ra_chan := rest\<rparr>
               in (case x of
                     None \<Rightarrow>
                       Some (if i + 1 < ch_len then r'\<lparr>ra_phase := Receiving (i + 1)\<rparr>
                             else return_result None r')
                   | Some cr \<Rightarrow>
                       if \<not> use_fastest g qtype then Some (succeed now now' host cr (cr_msg cr) r')
                       else
                         let all = collect_ips (max_go_num g) qtype (msg_answer (cr_msg cr)) []
                         in if length all \<le> 1 then Some (succeed now now' host cr (cr_msg cr) r')
                            else Some (r'\<lparr>ra_phase := Pinging cr all\<rparr>))
           | _ \<Rightarrow> None)
      | Ev_Done \<Rightarrow>
          (case ra_phase r of
             Receiving i \<Rightarrow> if ra_cancelled r then Some (return_result None r) else None
           | _ \<Rightarrow> None)
      | Ev_Ping remaining fastest now now' \<Rightarrow>
          (case ra_phase r of
             Pinging cr all \<Rightarrow>
               (case (ping_budget g remaining, fastest) of
                  (Some b, Some ip) \<Rightarrow>
                    if ip \<in> set all
                    then Some (succeed now now' host cr (keep_fastest qtype ip (cr_msg cr)) r)
                    else None
                | _ \<Rightarrow> Some (succeed now now' host cr (cr_msg cr) r))
           | _ \<Rightarrow> None))"

definition start_race :: "caller_pool \<Rightarrow> indexed_caller list \<Rightarrow> race" where
  "start_race pool candidates =
     \<lparr>ra_pool = pool, ra_running = candidates, ra_chan = [], ra_cancelled = False, ra_phase = Receiving 0\<rparr>"

text \<open>The states a race can reach, with the events so far.\<close>

inductive race_trace ::
  "dns_lib \<Rightarrow> group \<Rightarrow> string \<Rightarrow> u16 \<Rightarrow> caller_pool \<Rightarrow> indexed_caller list \<Rightarrow> race_event list \<Rightarrow> race \<Rightarrow> bool"
  for L g host qtype pool cs
where
  trace_start: "race_trace L g host qtype pool cs [] (start_race pool cs)"
| trace_step: "race_trace L g host qtype pool cs evs r \<Longrightarrow>
    race_step L g host qtype (length cs) ev r = Some r' \<Longrightarrow>
    race_trace L g host qtype pool cs (evs @ [ev]) r'"

text \<open>A schedule that is run from a state.\<close>

fun race_run :: "dns_lib \<Rightarrow> group \<Rightarrow> string \<Rightarrow> u16 \<Rightarrow> nat \<Rightarrow> race_event list \<Rightarrow> race \<Rightarrow> race option" where
  "race_run L g host qtype n [] r = Some r"
| "race_run L g host qtype n (ev # evs) r =
     (case race_step L g host qtype n ev r of
        None \<Rightarrow> None | Some r' \<Rightarrow> race_run L g host qtype n evs r')"

lemma race_run_trace:
  assumes "race_trace L g host qtype pool cs evs r" "race_run L g host qtype (length cs) evs' r = Some r'"
  shows "race_trace L g host qtype pool cs (evs @ evs') r'"
  using assms
proof (induction evs' arbitrary: evs r)
  case (Cons ev evs')
  then obtain s where s: "race_step L g host qtype (length cs) ev r = Some s"
    "race_run L g host qtype (length cs) evs' s = Some r'" by (auto split: option.splits)
  from Cons.IH [OF trace_step [OF Cons.prems(1) s(1)] s(2)] show ?case by simp
qed simp

subsection \<open>The kinds of steps\<close>

text \<open>The message an attempt delivers.\<close>

definition result_of :: "dns_lib \<Rightarrow> group \<Rightarrow> indexed_caller \<Rightarrow> dns_msg \<Rightarrow> caller_result" where
  "result_of L g wc m = \<lparr>cr_msg = process_hijack_rules L (g_hijack_rules g) True m,
     cr_caller = wc, cr_caller_name = ic_name wc\<rparr>"

lemma attempt_result:
  "fst (run_caller_attempt L g now host wc res pool) =
     (case res of Call_Msg m \<Rightarrow> Some (result_of L g wc m) | _ \<Rightarrow> None)"
  by (simp add: run_caller_attempt_def result_of_def split: call_result.splits)

lemma race_step_cases:
  assumes "race_step L g host qtype n ev r = Some r'"
  obtains
    (finish) k res now where "ev = Ev_Finish k res now" "k < length (ra_running r)"
      "ra_running r' = drop_nth k (ra_running r)"
      "ra_chan r' = ra_chan r @ [case res of Call_Msg m \<Rightarrow> Some (result_of L g (ra_running r ! k) m) | _ \<Rightarrow> None]"
      "ra_phase r' = ra_phase r" "ra_cancelled r' = ra_cancelled r"
  | (drop) k res now where "ev = Ev_Drop k res now" "k < length (ra_running r)" "ra_cancelled r"
      "ra_running r' = drop_nth k (ra_running r)" "ra_chan r' = ra_chan r"
      "ra_phase r' = ra_phase r" "ra_cancelled r' = ra_cancelled r"
  | (cancel) "ev = Ev_Cancel" "\<not> ra_cancelled r" "r' = r\<lparr>ra_cancelled := True\<rparr>"
  | (more) now now' i rest where "ev = Ev_Receive now now'" "ra_phase r = Receiving i"
      "ra_chan r = None # rest" "i + 1 < n" "r' = r\<lparr>ra_chan := rest, ra_phase := Receiving (i + 1)\<rparr>"
  | (exhausted) now now' i rest where "ev = Ev_Receive now now'" "ra_phase r = Receiving i"
      "ra_chan r = None # rest" "\<not> i + 1 < n" "r' = return_result None (r\<lparr>ra_chan := rest\<rparr>)"
  | (first) now now' i cr rest where "ev = Ev_Receive now now'" "ra_phase r = Receiving i"
      "ra_chan r = Some cr # rest" "r' = succeed now now' host cr (cr_msg cr) (r\<lparr>ra_chan := rest\<rparr>)"
  | (ping) now now' i cr rest all where "ev = Ev_Receive now now'" "ra_phase r = Receiving i"
      "ra_chan r = Some cr # rest" "use_fastest g qtype"
      "all = collect_ips (max_go_num g) qtype (msg_answer (cr_msg cr)) []"
      "r' = r\<lparr>ra_chan := rest, ra_phase := Pinging cr all\<rparr>"
  | (stop) i where "ev = Ev_Done" "ra_phase r = Receiving i" "ra_cancelled r" "r' = return_result None r"
  | (pinged) remaining fastest now now' cr all m where "ev = Ev_Ping remaining fastest now now'"
      "ra_phase r = Pinging cr all" "r' = succeed now now' host cr m r"
      "m = cr_msg cr \<or> (\<exists>ip \<in> set all. fastest = Some ip \<and> m = keep_fastest qtype ip (cr_msg cr))"
proof (cases ev)
  case (Ev_Finish k res now)
  with assms have k: "k < length (ra_running r)" by (simp add: race_step_def split: if_splits)
  show thesis
    by (rule finish [OF Ev_Finish k])
      (use assms k Ev_Finish attempt_result [of L g now host "ra_running r ! k" res "ra_pool r"]
        in \<open>auto simp: race_step_def split: prod.splits\<close>)
next
  case (Ev_Drop k res now)
  with assms have k: "k < length (ra_running r)" "ra_cancelled r" by (simp_all add: race_step_def split: if_splits)
  show thesis
    by (rule drop [OF Ev_Drop k]) (use assms k Ev_Drop in \<open>auto simp: race_step_def split: prod.splits\<close>)
next
  case Ev_Cancel
  with assms show thesis by (intro cancel) (auto simp: race_step_def split: if_splits)
next
  case (Ev_Receive now now')
  with assms obtain i x rest where ph: "ra_phase r = Receiving i" "ra_chan r = x # rest"
    by (auto simp: race_step_def split: phase.splits list.splits)
  show thesis
  proof (cases x)
    case None
    show thesis
    proof (cases "i + 1 < n")
      case True
      with assms Ev_Receive ph None show thesis by (intro more) (auto simp: race_step_def)
    next
      case False
      with assms Ev_Receive ph None show thesis by (intro exhausted) (auto simp: race_step_def)
    qed
  next
    case (Some cr)
    show thesis
    proof (cases "use_fastest g qtype \<and> \<not> length (collect_ips (max_go_num g) qtype (msg_answer (cr_msg cr)) []) \<le> 1")
      case True
      with assms Ev_Receive ph Some show thesis by (intro ping) (auto simp: race_step_def Let_def)
    next
      case False
      with assms Ev_Receive ph Some show thesis
        by (intro first) (auto simp: race_step_def Let_def split: if_splits)
    qed
  qed
next
  case Ev_Done
  with assms obtain i where "ra_phase r = Receiving i" "ra_cancelled r" "r' = return_result None r"
    by (auto simp: race_step_def split: phase.splits if_splits)
  with Ev_Done show thesis by (rule stop)
next
  case (Ev_Ping remaining fastest now now')
  with assms obtain cr all where ph: "ra_phase r = Pinging cr all"
    by (auto simp: race_step_def split: phase.splits)
  with assms Ev_Ping obtain m where "r' = succeed now now' host cr m r"
    "m = cr_msg cr \<or> (\<exists>ip \<in> set all. fastest = Some ip \<and> m = keep_fastest qtype ip (cr_msg cr))"
    by (auto simp: race_step_def split: option.splits if_splits)
  with Ev_Ping ph show thesis by (rule pinged)
qed

subsection \<open>Where a result comes from\<close>

definition delivered :: "race_event list \<Rightarrow> dns_msg \<Rightarrow> bool" where
  "delivered evs m \<longleftrightarrow> (\<exists>k now. Ev_Finish k (Call_Msg m) now \<in> set evs)"

definition made :: "dns_lib \<Rightarrow> group \<Rightarrow> indexed_caller list \<Rightarrow> race_event list \<Rightarrow> caller_result \<Rightarrow> bool" where
  "made L g cs evs cr \<longleftrightarrow> (\<exists>wc \<in> set cs. \<exists>m. cr = result_of L g wc m \<and> delivered evs m)"

definition served_from :: "group \<Rightarrow> u16 \<Rightarrow> caller_result \<Rightarrow> handle_result \<Rightarrow> bool" where
  "served_from g qtype cr res \<longleftrightarrow>
     hr_caller_name res = cr_caller_name cr \<and>
     (hr_msg res = cr_msg cr \<or>
      use_fastest g qtype \<and>
      (\<exists>ip \<in> set (collect_ips (max_go_num g) qtype (msg_answer (cr_msg cr)) []).
         hr_msg res = keep_fastest qtype ip (cr_msg cr)))"

definition source_inv ::
  "dns_lib \<Rightarrow> group \<Rightarrow> u16 \<Rightarrow> indexed_caller list \<Rightarrow> race_event list \<Rightarrow> race \<Rightarrow> bool" where
  "source_inv L g qtype cs evs r \<longleftrightarrow>
     set (ra_running r) \<subseteq> set cs \<and>
     (\<forall>cr. Some cr \<in> set (ra_chan r) \<longrightarrow> made L g cs evs cr) \<and>
     (\<forall>cr all. ra_phase r = Pinging cr all \<longrightarrow> made L g cs evs cr \<and> use_fastest g qtype \<and>
        all = collect_ips (max_go_num g) qtype (msg_answer (cr_msg cr)) []) \<and>
     (\<forall>res. ra_phase r = Returned (Some res) \<longrightarrow>
        (\<exists>cr. made L g cs evs cr \<and> served_from g qtype cr res))"

lemma made_mono: "made L g cs evs cr \<Longrightarrow> made L g cs (evs @ [ev]) cr"
  by (auto simp: made_def delivered_def)

lemma set_drop_nth: "set (drop_nth k xs) \<subseteq> set xs"
  by (auto simp: drop_nth_def dest: in_set_takeD in_set_dropD)

lemma length_drop_nth: "k < length xs \<Longrightarrow> length (drop_nth k xs) = length xs - 1"
  by (simp add: drop_nth_def)

lemma return_result_simps [simp]:
  "ra_running (return_result x r) = ra_running r" "ra_chan (return_result x r) = ra_chan r"
  "ra_phase (return_result x r) = Returned x" "ra_pool (return_result x r) = ra_pool r"
  "ra_cancelled (return_result x r)"
  by (simp_all add: return_result_def)

lemma succeed_simps [simp]:
  "ra_running (succeed now now' host cr m r) = ra_running r"
  "ra_chan (succeed now now' host cr m r) = ra_chan r"
  "ra_phase (succeed now now' host cr m r) =
     Returned (Some \<lparr>hr_msg = m, hr_caller_name = cr_caller_name cr\<rparr>)"
  "ra_cancelled (succeed now now' host cr m r)"
  "ra_pool (succeed now now' host cr m r) = record_caller_success now now' host (cr_caller cr) (ra_pool r)"
  by (simp_all add: succeed_def)

lemma source_inv_step:
  assumes inv: "source_inv L g qtype cs evs r" and step: "race_step L g host qtype n ev r = Some r'"
  shows "source_inv L g qtype cs (evs @ [ev]) r'"
proof -
  note m = made_mono [where L = L and g = g and cs = cs and evs = evs and ev = ev]
  have old: "set (ra_running r) \<subseteq> set cs" "\<And>cr. Some cr \<in> set (ra_chan r) \<Longrightarrow> made L g cs (evs @ [ev]) cr"
    "\<And>cr all. ra_phase r = Pinging cr all \<Longrightarrow> made L g cs (evs @ [ev]) cr \<and> use_fastest g qtype \<and>
       all = collect_ips (max_go_num g) qtype (msg_answer (cr_msg cr)) []"
    "\<And>res. ra_phase r = Returned (Some res) \<Longrightarrow>
       \<exists>cr. made L g cs (evs @ [ev]) cr \<and> served_from g qtype cr res"
    using inv m unfolding source_inv_def by blast+
  from step show ?thesis
  proof (cases rule: race_step_cases)
    case (finish k res now)
    have "made L g cs (evs @ [ev]) cr"
      if "Some cr = (case res of Call_Msg m \<Rightarrow> Some (result_of L g (ra_running r ! k) m) | _ \<Rightarrow> None)" for cr
    proof -
      from that obtain m where "res = Call_Msg m" "cr = result_of L g (ra_running r ! k) m"
        by (auto split: call_result.splits)
      moreover have "ra_running r ! k \<in> set cs" using finish(2) old(1) by (meson nth_mem subsetD)
      ultimately show ?thesis using finish(1) by (auto simp: made_def delivered_def)
    qed
    with finish old show ?thesis
      using set_drop_nth [of k "ra_running r"] unfolding source_inv_def by auto
  next
    case (drop k res now)
    with old show ?thesis
      using set_drop_nth [of k "ra_running r"] unfolding source_inv_def by auto
  next
    case (first now now' i cr rest)
    with old show ?thesis by (auto simp: source_inv_def served_from_def)
  next
    case (pinged remaining fastest now now' cr all ms)
    then have "ra_phase r' = Returned (Some \<lparr>hr_msg = ms, hr_caller_name = cr_caller_name cr\<rparr>)" by simp
    moreover have "made L g cs (evs @ [ev]) cr" "served_from g qtype cr \<lparr>hr_msg = ms, hr_caller_name = cr_caller_name cr\<rparr>"
      using old(3) [OF pinged(2)] pinged(4) by (auto simp: served_from_def)
    ultimately show ?thesis using old(1,2) pinged(3) unfolding source_inv_def by auto
  qed (use old in \<open>auto simp: source_inv_def\<close>)
qed

lemma source_inv_trace:
  "race_trace L g host qtype pool cs evs r \<Longrightarrow> source_inv L g qtype cs evs r"
proof (induction rule: race_trace.induct)
  case trace_start
  show ?case by (simp add: source_inv_def start_race_def)
next
  case (trace_step evs r ev r')
  then show ?case by (blast intro: source_inv_step)
qed

subsection \<open>Counting\<close>

definition count_inv :: "nat \<Rightarrow> race_event list \<Rightarrow> race \<Rightarrow> bool" where
  "count_inv n evs r \<longleftrightarrow>
     (\<forall>i. ra_phase r = Receiving i \<longrightarrow> i < n \<and>
        (Ev_Cancel \<notin> set evs \<longrightarrow> \<not> ra_cancelled r \<and> length (ra_chan r) + length (ra_running r) + i = n \<and>
           (\<forall>m. delivered evs m \<longrightarrow> (\<exists>cr. Some cr \<in> set (ra_chan r))))) \<and>
     (ra_phase r = Returned None \<and> Ev_Cancel \<notin> set evs \<longrightarrow> ra_running r = [] \<and> (\<forall>m. \<not> delivered evs m)) \<and>
     (Ev_Cancel \<in> set evs \<longrightarrow> ra_cancelled r)"

lemma delivered_snoc:
  "delivered (evs @ [ev]) m \<longleftrightarrow> delivered evs m \<or> (\<exists>k now. ev = Ev_Finish k (Call_Msg m) now)"
  by (auto simp: delivered_def)

lemma count_inv_step:
  assumes inv: "count_inv n evs r" and step: "race_step L g host qtype n ev r = Some r'"
  shows "count_inv n (evs @ [ev]) r'"
  using step
proof (cases rule: race_step_cases)
  case (finish k res now)
  have ne: "ra_running r \<noteq> []" using finish(2) by auto
  have l: "length (ra_running r') = length (ra_running r) - 1" "0 < length (ra_running r)"
    using finish(2,3) ne by (simp_all add: length_drop_nth)
  have c: "length (ra_chan r') = length (ra_chan r) + 1" using finish(4) by simp
  have new: "\<exists>cr. Some cr \<in> set (ra_chan r')" if "ev = Ev_Finish k' (Call_Msg m) now'" for k' m now'
    using that finish(1,4) by auto
  have sub: "set (ra_chan r) \<subseteq> set (ra_chan r')" using finish(4) by auto
  show ?thesis
    unfolding count_inv_def
  proof (intro conjI allI impI)
    fix i
    assume p: "ra_phase r' = Receiving i"
    with inv finish(5) show "i < n" by (simp add: count_inv_def)
    assume "Ev_Cancel \<notin> set (evs @ [ev])"
    with inv p finish(5) have x: "\<not> ra_cancelled r" "length (ra_chan r) + length (ra_running r) + i = n"
      "\<And>m. delivered evs m \<Longrightarrow> \<exists>cr. Some cr \<in> set (ra_chan r)" by (auto simp: count_inv_def)
    show "\<not> ra_cancelled r'" using x(1) finish(6) by simp
    show "length (ra_chan r') + length (ra_running r') + i = n" using x(2) l c by linarith
    show "\<exists>cr. Some cr \<in> set (ra_chan r')" if "delivered (evs @ [ev]) m" for m
      using that x(3) new sub unfolding delivered_snoc by blast
  next
    assume "ra_phase r' = Returned None \<and> Ev_Cancel \<notin> set (evs @ [ev])"
    with inv ne finish(5) have False by (simp add: count_inv_def)
    then show "ra_running r' = []" by simp
  next
    fix m
    assume "ra_phase r' = Returned None \<and> Ev_Cancel \<notin> set (evs @ [ev])"
    with inv ne finish(5) show "\<not> delivered (evs @ [ev]) m" by (simp add: count_inv_def)
  next
    assume "Ev_Cancel \<in> set (evs @ [ev])"
    with inv finish(1,6) show "ra_cancelled r'" by (simp add: count_inv_def)
  qed
next
  case (drop k res now)
  have "ra_running r \<noteq> []" using drop(2) by auto
  with inv drop show ?thesis by (auto simp: count_inv_def)
next
  case cancel
  then show ?thesis using inv by (simp add: count_inv_def)
next
  case (more now now' i rest)
  with inv show ?thesis by (auto simp: count_inv_def delivered_snoc)
next
  case (exhausted now now' i rest)
  with inv have "i < n" by (simp add: count_inv_def)
  with exhausted(4) have "i + 1 = n" by simp
  with inv exhausted have "Ev_Cancel \<notin> set evs \<longrightarrow> rest = [] \<and> ra_running r = [] \<and> (\<forall>m. \<not> delivered evs m)"
    by (fastforce simp: count_inv_def)
  with exhausted show ?thesis by (simp add: count_inv_def delivered_snoc)
next
  case (first now now' i cr rest)
  then show ?thesis by (simp add: count_inv_def)
next
  case (ping now now' i cr rest all)
  with inv show ?thesis by (simp add: count_inv_def)
next
  case (stop i)
  with inv show ?thesis by (auto simp: count_inv_def)
next
  case (pinged remaining fastest now now' cr all m)
  then show ?thesis by (simp add: count_inv_def)
qed

lemma count_inv_trace:
  assumes "race_trace L g host qtype pool cs evs r" "cs \<noteq> []"
  shows "count_inv (length cs) evs r"
  using assms
proof (induction rule: race_trace.induct)
  case trace_start
  then show ?case by (simp add: count_inv_def start_race_def delivered_def)
next
  case (trace_step evs r ev r')
  then show ?case by (blast intro: count_inv_step)
qed

subsection \<open>Every race ends\<close>

fun phase_rank :: "phase \<Rightarrow> nat" where
  "phase_rank (Receiving i) = 2"
| "phase_rank (Pinging cr all) = 1"
| "phase_rank (Returned res) = 0"

definition race_rank :: "race \<Rightarrow> nat" where
  "race_rank r = 2 * length (ra_running r) + length (ra_chan r) + phase_rank (ra_phase r) +
     (if ra_cancelled r then 0 else 1)"

lemma race_step_rank:
  assumes "race_step L g host qtype n ev r = Some r'"
  shows "race_rank r' < race_rank r"
  using assms
proof (cases rule: race_step_cases)
  case (finish k res now)
  then have "length (ra_running r') = length (ra_running r) - 1" "0 < length (ra_running r)"
    by (auto simp: length_drop_nth)
  with finish show ?thesis by (simp add: race_rank_def)
next
  case (drop k res now)
  then have "length (ra_running r') = length (ra_running r) - 1" "0 < length (ra_running r)"
    by (auto simp: length_drop_nth)
  with drop show ?thesis by (simp add: race_rank_def)
qed (auto simp: race_rank_def)

interpretation race: working_steps "race_step L g host qtype n" "\<lambda>ev. True" "\<lambda>r. True" race_rank
  for L g host qtype n
  by unfold_locales (simp_all add: race_step_rank)

lemma race_run_steps: "race_run L g host qtype n evs r = run_steps (race_step L g host qtype n) evs r"
  by (induction evs arbitrary: r) (auto split: option.split)

lemma race_run_rank:
  "race_run L g host qtype n evs r = Some r' \<Longrightarrow> race_rank r' + length evs \<le> race_rank r"
  using race.run_bound [where es = evs and s = r and s' = r'] by (simp add: race_run_steps list_all_iff add.commute)

subsection \<open>The address selection\<close>

lemma collect_ips_spec:
  "distinct all \<Longrightarrow> distinct (collect_ips mx qtype rs all) \<and>
     set (collect_ips mx qtype rs all) \<subseteq> set all \<union> (answer_ip qtype ` set rs - {[]}) \<and>
     (int (length all) < mx \<longrightarrow> int (length (collect_ips mx qtype rs all)) \<le> mx)"
proof (induction mx qtype rs all rule: collect_ips.induct)
  case (2 mx qtype r rs all)
  let ?ip = "answer_ip qtype r"
  consider "?ip = [] \<or> ?ip \<in> set all" | "?ip \<noteq> []" "?ip \<notin> set all" "int (length (all @ [?ip])) \<ge> mx"
    | "?ip \<noteq> []" "?ip \<notin> set all" "int (length (all @ [?ip])) < mx" by linarith
  then show ?case
  proof cases
    case 1
    then have "collect_ips mx qtype (r # rs) all = collect_ips mx qtype rs all" by (auto simp: Let_def)
    moreover have "distinct (collect_ips mx qtype rs all) \<and>
     set (collect_ips mx qtype rs all) \<subseteq> set all \<union> (answer_ip qtype ` set rs - {[]}) \<and>
     (int (length all) < mx \<longrightarrow> int (length (collect_ips mx qtype rs all)) \<le> mx)"
      using 1 2 by (cases "?ip = []") auto
    ultimately show ?thesis by auto
  next
    case 2
    then show ?thesis using "2.prems" by (simp add: Let_def)
  next
    case 3
    then have "collect_ips mx qtype (r # rs) all = collect_ips mx qtype rs (all @ [?ip])" by (simp add: Let_def)
    moreover have "distinct (all @ [?ip])" using 3 "2.prems" by simp
    ultimately show ?thesis using "2.IH"(2) [OF refl 3(1,2)] 3 by auto
  qed
qed simp

lemma slower_answer_ip:
  "answer_ip qtype r \<noteq> [] \<Longrightarrow> slower qtype ip r \<longleftrightarrow> answer_ip qtype r \<noteq> ip"
  by (auto simp: answer_ip_def slower_def split: rr.splits)

subsection \<open>A concrete race\<close>

definition sample_group :: group where
  "sample_group = \<lparr>g_name = ''g'', g_fallback = True, g_disable_qtypes = {}, g_matcher = empty_abp,
     g_gfwlist = None, g_gfwlist_url = [], g_gfwlist_file = [], g_gfwlist_period = hour,
     g_no_cookie = False, g_with_ecs = None, g_proxy = None, g_hijack_rules = [],
     g_fastest_ip = True, g_tcp_ping_port = 0, g_ping_timeout = 0, g_max_ping_ips = 0,
     g_pool = new_pool [caller0, caller1], g_ipset = None, g_ipset6 = None, g_ipset_ch = [],
     g_started = True\<rparr>"

definition race_A :: "u8 \<Rightarrow> rr" where
  "race_A b = RR_A \<lparr>hdr_name = ''a.test.'', hdr_rrtype = 1, hdr_class = 1, hdr_ttl = 60\<rparr> [192, 0, 2, b]"

definition race_msg :: dns_msg where
  "race_msg = new_msg\<lparr>msg_question := [\<lparr>q_name = ''a.test.'', q_type = 1, q_class = 1\<rparr>],
     msg_answer := [race_A 1, race_A 2]\<rparr>"

definition race_events :: "race_event list" where
  "race_events = [Ev_Finish 0 Call_Failed 5, Ev_Finish 0 (Call_Msg race_msg) 6, Ev_Receive 7 7, Ev_Receive 8 8,
     Ev_Ping None (Some ''192.0.2.2'') 9 9]"

definition race_end :: race where
  "race_end = the (race_run plain_lib sample_group ''a.test.'' type_A 2 race_events
     (start_race (new_pool [caller0, caller1]) [caller0, caller1]))"

lemma race_end_run:
  "race_run plain_lib sample_group ''a.test.'' type_A 2 race_events
     (start_race (new_pool [caller0, caller1]) [caller0, caller1]) = Some race_end"
proof -
  have "race_run plain_lib sample_group ''a.test.'' type_A 2 race_events
     (start_race (new_pool [caller0, caller1]) [caller0, caller1]) \<noteq> None" by code_simp
  then show ?thesis by (auto simp: race_end_def)
qed

lemma race_end_trace:
  "race_trace plain_lib sample_group ''a.test.'' type_A (new_pool [caller0, caller1]) [caller0, caller1]
     race_events race_end"
  using race_run_trace [OF trace_start, of plain_lib sample_group "''a.test.''" type_A "[caller0, caller1]"
      race_events] race_end_run
  by (simp add: numeral_2_eq_2)

lemma race_end_phase:
  "ra_phase race_end =
     Returned (Some \<lparr>hr_msg = race_msg\<lparr>msg_answer := [race_A 2]\<rparr>, hr_caller_name = ic_name caller1\<rparr>)"
  by code_simp

subsection \<open>Properties\<close>

text \<open>C10: Whatever a race returns was answered by one of the callers it asked: the result
  carries that caller's name and its message with the hijack rules undone, and, only when
  the fastest address was asked for, reduced to one of the addresses of that message.\<close>

theorem race_result_from_caller:
  assumes "race_trace L g host qtype pool cs evs r" "ra_phase r = Returned (Some res)"
  shows "\<exists>wc \<in> set cs. \<exists>k now m. Ev_Finish k (Call_Msg m) now \<in> set evs \<and>
    hr_caller_name res = ic_name wc \<and>
    (let m' = process_hijack_rules L (g_hijack_rules g) True m
     in hr_msg res = m' \<or>
        use_fastest g qtype \<and>
        (\<exists>ip \<in> set (collect_ips (max_go_num g) qtype (msg_answer m') []). hr_msg res = keep_fastest qtype ip m'))"
proof -
  from source_inv_trace [OF assms(1)] assms(2) obtain cr where
    "made L g cs evs cr" "served_from g qtype cr res" by (auto simp: source_inv_def)
  then obtain wc m k now where "wc \<in> set cs" "cr = result_of L g wc m" "Ev_Finish k (Call_Msg m) now \<in> set evs"
    by (auto simp: made_def delivered_def)
  moreover from this(2) have "cr_msg cr = process_hijack_rules L (g_hijack_rules g) True m"
    "cr_caller_name cr = ic_name wc" by (simp_all add: result_of_def)
  ultimately show ?thesis using \<open>served_from g qtype cr res\<close> unfolding served_from_def Let_def by metis
qed

theorem race_result_from_caller_witness:
  "\<exists>wc \<in> set [caller0, caller1]. \<exists>k now m. Ev_Finish k (Call_Msg m) now \<in> set race_events \<and>
     ic_name caller1 = ic_name wc"
proof -
  from race_result_from_caller [OF race_end_trace race_end_phase] obtain wc k now m where
    "wc \<in> set [caller0, caller1]" "Ev_Finish k (Call_Msg m) now \<in> set race_events" "ic_name caller1 = ic_name wc"
    by (elim bexE exE conjE) simp
  then show ?thesis by blast
qed

text \<open>C9: A race never gets stuck and never runs on: as long as it has not returned, some event
  other than a cancellation is possible (an attempt that is still out can end, an answer can
  be received, a cancellation noticed, a ping can end), and with n candidates no run has more than
  2n + 3 events. So the handler always returns.\<close>

theorem race_terminates:
  assumes "cs \<noteq> []"
  shows "(race_trace L g host qtype pool cs evs r \<and> (\<forall>res. ra_phase r \<noteq> Returned res) \<longrightarrow>
      (\<exists>ev. ev \<noteq> Ev_Cancel \<and> race_step L g host qtype (length cs) ev r \<noteq> None)) \<and>
    (race_run L g host qtype n evs (start_race pool cs) \<noteq> None \<longrightarrow> length evs \<le> 2 * length cs + 3)"
proof (intro conjI impI)
  assume a: "race_trace L g host qtype pool cs evs r \<and> (\<forall>res. ra_phase r \<noteq> Returned res)"
  show "\<exists>ev. ev \<noteq> Ev_Cancel \<and> race_step L g host qtype (length cs) ev r \<noteq> None"
  proof (cases "ra_phase r")
    case (Receiving i)
    from a assms have inv: "count_inv (length cs) evs r" by (blast intro: count_inv_trace)
    consider "ra_cancelled r" | "ra_running r \<noteq> []" | "ra_chan r \<noteq> []" | "\<not> ra_cancelled r" "ra_running r = []" "ra_chan r = []"
      by blast
    then show ?thesis
    proof cases
      case 1
      with Receiving have "race_step L g host qtype (length cs) Ev_Done r \<noteq> None" by (simp add: race_step_def)
      then show ?thesis by blast
    next
      case 2
      then have "race_step L g host qtype (length cs) (Ev_Finish 0 Call_Failed 0) r \<noteq> None"
        by (simp add: race_step_def split: prod.split)
      then show ?thesis by blast
    next
      case 3
      with Receiving have "race_step L g host qtype (length cs) (Ev_Receive 0 0) r \<noteq> None"
        by (auto simp: race_step_def Let_def neq_Nil_conv split: option.split)
      then show ?thesis by blast
    next
      case 4
      with inv Receiving show ?thesis by (auto simp: count_inv_def)
    qed
  next
    case (Pinging cr all)
    then have "race_step L g host qtype (length cs) (Ev_Ping None None 0 0) r \<noteq> None"
      by (simp add: race_step_def split: option.split)
    then show ?thesis by blast
  next
    case (Returned res)
    with a show ?thesis by blast
  qed
next
  assume "race_run L g host qtype n evs (start_race pool cs) \<noteq> None"
  then obtain r' where "race_run L g host qtype n evs (start_race pool cs) = Some r'" by auto
  from race_run_rank [OF this] show "length evs \<le> 2 * length cs + 3"
    by (simp add: race_rank_def start_race_def)
qed

theorem race_terminates_witness:
  "length race_events \<le> 2 * length [caller0, caller1] + 3"
proof -
  have "[caller0, caller1] \<noteq> []" by simp
  from race_terminates [OF this, of plain_lib sample_group "''a.test.''" type_A "new_pool [caller0, caller1]"
      race_events race_end 2] race_end_run
  show ?thesis by simp
qed

text \<open>C35: A race fails only if everybody fails: if it returns nothing although the context was
  not cancelled, then no attempt is still out and none of the candidates delivered a
  message.\<close>

theorem race_fails_only_if_all_fail:
  assumes "race_trace L g host qtype pool cs evs r" "cs \<noteq> []" "ra_phase r = Returned None"
    and "Ev_Cancel \<notin> set evs"
  shows "ra_running r = [] \<and> (\<forall>k m now. Ev_Finish k (Call_Msg m) now \<notin> set evs)"
  using count_inv_trace [OF assms(1,2)] assms(3,4) by (auto simp: count_inv_def delivered_def)

theorem race_fails_only_if_all_fail_witness:
  "\<exists>r. race_run plain_lib sample_group ''a.test.'' type_A 1 [Ev_Finish 0 Call_Failed 5, Ev_Receive 6 6]
       (start_race (new_pool [caller0]) [caller0]) = Some r \<and> ra_phase r = Returned None \<and> ra_running r = []"
proof -
  let ?run = "race_run plain_lib sample_group ''a.test.'' type_A 1 [Ev_Finish 0 Call_Failed 5, Ev_Receive 6 6]
       (start_race (new_pool [caller0]) [caller0])"
  have "map_option (\<lambda>r. case ra_phase r of Returned x \<Rightarrow> x = None | _ \<Rightarrow> False) ?run = Some True" by code_simp
  then obtain r where "?run = Some r" "case ra_phase r of Returned x \<Rightarrow> x = None | _ \<Rightarrow> False"
    by (auto simp del: race_run.simps)
  then have r: "?run = Some r" "ra_phase r = Returned None" by (cases "ra_phase r"; simp)+
  have "race_trace plain_lib sample_group ''a.test.'' type_A (new_pool [caller0]) [caller0]
      [Ev_Finish 0 Call_Failed 5, Ev_Receive 6 6] r"
    using race_run_trace [OF trace_start, of plain_lib sample_group "''a.test.''" type_A "[caller0]"
        "[Ev_Finish 0 Call_Failed 5, Ev_Receive 6 6]"] r(1) by (simp del: race_run.simps)
  from race_fails_only_if_all_fail [OF this _ r(2)] r show ?thesis by auto
qed

text \<open>Keeping the fastest address deletes exactly the other address records of the asked
  type, keeps every other record in its place, and never leaves the answer without an
  address: the chosen one is an address of the message, among at most the configured number
  (15 by default) that were pinged.\<close>

theorem keep_fastest_spec:
  assumes "ip \<in> set (collect_ips (max_go_num g) qtype (msg_answer m) [])"
  shows "msg_answer (keep_fastest qtype ip m) =
      filter (\<lambda>r. answer_ip qtype r = [] \<or> answer_ip qtype r = ip) (msg_answer m) \<and>
    (\<exists>r \<in> set (msg_answer (keep_fastest qtype ip m)). answer_ip qtype r = ip) \<and>
    int (length (collect_ips (max_go_num g) qtype (msg_answer m) [])) \<le> max_go_num g"
proof -
  have c: "set (collect_ips (max_go_num g) qtype (msg_answer m) []) \<subseteq> answer_ip qtype ` set (msg_answer m) - {[]}"
    "int (length (collect_ips (max_go_num g) qtype (msg_answer m) [])) \<le> max_go_num g"
    using collect_ips_spec [of "[]" "max_go_num g" qtype "msg_answer m"] by (auto simp: max_go_num_def)
  with assms obtain r where r: "r \<in> set (msg_answer m)" "answer_ip qtype r = ip" "ip \<noteq> []" by auto
  have "\<not> slower qtype ip r' \<longleftrightarrow> answer_ip qtype r' = [] \<or> answer_ip qtype r' = ip" for r'
    by (auto simp: answer_ip_def slower_def split: rr.splits)
  then have "msg_answer (keep_fastest qtype ip m) =
      filter (\<lambda>r. answer_ip qtype r = [] \<or> answer_ip qtype r = ip) (msg_answer m)"
    by (simp add: keep_fastest_def)
  then show ?thesis using r c(2) by auto
qed

theorem keep_fastest_spec_witness:
  "msg_answer (keep_fastest type_A ''192.0.2.2'' race_msg) = [race_A 2]"
proof -
  have i: "''192.0.2.2'' \<in> set (collect_ips (max_go_num sample_group) type_A (msg_answer race_msg) [])" by code_simp
  have "filter (\<lambda>r. answer_ip type_A r = [] \<or> answer_ip type_A r = ''192.0.2.2'') (msg_answer race_msg) = [race_A 2]"
    by code_simp
  with keep_fastest_spec [OF i] show ?thesis by simp
qed

end
