(* ===== verification/Group_Impl.thy ===== *)
theory Group_Impl
  imports Group_Race
begin

section \<open>A group's operations (\<open>outbound/groups.go\<close>)\<close>

text \<open>
  Matching a request, handling it (the preparation of the request, the choice of the
  callers and the race), the queue of addresses for the ipset worker, the rule list that is
  fetched and replaced while the group runs, and its life cycle.
\<close>

subsection \<open>Match\<close>

definition has_gfwlist :: "group \<Rightarrow> bool" where
  "has_gfwlist g \<longleftrightarrow> g_gfwlist_url g \<noteq> [] \<or> g_gfwlist g \<noteq> None"

definition group_match :: "regexp_engine \<Rightarrow> group \<Rightarrow> dns_msg \<Rightarrow> bool" where
  "group_match E g req =
     (let domain = (case msg_question req of [] \<Rightarrow> [] | q # _ \<Rightarrow> q_name q)
      in if domain = [] then False
         else if fst (abp_match E (g_matcher g) domain) then True
         else (case g_gfwlist g of
                 Some m \<Rightarrow> fst (abp_match E m domain)
               | None \<Rightarrow> False))"

subsection \<open>Handle\<close>

definition query_host :: "dns_lib \<Rightarrow> dns_msg \<Rightarrow> string" where
  "query_host L req = (case msg_question req of [] \<Rightarrow> [] | q # _ \<Rightarrow> to_lower (lib_fqdn L (q_name q)))"

text \<open>What is sent upstream; \<open>None\<close> when the type of a question is disabled.\<close>

definition prepare_request :: "dns_lib \<Rightarrow> group \<Rightarrow> dns_msg \<Rightarrow> dns_msg option" where
  "prepare_request L g req =
     (if list_ex (\<lambda>q. q_type q \<in> g_disable_qtypes g) (msg_question req) then None
      else
        let r = (if g_no_cookie g then remove_edns_cookie req else req);
            r = (if g_with_ecs g \<noteq> None then set_default_ecs L r (g_with_ecs g) else r)
        in Some (process_hijack_rules L (g_hijack_rules g) False r))"

text \<open>
  A schedule is followed until the race returns. The outer \<open>None\<close> means that the schedule
  does not lead to a return, which is no behaviour of the code.
\<close>

fun race_until ::
  "dns_lib \<Rightarrow> group \<Rightarrow> string \<Rightarrow> u16 \<Rightarrow> nat \<Rightarrow> race_event list \<Rightarrow> race \<Rightarrow> (handle_result option \<times> race) option" where
  "race_until L g host qtype n [] r = None"
| "race_until L g host qtype n (ev # evs) r =
     (case race_step L g host qtype n ev r of
        None \<Rightarrow> None
      | Some r' \<Rightarrow>
          (case ra_phase r' of
             Returned res \<Rightarrow> Some (res, r')
           | _ \<Rightarrow> race_until L g host qtype n evs r'))"

definition group_handle ::
  "dns_lib \<Rightarrow> time \<Rightarrow> race_event list \<Rightarrow> group \<Rightarrow> dns_msg \<Rightarrow> (handle_result option \<times> group) option" where
  "group_handle L now schedule g req =
     (case prepare_request L g req of
        None \<Rightarrow> Some (None, g)
      | Some r \<Rightarrow>
          let host = query_host L r;
              (candidates, pool) = candidates_for_host now host (g_pool g);
              g' = g\<lparr>g_pool := pool\<rparr>
          in if candidates = [] then Some (None, g')
             else
               let qtype = (case msg_question r of [] \<Rightarrow> 0 | q # _ \<Rightarrow> q_type q)
               in map_option (\<lambda>(res, rc). (res, g'\<lparr>g_pool := ra_pool rc\<rparr>))
                    (race_until L g host qtype (length candidates) schedule (start_race pool candidates)))"

subsection \<open>PostProcess and the ipset worker\<close>

definition ipset_capacity :: nat where "ipset_capacity = 1024"

text \<open>A non-blocking send: a task that does not fit is dropped.\<close>

definition offer :: "ipset_task \<Rightarrow> ipset_task list \<Rightarrow> ipset_task list" where
  "offer task ch = (if length ch < ipset_capacity then ch @ [task] else ch)"

definition ipset_task_of :: "group \<Rightarrow> rr \<Rightarrow> ipset_task option" where
  "ipset_task_of g answer =
     (let (val, target) =
        (case answer of
           RR_A h a \<Rightarrow> (ip_string a, g_ipset g)
         | RR_AAAA h a \<Rightarrow> (ip_string a, g_ipset6 g)
         | _ \<Rightarrow> ([], None))
      in if val = [] then None
         else map_option (\<lambda>t. \<lparr>it_val = val, it_timeout = is_timeout t, it_target = t\<rparr>) target)"

definition post_answer :: "group \<Rightarrow> rr \<Rightarrow> ipset_task list \<Rightarrow> ipset_task list" where
  "post_answer g answer ch = (case ipset_task_of g answer of None \<Rightarrow> ch | Some task \<Rightarrow> offer task ch)"

definition post_process :: "dns_msg option \<Rightarrow> group \<Rightarrow> group" where
  "post_process resp g =
     (case resp of
        None \<Rightarrow> g
      | Some m \<Rightarrow> g\<lparr>g_ipset_ch := fold (post_answer g) (msg_answer m) (g_ipset_ch g)\<rparr>)"

text \<open>
  The worker: it handles tasks until it sees that the group is stopped, then empties the
  queue and exits. A handled task is one call of \<open>Add\<close> on its target.
\<close>

datatype worker_phase = Working | Draining | Exited

record worker =
  wk_queue :: "ipset_task list"
  wk_handled :: "ipset_task list"
  wk_stop :: bool
  wk_phase :: worker_phase

inductive worker_step :: "ipset_task list \<Rightarrow> worker \<Rightarrow> ipset_task list \<Rightarrow> worker \<Rightarrow> bool" where
  put: "length (wk_queue w) < ipset_capacity \<Longrightarrow>
    worker_step sent w (sent @ [task]) (w\<lparr>wk_queue := offer task (wk_queue w)\<rparr>)"
| take: "wk_phase w \<noteq> Exited \<Longrightarrow> wk_queue w = task # rest \<Longrightarrow>
    worker_step sent w sent (w\<lparr>wk_queue := rest, wk_handled := wk_handled w @ [task]\<rparr>)"
| stop: "worker_step sent w sent (w\<lparr>wk_stop := True\<rparr>)"
| see_stop: "wk_phase w = Working \<Longrightarrow> wk_stop w \<Longrightarrow> worker_step sent w sent (w\<lparr>wk_phase := Draining\<rparr>)"
| exit_loop: "wk_phase w = Draining \<Longrightarrow> wk_queue w = [] \<Longrightarrow> worker_step sent w sent (w\<lparr>wk_phase := Exited\<rparr>)"

inductive_cases worker_stepE: "worker_step sent w sent' w'"

inductive worker_reach :: "ipset_task list \<Rightarrow> worker \<Rightarrow> bool" where
  worker_start: "worker_reach [] \<lparr>wk_queue = [], wk_handled = [], wk_stop = False, wk_phase = Working\<rparr>"
| worker_next: "worker_reach sent w \<Longrightarrow> worker_step sent w sent' w' \<Longrightarrow> worker_reach sent' w'"

subsection \<open>The fetched rule list\<close>

text \<open>
  \<open>http_get\<close> is the body of a successful response to a URL; the network is a parameter.
  The file system is the one the process writes to: \<open>can_write\<close> says whether a write works; one
  that fails leaves the file as it was.
\<close>

definition grab_gfwlist :: "(string \<Rightarrow> string option) \<Rightarrow> group \<Rightarrow> string option" where
  "grab_gfwlist http_get g =
     (if g_gfwlist_url g = [] then None
      else case http_get (g_gfwlist_url g) of None \<Rightarrow> None | Some data \<Rightarrow> b64_decode data)"

text \<open>The list is saved before it is read: a panic while reading it leaves it in the file.\<close>

definition save_gfwlist :: "(string \<Rightarrow> bool) \<Rightarrow> file_system \<Rightarrow> group \<Rightarrow> string \<Rightarrow> file_system" where
  "save_gfwlist can_write fs g text =
     (let file = g_gfwlist_file g
      in if file \<noteq> [] \<and> can_write file then fs(file \<mapsto> b64_encode text) else fs)"

definition refresh_gfwlist ::
  "regexp_engine \<Rightarrow> (string \<Rightarrow> string option) \<Rightarrow> (string \<Rightarrow> bool) \<Rightarrow> file_system \<Rightarrow> group \<Rightarrow>
   file_system \<times> (panic + group)"
where
  "refresh_gfwlist E http_get can_write fs g =
     (case grab_gfwlist http_get g of
        None \<Rightarrow> (fs, Inr g)
      | Some text \<Rightarrow>
          (save_gfwlist can_write fs g text,
           (case new_abp_by_text E text of
              Inl p \<Rightarrow> Inl p
            | Inr m \<Rightarrow> Inr (g\<lparr>g_gfwlist := Some m\<rparr>))))"

subsection \<open>Life cycle\<close>

text \<open>
  Whether the group was started and whether its stop channel is closed. Closing a closed
  channel is a panic, here \<open>None\<close>.
\<close>

record group_life =
  gl_started :: bool
  gl_stop_closed :: bool
  gl_callers_running :: bool

definition group_start :: "group_life \<Rightarrow> group_life" where
  "group_start l = l\<lparr>gl_started := True, gl_callers_running := True\<rparr>"

definition group_stop :: "group_life \<Rightarrow> group_life option" where
  "group_stop l =
     (if \<not> gl_started l then Some l
      else if gl_stop_closed l then None
      else Some (l\<lparr>gl_stop_closed := True, gl_callers_running := False\<rparr>))"

subsection \<open>How a race ends\<close>

lemma attempt_callers [simp]:
  "cp_callers (snd (run_caller_attempt L g now host wc res pool)) = cp_callers pool"
  by (simp add: run_caller_attempt_def record_caller_failure_def Let_def split: call_result.split)

lemma record_success_callers [simp]:
  "cp_callers (record_caller_success now now' host wc pool) = cp_callers pool"
  by (simp add: record_caller_success_def Let_def)

lemma race_step_callers:
  assumes "race_step L g host qtype n ev r = Some r'"
  shows "cp_callers (ra_pool r') = cp_callers (ra_pool r)"
proof -
  have a: "cp_callers pool = cp_callers p"
    if "run_caller_attempt L g now host wc res p = (cr, pool)" for now wc res p cr pool
    using attempt_callers [of L g now host wc res p] that by simp
  show ?thesis using assms
    by (auto simp: race_step_def Let_def a split: race_event.splits if_splits prod.splits phase.splits
        list.splits option.splits)
qed

lemma race_trace_callers:
  "race_trace L g host qtype pool cs evs r \<Longrightarrow> cp_callers (ra_pool r) = cp_callers pool"
  by (induction rule: race_trace.induct) (simp_all add: start_race_def race_step_callers)

text \<open>A race that returns a message ends in the success of one of its candidates.\<close>

lemma race_until_success:
  assumes "race_until L g host qtype (length cs) schedule r = Some (Some res, r')"
    and "race_trace L g host qtype pool cs evs r" "\<forall>x. ra_phase r \<noteq> Returned x"
  shows "\<exists>wc \<in> set cs. \<exists>now now' p. hr_caller_name res = ic_name wc \<and> cp_callers p = cp_callers pool \<and>
    ra_pool r' = record_caller_success now now' host wc p"
  using assms
proof (induction schedule arbitrary: r evs)
  case Nil
  then show ?case by simp
next
  case (Cons ev schedule)
  then obtain s where s: "race_step L g host qtype (length cs) ev r = Some s"
    by (auto split: option.splits)
  have t: "race_trace L g host qtype pool cs (evs @ [ev]) s" by (rule trace_step [OF Cons.prems(2) s])
  show ?case
  proof (cases "\<exists>x. ra_phase s = Returned x")
    case False
    with Cons.prems(1) s have "race_until L g host qtype (length cs) schedule s = Some (Some res, r')"
      by (auto split: phase.splits)
    from Cons.IH [OF this t] False show ?thesis by blast
  next
    case True
    with Cons.prems(1) s have ph: "ra_phase s = Returned (Some res)" "r' = s" by auto
    have inv: "source_inv L g qtype cs evs r" by (rule source_inv_trace [OF Cons.prems(2)])
    have fin: ?thesis
      if "ra_pool s = record_caller_success now now' host (cr_caller cr) (ra_pool r)"
        "made L g cs evs cr" "hr_caller_name res = cr_caller_name cr" for now now' cr
    proof -
      from that(2) obtain wc where "wc \<in> set cs" "cr_caller cr = wc" "cr_caller_name cr = ic_name wc"
        by (auto simp: made_def result_of_def)
      with that(1,3) ph(2) race_trace_callers [OF Cons.prems(2)] show ?thesis by auto
    qed
    have ne: "ra_phase s \<noteq> ra_phase r" using ph(1) Cons.prems(3) by metis
    from s show ?thesis
    proof (cases rule: race_step_cases)
      case (first now now' i cr rest)
      with inv have "made L g cs evs cr" by (simp add: source_inv_def)
      with first ph(1) show ?thesis by (intro fin [of now now' cr]) auto
    next
      case (pinged remaining fastest now now' cr all m)
      with inv have "made L g cs evs cr" by (simp add: source_inv_def)
      with pinged ph(1) show ?thesis by (intro fin [of now now' cr]) auto
    qed (use ne ph in auto)
  qed
qed

lemma candidates_subset: "set (fst (candidates_for_host now host p)) \<subseteq> set (cp_callers p)"
  by (auto simp: candidates_for_host_def all_caller_candidates_def Let_def nat_less_iff split: option.split)

text \<open>After a success the caller is the choice until the reselection is due.\<close>

lemma success_sticks:
  assumes "cp_callers p = cs" "callers_ok cs" "wc \<in> set cs"
    and p'_def: "p' = record_caller_success now now' host wc p"
  shows "\<exists>e. cp_host_stats p' host = Some e \<and> hs_active_index e = ic_index wc \<and> now < hs_reselect_after e \<and>
    hs_last_used e = now' \<and>
    (\<forall>t. t < hs_reselect_after e \<and> t - now' \<le> caller_stats_ttl \<longrightarrow>
       fst (candidates_for_host t host p') = [wc])"
proof -
  from assms(3) obtain i where i: "i < length cs" "wc = cs ! i" by (auto simp: in_set_conv_nth)
  with assms(2) have idx: "ic_index wc = int i" by (simp add: callers_ok_def list_all_iff)
  have ok: "index_ok p wc" using i idx by (simp add: index_ok_def assms(1))
  have pos: "0 < caller_reselect_interval" by (simp add: caller_reselect_interval_def hour_def minute_def)
  obtain e where e: "cp_host_stats p' host = Some e" "hs_active_index e = ic_index wc"
    "hs_state e = Caller_Active" "hs_seen e" "now < hs_reselect_after e" "hs_last_used e = now'"
    using ok pos by (auto simp: p'_def record_caller_success_def ensure_host_stats_def Let_def)
  have "fst (candidates_for_host t host p') = [wc]" if t: "t < hs_reselect_after e" "t - now' \<le> caller_stats_ttl" for t
  proof -
    have "cp_host_stats (cleanup_host_stats t p') host = Some e"
      using e(1,6) t(2) by (simp add: cleanup_host_stats_def)
    moreover have "cp_callers p' = cs" by (simp add: p'_def assms(1))
    ultimately show ?thesis using e t(1) i idx by (simp add: candidates_for_host_def Let_def)
  qed
  with e show ?thesis by blast
qed

subsection \<open>The queue\<close>

lemma length_offer: "length ch \<le> ipset_capacity \<Longrightarrow> length (offer task ch) \<le> ipset_capacity"
  by (simp add: offer_def)

lemma fold_offer:
  "length ch \<le> ipset_capacity \<Longrightarrow>
   fold offer tasks ch = ch @ take (ipset_capacity - length ch) tasks"
proof (induction tasks arbitrary: ch)
  case (Cons task tasks)
  show ?case
  proof (cases "length ch < ipset_capacity")
    case True
    then obtain k where k: "ipset_capacity - length ch = Suc k" by (metis Suc_diff_Suc)
    then have "ipset_capacity - length (ch @ [task]) = k" by simp
    with Cons.IH [of "ch @ [task]"] True k show ?thesis by (simp add: offer_def)
  next
    case False
    with Cons show ?thesis by (simp add: offer_def)
  qed
qed simp

lemma fold_post_answer: "fold (post_answer g) as ch = fold offer (List.map_filter (ipset_task_of g) as) ch"
  by (induction as arbitrary: ch) (auto simp: post_answer_def List.map_filter_def split: option.splits)

lemma worker_inv:
  "worker_reach sent w \<Longrightarrow> sent = wk_handled w @ wk_queue w \<and> length (wk_queue w) \<le> ipset_capacity"
proof (induction rule: worker_reach.induct)
  case worker_start
  show ?case by simp
next
  case (worker_next sent w sent' w')
  from worker_next.hyps(2) worker_next.IH show ?case
    by (cases rule: worker_step.cases) (auto simp: offer_def)
qed

lemma group_match_Cons:
  assumes "msg_question req = q # qs" "q_name q \<noteq> []"
  shows "group_match E g req \<longleftrightarrow> fst (abp_match E (g_matcher g) (q_name q)) \<or>
    (\<exists>m. g_gfwlist g = Some m \<and> fst (abp_match E m (q_name q)))"
  using assms by (cases "g_gfwlist g") (auto simp: group_match_def Let_def)

subsection \<open>Properties\<close>


definition handle_events :: "race_event list" where
  "handle_events = [Ev_Finish 1 (Call_Msg race_msg) 6, Ev_Receive 7 7, Ev_Ping None None 8 8]"



definition cookie_group :: group where
  "cookie_group = sample_group\<lparr>g_no_cookie := True, g_disable_qtypes := {type_AAAA}\<rparr>"

definition aaaa_msg :: dns_msg where
  "aaaa_msg = new_msg\<lparr>msg_id := 7, msg_question := [\<lparr>q_name = ''a.test.'', q_type = type_AAAA, q_class = 1\<rparr>]\<rparr>"


text \<open>Whether a group matches depends only on the first question's name without its root
  dot and in lower case, its own rules and the fetched list deciding in this order; a
  request without a question or with an empty name is never matched.\<close>

theorem group_match_spec:
  "(msg_question req = [] \<longrightarrow> \<not> group_match E g req) \<and>
   (\<forall>q qs. msg_question req = q # qs \<longrightarrow>
      (q_name q = [] \<longrightarrow> \<not> group_match E g req) \<and>
      (q_name q \<noteq> [] \<longrightarrow>
         (group_match E g req \<longleftrightarrow> fst (abp_match E (g_matcher g) (q_name q)) \<or>
            (\<exists>m. g_gfwlist g = Some m \<and> fst (abp_match E m (q_name q)))) \<and>
         (\<forall>req' q' qs'. msg_question req' = q' # qs' \<and> q_name q' \<noteq> [] \<and>
            match_key (q_name q') = match_key (q_name q) \<longrightarrow> group_match E g req' = group_match E g req)))"
proof -
  have key: "abp_match E m n = abp_match E m n'" if "match_key n = match_key n'" "n \<noteq> []" "n' \<noteq> []" for m n n'
    using that by (simp add: abp_match_def)
  have "group_match E g req' = group_match E g req"
    if "msg_question req = q # qs" "q_name q \<noteq> []" "msg_question req' = q' # qs'" "q_name q' \<noteq> []"
      "match_key (q_name q') = match_key (q_name q)" for q qs req' q' qs'
    using group_match_Cons [OF that(1,2)] group_match_Cons [OF that(3,4)] key [OF that(5,4,2)] by simp
  moreover have "\<not> group_match E g req" if "msg_question req = []"
    using that by (simp add: group_match_def)
  moreover have "\<not> group_match E g req" if "msg_question req = q # qs" "q_name q = []" for q qs
    using that by (simp add: group_match_def)
  ultimately show ?thesis using group_match_Cons [of req _ _ E g] by blast
qed

theorem group_match_spec_witness:
  "match_key ''WWW.a.test.'' = match_key ''www.a.test'' \<and>
   group_match go_regexp sample_group (new_msg\<lparr>msg_question := [\<lparr>q_name = ''WWW.a.test.'', q_type = 1, q_class = 1\<rparr>]\<rparr>) =
   group_match go_regexp sample_group (new_msg\<lparr>msg_question := [\<lparr>q_name = ''www.a.test'', q_type = 1, q_class = 1\<rparr>]\<rparr>)"
proof -
  have k: "match_key ''WWW.a.test.'' = match_key ''www.a.test''" by code_simp
  then show ?thesis
    using group_match_spec [of "new_msg\<lparr>msg_question := [\<lparr>q_name = ''www.a.test'', q_type = 1, q_class = 1\<rparr>]\<rparr>"
        go_regexp sample_group] by simp
qed

text \<open>Post-processing offers the address of every A record for the IPv4 set and of every
  AAAA record for the IPv6 set, in order, and only those; what does not fit the queue of
  1024 tasks is dropped from the end, and the request path never blocks.\<close>

theorem post_process_spec:
  assumes "length (g_ipset_ch g) \<le> ipset_capacity"
  shows "g_ipset_ch (post_process (Some m) g) =
      g_ipset_ch g @ take (ipset_capacity - length (g_ipset_ch g))
        (List.map_filter (ipset_task_of g) (msg_answer m)) \<and>
    length (g_ipset_ch (post_process (Some m) g)) \<le> ipset_capacity \<and>
    (\<forall>a t. ipset_task_of g a = Some t \<longrightarrow>
       (\<exists>h ip. a = RR_A h ip \<and> g_ipset g = Some (it_target t) \<and> it_val t = ip_string ip \<or>
               a = RR_AAAA h ip \<and> g_ipset6 g = Some (it_target t) \<and> it_val t = ip_string ip))"
proof -
  have "\<exists>h ip. a = RR_A h ip \<and> g_ipset g = Some (it_target t) \<and> it_val t = ip_string ip \<or>
               a = RR_AAAA h ip \<and> g_ipset6 g = Some (it_target t) \<and> it_val t = ip_string ip"
    if "ipset_task_of g a = Some t" for a t
    using that by (cases a) (auto simp: ipset_task_of_def)
  then show ?thesis using assms by (simp add: post_process_def fold_post_answer fold_offer)
qed

theorem post_process_spec_witness:
  "map it_val (g_ipset_ch (post_process (Some race_msg) (sample_group\<lparr>g_ipset := Some \<lparr>is_name = ''set4'', is_timeout = 60\<rparr>\<rparr>))) =
     [''192.0.2.1'', ''192.0.2.2'']"
proof -
  let ?g = "sample_group\<lparr>g_ipset := Some \<lparr>is_name = ''set4'', is_timeout = 60\<rparr>\<rparr>"
  have e: "g_ipset_ch ?g = []" by (simp add: sample_group_def)
  have "map it_val (List.map_filter (ipset_task_of ?g) (msg_answer race_msg)) = [''192.0.2.1'', ''192.0.2.2'']"
    by code_simp
  moreover have "length (g_ipset_ch ?g) \<le> ipset_capacity" by (simp add: e)
  from post_process_spec [OF this, of race_msg] have
    "g_ipset_ch (post_process (Some race_msg) ?g) = take 1024 (List.map_filter (ipset_task_of ?g) (msg_answer race_msg))"
    by (simp add: e ipset_capacity_def)
  moreover from calculation(1) have "length (List.map_filter (ipset_task_of ?g) (msg_answer race_msg)) = 2"
    by (metis length_map length_Cons list.size(3) numeral_2_eq_2)
  ultimately show ?thesis by simp
qed

text \<open>The worker loses nothing that was queued: in every reachable state what was sent is
  what it handled followed by what is still queued, so each task is handled at most once
  and in order; and when it exits after the group is stopped, everything sent so far has
  been handled.\<close>

theorem worker_handles_all:
  assumes "worker_reach sent w"
  shows "sent = wk_handled w @ wk_queue w \<and> length (wk_queue w) \<le> ipset_capacity \<and>
    (\<forall>sent' w'. worker_step sent w sent' w' \<and> wk_phase w \<noteq> Exited \<and> wk_phase w' = Exited \<longrightarrow>
       wk_stop w' = wk_stop w \<and> wk_handled w' = sent)"
proof -
  have "wk_stop w' = wk_stop w \<and> wk_handled w' = sent"
    if "worker_step sent w sent' w'" "wk_phase w \<noteq> Exited" "wk_phase w' = Exited" for sent' w'
    using that worker_inv [OF assms] by (cases rule: worker_step.cases) auto
  then show ?thesis using worker_inv [OF assms] by blast
qed

theorem worker_handles_all_witness:
  "\<exists>w. worker_reach [\<lparr>it_val = ''192.0.2.1'', it_timeout = 60, it_target = \<lparr>is_name = ''set4'', is_timeout = 60\<rparr>\<rparr>] w \<and>
     length (wk_handled w @ wk_queue w) = 1"
proof -
  let ?w = "\<lparr>wk_queue = [], wk_handled = [], wk_stop = False, wk_phase = Working\<rparr>"
  let ?t = "\<lparr>it_val = ''192.0.2.1'', it_timeout = 60, it_target = \<lparr>is_name = ''set4'', is_timeout = 60\<rparr>\<rparr>"
  have "worker_step [] ?w ([] @ [?t]) (?w\<lparr>wk_queue := offer ?t (wk_queue ?w)\<rparr>)"
    by (rule worker_step.put) (simp add: ipset_capacity_def)
  then have "worker_reach [?t] (?w\<lparr>wk_queue := offer ?t (wk_queue ?w)\<rparr>)"
    using worker_next [OF worker_start] by fastforce
  moreover from worker_handles_all [OF this]
  have "[?t] = wk_handled (?w\<lparr>wk_queue := offer ?t (wk_queue ?w)\<rparr>) @ wk_queue (?w\<lparr>wk_queue := offer ?t (wk_queue ?w)\<rparr>)"
    by (rule conjunct1)
  then have "length (wk_handled (?w\<lparr>wk_queue := offer ?t (wk_queue ?w)\<rparr>) @ wk_queue (?w\<lparr>wk_queue := offer ?t (wk_queue ?w)\<rparr>)) = 1"
    by (metis length_Cons list.size(3) One_nat_def)
  ultimately show ?thesis by blast
qed

text \<open>A rule list that is fetched and saved is the one that is read at the next start: if
  the file could be written, decoding it gives exactly the list that is in use.\<close>

theorem gfwlist_file_roundtrip:
  assumes "refresh_gfwlist E http_get can_write fs g = (fs', Inr g')" "grab_gfwlist http_get g = Some text"
    and "g_gfwlist_file g \<noteq> []" "can_write (g_gfwlist_file g)"
  shows "\<exists>m. g_gfwlist g' = Some m \<and> new_abp_by_file E fs' (g_gfwlist_file g) True = Inr (Inr m)"
proof -
  from assms obtain m where "new_abp_by_text E text = Inr m" "g_gfwlist g' = Some m"
    "fs' = fs(g_gfwlist_file g \<mapsto> b64_encode text)"
    by (auto simp: refresh_gfwlist_def save_gfwlist_def Let_def split: sum.splits)
  then show ?thesis by (simp add: new_abp_by_file_def b64_decode_encode)
qed

theorem gfwlist_file_roundtrip_witness:
  "\<exists>fs' g' m. refresh_gfwlist go_regexp (\<lambda>u. Some ''fHxhLmNu'') (\<lambda>f. True) (\<lambda>f. None)
       (sample_group\<lparr>g_gfwlist_url := ''u'', g_gfwlist_file := ''f''\<rparr>) = (fs', Inr g') \<and>
     g_gfwlist g' = Some m \<and> new_abp_by_file go_regexp fs' ''f'' True = Inr (Inr m)"
proof -
  let ?g = "sample_group\<lparr>g_gfwlist_url := ''u'', g_gfwlist_file := ''f''\<rparr>"
  have d: "grab_gfwlist (\<lambda>u. Some ''fHxhLmNu'') ?g = Some ''||a.cn''" by code_simp
  have "\<exists>m. new_abp_by_text go_regexp ''||a.cn'' = Inr m"
    by (simp add: new_abp_by_text_def add_line_def trim_space_def trim_def trim_left_def
        trim_right_def is_space_def replace_all.simps extract_domain_def cut_after_def cut_before_def
        trim_suffix_def suffix_def add_plain_def tld_reg_def is_alpha_def less_eq_char_def slice_to_def)
  then obtain m where m: "new_abp_by_text go_regexp ''||a.cn'' = Inr m" by blast
  have r: "\<exists>fs' g'. refresh_gfwlist go_regexp (\<lambda>u. Some ''fHxhLmNu'') (\<lambda>f. True) (\<lambda>f. None) ?g = (fs', Inr g')"
    unfolding refresh_gfwlist_def d option.case m sum.case by (intro exI) (rule refl)
  then obtain fs' g' where r: "refresh_gfwlist go_regexp (\<lambda>u. Some ''fHxhLmNu'') (\<lambda>f. True) (\<lambda>f. None) ?g = (fs', Inr g')"
    by blast
  have f: "g_gfwlist_file ?g = ''f''" "g_gfwlist_file ?g \<noteq> []" by simp_all
  from gfwlist_file_roundtrip [OF r d f(2) TrueI] r show ?thesis unfolding f(1) by blast
qed

text \<open>Stopping a group: one that was never started ignores it, a running one stops, and
  stopping it a second time closes a closed channel, which is a panic.\<close>

theorem group_stop_twice_panics:
  "(\<not> gl_started l \<longrightarrow> group_stop l = Some l) \<and>
   (\<not> gl_stop_closed l \<longrightarrow>
      (\<exists>l'. group_stop (group_start l) = Some l' \<and> \<not> gl_callers_running l' \<and> group_stop l' = None))"
  by (simp add: group_stop_def group_start_def)

theorem group_stop_twice_panics_witness:
  "Option.bind (group_stop (group_start \<lparr>gl_started = False, gl_stop_closed = False, gl_callers_running = False\<rparr>))
     group_stop = None"
  using group_stop_twice_panics [of "\<lparr>gl_started = False, gl_stop_closed = False, gl_callers_running = False\<rparr>"]
  by auto

end
