(* ===== verification/Config.thy ===== *)
theory Config
  imports Prelude
begin

section \<open>Configuration (\<open>config/config.go\<close>, \<open>normalizeConf\<close> of \<open>cmd/main.go\<close>)\<close>

text \<open>
  The configuration structures, field by field, the two predicates on a group, the custom
  YAML conversion of string lists, and the normalisation that is applied after a file is
  read. Reading the YAML itself is the library's: a node is what it hands over, and decoding
  a sequence into a list of strings is a parameter.
\<close>

subsection \<open>Structures\<close>

record global_conf =
  gc_http_timeout :: int
  gc_timeout :: int

record cache_conf =
  cc_size :: int
  cc_min_ttl :: int
  cc_max_ttl :: int

record group_conf =
  gr_disable_ipv6 :: bool
  gr_disable_qtypes :: "string list"
  gr_ecs :: string
  gr_no_cookie :: bool
  gr_rules :: "string list"
  gr_rules_file :: string
  gr_gfwlist_file :: string
  gr_gfwlist_url :: string
  gr_gfwlist_update :: string
  gr_fallback :: bool
  gr_socks5 :: string
  gr_dns :: "string list"
  gr_dot :: "string list"
  gr_doh :: "string list"
  gr_hijack :: "string list"
  gr_fastest_ip :: bool
  gr_tcp_ping_port :: int
  gr_ping_timeout_ms :: int
  gr_ping_max_ips :: int
  gr_ipset :: string
  gr_ipset6 :: string
  gr_ipset_ttl :: int
  gr_redirector :: string

definition empty_group_conf :: group_conf where
  "empty_group_conf = \<lparr>gr_disable_ipv6 = False, gr_disable_qtypes = [], gr_ecs = [],
     gr_no_cookie = False, gr_rules = [], gr_rules_file = [], gr_gfwlist_file = [],
     gr_gfwlist_url = [], gr_gfwlist_update = [], gr_fallback = False, gr_socks5 = [],
     gr_dns = [], gr_dot = [], gr_doh = [], gr_hijack = [], gr_fastest_ip = False,
     gr_tcp_ping_port = 0, gr_ping_timeout_ms = 0, gr_ping_max_ips = 0, gr_ipset = [],
     gr_ipset6 = [], gr_ipset_ttl = 0, gr_redirector = []\<rparr>"

record redirector_conf =
  rd_type :: string
  rd_rules :: "string list"
  rd_rules_file :: string
  rd_dst_group :: string

record conf =
  cf_hosts_files :: "string list"
  cf_hosts :: "string \<rightharpoonup> string list"
  cf_cache :: cache_conf
  cf_global :: global_conf
  cf_groups :: "string \<rightharpoonup> group_conf"
  cf_disable_ipv6 :: bool
  cf_disable_qtypes :: "string list"
  cf_redirectors :: "string \<rightharpoonup> redirector_conf"
  cf_listen :: string
  cf_query_timeout :: int
  cf_ssl_cert_file :: string
  cf_ssl_key_file :: string
  cf_listen_doh_http :: int

definition is_set_gfwlist :: "group_conf \<Rightarrow> bool" where
  "is_set_gfwlist g \<longleftrightarrow> gr_gfwlist_file g \<noteq> [] \<or> gr_gfwlist_url g \<noteq> []"

definition is_empty_rule :: "group_conf \<Rightarrow> bool" where
  "is_empty_rule g \<longleftrightarrow> length (gr_rules g) = 0 \<and> gr_rules_file g = [] \<and> \<not> is_set_gfwlist g"

subsection \<open>String lists in YAML\<close>

datatype yaml_node = Scalar_Node string | Sequence_Node "yaml_node list" | Other_Node string

datatype yaml_error = Decode_Error | Cannot_Unmarshal string

definition unmarshal_slice :: "(yaml_node list \<Rightarrow> string list option) \<Rightarrow> yaml_node \<Rightarrow> yaml_error + string list" where
  "unmarshal_slice decode v =
     (case v of
        Scalar_Node t \<Rightarrow> Inr [t]
      | Sequence_Node ns \<Rightarrow>
          (case decode ns of None \<Rightarrow> Inl Decode_Error | Some ts \<Rightarrow> Inr ts)
      | Other_Node tag \<Rightarrow> Inl (Cannot_Unmarshal tag))"

definition marshal_slice :: "string list \<Rightarrow> yaml_node" where
  "marshal_slice s =
     (if length s = 1 then Scalar_Node (s ! 0) else Sequence_Node (map Scalar_Node s))"

subsection \<open>Normalisation\<close>

definition normalize_conf :: "conf \<Rightarrow> conf" where
  "normalize_conf c =
     (if cf_query_timeout c \<le> 0 \<and> gc_timeout (cf_global c) > 0
      then c\<lparr>cf_query_timeout := gc_timeout (cf_global c)\<rparr> else c)"

subsection \<open>Properties\<close>

text \<open>A string list that is written to YAML and read back is the same list, for every
  length, when the library decodes a sequence of scalars to their texts.\<close>

theorem slice_roundtrip:
  assumes "\<And>ts. decode (map Scalar_Node ts) = Some ts"
  shows "unmarshal_slice decode (marshal_slice s) = Inr s"
proof (cases "length s = 1")
  case True
  then obtain t where "s = [t]" by (auto simp: length_Suc_conv)
  then show ?thesis by (simp add: marshal_slice_def unmarshal_slice_def)
next
  case False
  then show ?thesis using assms by (simp add: marshal_slice_def unmarshal_slice_def)
qed

definition decode_scalars :: "yaml_node list \<Rightarrow> string list option" where
  "decode_scalars ns =
     those (map (\<lambda>n. case n of Scalar_Node t \<Rightarrow> Some t | _ \<Rightarrow> None) ns)"

lemma decode_scalars_ok: "decode_scalars (map Scalar_Node ts) = Some ts"
  by (induction ts) (simp_all add: decode_scalars_def comp_def)

theorem slice_roundtrip_witness:
  "unmarshal_slice decode_scalars (marshal_slice [''1.1.1.1'']) = Inr [''1.1.1.1''] \<and>
   marshal_slice [''1.1.1.1''] = Scalar_Node ''1.1.1.1'' \<and>
   unmarshal_slice decode_scalars (marshal_slice [''a'', ''b'']) = Inr [''a'', ''b'']"
  using slice_roundtrip [OF decode_scalars_ok, of "[''1.1.1.1'']"]
    slice_roundtrip [OF decode_scalars_ok, of "[''a'', ''b'']"]
  by (simp add: marshal_slice_def)

end
