(* ===== verification/Go_Time.thy ===== *)
theory Go_Time
  imports Go_Strings
begin

section \<open>Durations (\<open>time.ParseDuration\<close>)\<close>

text \<open>
  The parser of the standard library, with its overflow checks on unsigned 64-bit
  numbers. A fraction is scaled in floating point; that product is the argument \<open>frac\<close>.
\<close>

definition max_uint63 :: nat where "max_uint63 = 9223372036854775808"

definition is_num :: "char \<Rightarrow> bool" where
  "is_num c \<longleftrightarrow> c = CHR ''.'' \<or> is_digit c"

text \<open>\<open>leadingInt\<close>: the number and the rest; \<open>None\<close> on overflow.\<close>

fun leading_int :: "nat \<Rightarrow> string \<Rightarrow> (nat \<times> string) option" where
  "leading_int v [] = Some (v, [])"
| "leading_int v (c # s) =
     (if \<not> is_digit c then Some (v, c # s)
      else if v > max_uint63 div 10 then None
      else let v' = v * 10 + digit_val c
           in if v' > max_uint63 then None else leading_int v' s)"

text \<open>\<open>leadingFraction\<close>: the digits as long as they fit, their scale, and the rest.\<close>

fun leading_fraction :: "nat \<Rightarrow> nat \<Rightarrow> bool \<Rightarrow> string \<Rightarrow> nat \<times> nat \<times> string" where
  "leading_fraction v scale over [] = (v, scale, [])"
| "leading_fraction v scale over (c # s) =
     (if \<not> is_digit c then (v, scale, c # s)
      else if over then leading_fraction v scale over s
      else if v > (max_uint63 - 1) div 10 then leading_fraction v scale True s
      else let v' = v * 10 + digit_val c
           in if v' > max_uint63 then leading_fraction v scale True s
              else leading_fraction v' (scale * 10) False s)"

definition unit_of :: "string \<Rightarrow> nat option" where
  "unit_of u =
     (if u = ''ns'' then Some 1
      else if u = ''us'' \<or> u = [CHR 0xC2, CHR 0xB5, CHR ''s''] \<or> u = [CHR 0xCE, CHR 0xBC, CHR ''s'']
        then Some 1000
      else if u = ''ms'' then Some 1000000
      else if u = ''s'' then Some 1000000000
      else if u = ''m'' then Some 60000000000
      else if u = ''h'' then Some 3600000000000
      else None)"

text \<open>One number with its unit: its value in nanoseconds and the rest of the text.\<close>

definition parse_item :: "(nat \<Rightarrow> nat \<Rightarrow> nat \<Rightarrow> nat) \<Rightarrow> string \<Rightarrow> (nat \<times> string) option" where
  "parse_item frac s =
     (case s of
        [] \<Rightarrow> None
      | c # _ \<Rightarrow>
          if \<not> is_num c then None
          else case leading_int 0 s of
              None \<Rightarrow> None
            | Some (v, s1) \<Rightarrow>
                let pre = length s1 \<noteq> length s;
                    (f, scale, s2, post) =
                      (case s1 of
                         [] \<Rightarrow> (0, 1, s1, False)
                       | d # t \<Rightarrow>
                           if d = CHR ''.'' then
                             (case leading_fraction 0 1 False t of (f, sc, u) \<Rightarrow> (f, sc, u, length u \<noteq> length t))
                           else (0, 1, s1, False))
                in if \<not> pre \<and> \<not> post then None
                   else
                     let u = takeWhile (\<lambda>c. \<not> is_num c) s2; rest = dropWhile (\<lambda>c. \<not> is_num c) s2
                     in if u = [] then None
                        else case unit_of u of
                            None \<Rightarrow> None
                          | Some un \<Rightarrow>
                              if v > max_uint63 div un then None
                              else
                                let w = v * un; w = (if f > 0 then w + frac f un scale else w)
                                in if w > max_uint63 then None else Some (w, rest))"

text \<open>The loop; each item consumes at least its unit, so the length of the text is enough fuel.\<close>

fun parse_items :: "(nat \<Rightarrow> nat \<Rightarrow> nat \<Rightarrow> nat) \<Rightarrow> nat \<Rightarrow> nat \<Rightarrow> string \<Rightarrow> nat option" where
  "parse_items frac fuel d [] = Some d"
| "parse_items frac 0 d (c # s) = None"
| "parse_items frac (Suc fuel) d (c # s) =
     (case parse_item frac (c # s) of
        None \<Rightarrow> None
      | Some (v, rest) \<Rightarrow> if d + v > max_uint63 then None else parse_items frac fuel (d + v) rest)"

definition time_parse_duration :: "(nat \<Rightarrow> nat \<Rightarrow> nat \<Rightarrow> nat) \<Rightarrow> string \<Rightarrow> int option" where
  "time_parse_duration frac s =
     (let (neg, t) = (case s of
            c # r \<Rightarrow> if c = CHR ''-'' \<or> c = CHR ''+'' then (c = CHR ''-'', r) else (False, s)
          | [] \<Rightarrow> (False, s))
      in if t = ''0'' then Some 0
         else if t = [] then None
         else case parse_items frac (length t) 0 t of
             None \<Rightarrow> None
           | Some d \<Rightarrow>
               if neg then Some (- int d)
               else if d > max_uint63 - 1 then None
               else Some (int d))"

subsection \<open>Lemmas\<close>

lemma leading_int_rest: "leading_int v s = Some (n, r) \<Longrightarrow> length r \<le> length s"
  by (induction v s rule: leading_int.induct) (auto simp: Let_def split: if_splits)

lemma leading_fraction_rest: "leading_fraction v sc ov s = (f, sc', r) \<Longrightarrow> length r \<le> length s"
  by (induction v sc ov s rule: leading_fraction.induct) (auto simp: Let_def split: if_splits)

lemma val_dec_le: "a \<le> val_dec a s"
  by (induction a s rule: val_dec.induct) auto

lemma leading_int_digits:
  assumes "\<forall>c \<in> set ds. is_digit c" "val_dec v ds < max_uint63 div 10" "r = [] \<or> \<not> is_digit (hd r)"
  shows "leading_int v (ds @ r) = Some (val_dec v ds, r)"
  using assms(1,2)
proof (induction ds arbitrary: v)
  case Nil
  with assms(3) show ?case by (cases r) auto
next
  case (Cons c ds)
  let ?v = "10 * v + digit_val c"
  have le: "?v \<le> val_dec ?v ds" by (rule val_dec_le)
  have "leading_int ?v (ds @ r) = Some (val_dec ?v ds, r)"
    using Cons.prems by (intro Cons.IH) auto
  moreover have "\<not> v > max_uint63 div 10" "\<not> ?v > max_uint63"
    using le Cons.prems(2) by (auto simp: max_uint63_def)
  ultimately show ?case using Cons.prems(1) by (simp add: Let_def mult.commute)
qed

text \<open>A whole number of minutes or hours.\<close>

lemma parse_whole:
  assumes "unit_of [u] = Some un" "\<not> is_num u" "n * un < max_uint63" "n < max_uint63 div 10" "0 < n"
  shows "time_parse_duration frac (dec_nat n @ [u]) = Some (int (n * un))"
proof -
  let ?s = "dec_nat n @ [u]"
  have un: "0 < un" using assms(1) by (auto simp: unit_of_def split: if_splits)
  have dig: "\<forall>c \<in> set (dec_nat n). is_digit c" by (rule dec_nat_digits)
  obtain c t where ct: "dec_nat n = c # t" by (cases "dec_nat n") auto
  then have c: "is_digit c" using dig by auto
  have nd: "\<not> is_digit u" "u \<noteq> CHR ''.''" using assms(2) by (auto simp: is_num_def)
  have li: "leading_int 0 ?s = Some (n, [u])"
    using leading_int_digits [of "dec_nat n" 0 "[u]"] dig nd assms(4) by (simp add: val_dec_nat max_uint63_def)
  have item: "parse_item frac ?s = Some (n * un, [])"
  proof -
    have "\<not> n > max_uint63 div un"
      using assms(3) un by (simp add: not_less less_eq_div_iff_mult_less_eq)
    then show ?thesis
      using c nd li assms(1,3) unfolding ct
      by (simp add: parse_item_def is_num_def Let_def del: leading_int.simps)
  qed
  have "parse_items frac (length ?s) 0 ?s = Some (n * un)"
    using ct item assms(3) by simp
  moreover have "c \<noteq> CHR ''-''" "c \<noteq> CHR ''+''"
    using c by (auto simp: is_digit_def less_eq_char_def)
  moreover have "?s \<noteq> ''0''" using ct by simp
  ultimately show ?thesis
    using ct assms(3) by (simp add: time_parse_duration_def)
qed

end
