(* ===== verification/Group_Build.thy ===== *)
theory Group_Build
  imports Group_Impl Config Go_Time
begin

section \<open>Building the groups (\<open>BuildGroups\<close> of \<open>outbound/groups.go\<close>)\<close>

text \<open>
  From the configuration to the groups. The loop visits the configured groups in an
  unspecified order; the file system, the expression engine, the order in which a matcher's
  trie is walked, the SOCKS5 and ipset constructors and \<open>url.Parse\<close> are the environment.
\<close>

record build_env =
  be_engine :: regexp_engine
  be_lib :: dns_lib
  be_fs :: file_system
  be_walk :: "(string \<times> bool) list list \<Rightarrow> (string \<times> bool) list list"
  be_socks5 :: "string \<Rightarrow> bool"
  be_ipset :: "string \<Rightarrow> bool \<Rightarrow> int \<Rightarrow> bool"
  be_url :: "string \<Rightarrow> parsed_url option"
  be_frac :: "nat \<Rightarrow> nat \<Rightarrow> nat \<Rightarrow> nat"

text \<open>The errors \<open>BuildGroups\<close> returns; \<open>Build_Panic\<close> is no error but a panic on the way.\<close>

datatype build_error =
    Two_Fallbacks | Two_Gfwlists | Bad_Update string | Unknown_Qtype string | Rules_File_Error string
  | Gfwlist_Error | Ecs_Error string | Socks5_Error string | Doh_Error string | Ipset_Error string
  | Build_Panic panic

subsection \<open>Durations and addresses\<close>

datatype duration_error = Empty_Duration | Bad_Duration | Duration_Overflow | Not_Positive

definition parse_duration :: "(nat \<Rightarrow> nat \<Rightarrow> nat \<Rightarrow> nat) \<Rightarrow> string \<Rightarrow> duration_error + duration" where
  "parse_duration frac s =
     (if s = [] then Inl Empty_Duration
      else
        let sfx = last s; num = butlast s;
            checked = (\<lambda>d. if d \<le> 0 then Inl Not_Positive else Inr d)
        in if sfx = CHR ''m'' then
             (case time_parse_duration frac (num @ ''m'') of None \<Rightarrow> Inl Bad_Duration | Some d \<Rightarrow> checked d)
           else if sfx = CHR ''h'' then
             (case time_parse_duration frac (num @ ''h'') of None \<Rightarrow> Inl Bad_Duration | Some d \<Rightarrow> checked d)
           else if sfx = CHR ''d'' then
             (case time_parse_duration frac (num @ ''h'') of
                None \<Rightarrow> Inl Bad_Duration
              | Some d \<Rightarrow>
                  if d > (2 ^ 63 - 1) div 24 then Inl Duration_Overflow else checked (wrap64 (d * 24)))
           else (case time_parse_duration frac s of None \<Rightarrow> Inl Bad_Duration | Some d \<Rightarrow> checked d))"

definition ensure_port :: "string \<Rightarrow> string \<Rightarrow> string" where
  "ensure_port addr default_port =
     (case split_host_port addr of
        Some _ \<Rightarrow> addr
      | None \<Rightarrow> join_host_port (trim (\<lambda>c. c = CHR ''['' \<or> c = CHR '']'') addr) default_port)"

subsection \<open>One group\<close>

definition hijack_rule_of :: "dns_lib \<Rightarrow> string \<Rightarrow> hijack_rule option" where
  "hijack_rule_of L rule =
     (case split_on CHR ''/'' rule of
        [a, source, dest, b] \<Rightarrow>
          if a \<noteq> [] \<or> b \<noteq> [] then None
          else if source = [] \<or> dest = [] then None
          else if \<not> str_contains source ''.'' \<or> \<not> str_contains dest ''.'' then None
          else Some \<lparr>hj_source = lib_fqdn L source, hj_dest = lib_fqdn L dest\<rparr>
      | _ \<Rightarrow> None)"

definition disable_types :: "dns_lib \<Rightarrow> bool \<Rightarrow> string list \<Rightarrow> string + u16 set" where
  "disable_types L disable_ipv6 types =
     fold_r (\<lambda>t s. case lib_string_to_type L (to_upper t) of
                    None \<Rightarrow> Inl (to_upper t)
                  | Some q \<Rightarrow> Inr (insert q s))
       types (if disable_ipv6 then {type_AAAA} else {})"

definition dns_callers :: "string option \<Rightarrow> string list \<Rightarrow> caller list" where
  "dns_callers proxy addrs =
     concat (map (\<lambda>a.
       let (addr, network) = (if suffix ''/tcp'' a then (take (length a - 4) a, ''tcp'') else (a, ''udp''))
       in if addr \<noteq> [] then [DNSCaller (new_dns_caller (ensure_port addr ''53'') network proxy)] else []) addrs)"

definition dot_callers :: "string option \<Rightarrow> string list \<Rightarrow> caller list" where
  "dot_callers proxy addrs =
     concat (map (\<lambda>a.
       case split_on CHR ''@'' a of
         [addr, server_name] \<Rightarrow>
           if addr \<noteq> [] \<and> server_name \<noteq> []
           then [DNSCaller (new_dot_caller (ensure_port addr ''853'') server_name proxy)] else []
       | _ \<Rightarrow> []) addrs)"

definition doh_callers :: "(string \<Rightarrow> parsed_url option) \<Rightarrow> string option \<Rightarrow> string list \<Rightarrow> build_error + caller list" where
  "doh_callers url_parse proxy addrs =
     fold_r (\<lambda>a cs. case new_doh_caller url_parse a proxy of
                     Inl _ \<Rightarrow> Inl (Doh_Error a)
                   | Inr c \<Rightarrow> Inr (cs @ [DoHCallerV2 c])) addrs []"

definition index_callers :: "caller list \<Rightarrow> indexed_caller list" where
  "index_callers cs = map (\<lambda>(i, c). \<lparr>ic_caller = c, ic_index = int i\<rparr>) (zip [0..<length cs] cs)"

definition open_ipset :: "build_env \<Rightarrow> string \<Rightarrow> bool \<Rightarrow> int \<Rightarrow> build_error + ipset option" where
  "open_ipset env name inet6 ttl =
     (if name = [] then Inr None
      else if be_ipset env name inet6 ttl then Inr (Some \<lparr>is_name = name, is_timeout = ttl\<rparr>)
      else Inl (Ipset_Error name))"

definition panics :: "panic + 'a \<Rightarrow> build_error + 'a" where
  "panics r = (case r of Inl p \<Rightarrow> Inl (Build_Panic p) | Inr x \<Rightarrow> Inr x)"

definition read_matcher :: "build_env \<Rightarrow> group_conf \<Rightarrow> build_error + abplus" where
  "read_matcher env c =
     and_then (panics (new_abp_by_text (be_engine env) (join [newline] (gr_rules c))))
       (\<lambda>m. if gr_rules_file c = [] then Inr m
            else case new_abp_by_file (be_engine env) (be_fs env) (gr_rules_file c) False of
                Inl _ \<Rightarrow> Inl (Rules_File_Error (gr_rules_file c))
              | Inr r \<Rightarrow> and_then (panics r) (\<lambda>f. Inr (extend_abp (be_engine env) (be_walk env) m (Some f))))"

definition read_gfwlist :: "build_env \<Rightarrow> group_conf \<Rightarrow> build_error + abplus option" where
  "read_gfwlist env c =
     (if gr_gfwlist_file c = [] then Inr None
      else case new_abp_by_file (be_engine env) (be_fs env) (gr_gfwlist_file c) True of
          Inl _ \<Rightarrow> Inl Gfwlist_Error
        | Inr r \<Rightarrow> and_then (panics r) (\<lambda>m. Inr (Some m)))"

definition build_group :: "build_env \<Rightarrow> string \<Rightarrow> group_conf \<Rightarrow> build_error + group" where
  "build_group env name c =
     and_then (if gr_gfwlist_update c = [] then Inr hour
               else case parse_duration (be_frac env) (gr_gfwlist_update c) of
                   Inl _ \<Rightarrow> Inl (Bad_Update (gr_gfwlist_update c)) | Inr d \<Rightarrow> Inr d) (\<lambda>period.
     and_then (case disable_types (be_lib env) (gr_disable_ipv6 c) (gr_disable_qtypes c) of
                 Inl t \<Rightarrow> Inl (Unknown_Qtype t) | Inr s \<Rightarrow> Inr s) (\<lambda>types.
     and_then (read_matcher env c) (\<lambda>m.
     and_then (read_gfwlist env c) (\<lambda>gfw.
     and_then (if gr_ecs c = [] then Inr None
               else case parse_ecs (gr_ecs c) of Inl _ \<Rightarrow> Inl (Ecs_Error (gr_ecs c)) | Inr e \<Rightarrow> Inr e) (\<lambda>ecs.
     and_then (if gr_socks5 c = [] then Inr None
               else if be_socks5 env (gr_socks5 c) then Inr (Some (gr_socks5 c))
               else Inl (Socks5_Error (gr_socks5 c))) (\<lambda>proxy.
     and_then (doh_callers (be_url env) proxy (gr_doh c)) (\<lambda>doh.
     and_then (open_ipset env (gr_ipset c) False (gr_ipset_ttl c)) (\<lambda>is4.
     and_then (open_ipset env (gr_ipset6 c) True (gr_ipset_ttl c)) (\<lambda>is6.
       Inr \<lparr>g_name = name, g_fallback = gr_fallback c, g_disable_qtypes = types, g_matcher = m,
            g_gfwlist = gfw, g_gfwlist_url = gr_gfwlist_url c, g_gfwlist_file = gr_gfwlist_file c,
            g_gfwlist_period = period, g_no_cookie = gr_no_cookie c, g_with_ecs = ecs, g_proxy = proxy,
            g_hijack_rules = List.map_filter (hijack_rule_of (be_lib env)) (gr_hijack c),
            g_fastest_ip = gr_fastest_ip c, g_tcp_ping_port = gr_tcp_ping_port c,
            g_ping_timeout = gr_ping_timeout_ms c, g_max_ping_ips = gr_ping_max_ips c,
            g_pool = new_pool (index_callers
              (dns_callers proxy (gr_dns c) @ dot_callers proxy (gr_dot c) @ doh)),
            g_ipset = is4, g_ipset6 = is6, g_ipset_ch = [], g_started = False\<rparr>)))))))))"

subsection \<open>All groups\<close>

record build_state =
  bs_groups :: "string \<rightharpoonup> group"
  bs_seen_gfwlist :: bool
  bs_seen_fallback :: bool

text \<open>A group without rules becomes a fallback group.\<close>

definition effective_conf :: "group_conf \<Rightarrow> group_conf" where
  "effective_conf c = (if is_empty_rule c then c\<lparr>gr_fallback := True\<rparr> else c)"

definition build_step :: "build_env \<Rightarrow> string \<times> group_conf \<Rightarrow> build_state \<Rightarrow> build_error + build_state" where
  "build_step env nc st =
     (case nc of (name, conf) \<Rightarrow>
        let c = effective_conf conf
        in if gr_fallback c \<and> bs_seen_fallback st then Inl Two_Fallbacks
           else if is_set_gfwlist c \<and> bs_seen_gfwlist st then Inl Two_Gfwlists
           else and_then (build_group env name c)
                  (\<lambda>g. Inr \<lparr>bs_groups = (bs_groups st)(name \<mapsto> g),
                            bs_seen_gfwlist = bs_seen_gfwlist st \<or> is_set_gfwlist c,
                            bs_seen_fallback = bs_seen_fallback st \<or> gr_fallback c\<rparr>))"

definition build_groups :: "build_env \<Rightarrow> (string \<times> group_conf) list \<Rightarrow> build_error + (string \<rightharpoonup> group)" where
  "build_groups env visit =
     and_then (fold_r (build_step env) visit
         \<lparr>bs_groups = Map.empty, bs_seen_gfwlist = False, bs_seen_fallback = False\<rparr>)
       (\<lambda>st. Inr (bs_groups st))"

subsection \<open>Host and port\<close>

lemma last_index_last: "d \<notin> set ys \<Longrightarrow> last_index (xs @ d # ys) d = Some (length xs)"
proof (induction xs)
  case Nil
  then have "last_index ys d = None" by simp
  then show ?case by (simp del: last_index_None)
qed auto

lemma str_index_first: "c \<notin> set xs \<Longrightarrow> str_index (xs @ c # ys) [c] = Some (length xs)"
  by (induction xs) auto

definition no_brackets :: "string \<Rightarrow> bool" where
  "no_brackets s \<longleftrightarrow> CHR ''['' \<notin> set s \<and> CHR '']'' \<notin> set s"

lemma split_join_host_port:
  assumes "no_brackets h" "no_brackets p" "CHR '':'' \<notin> set p"
  shows "split_host_port (join_host_port h p) = Some (h, p)"
proof (cases "CHR '':'' \<in> set h")
  case False
  have "last_index (h @ CHR '':'' # p) CHR '':'' = Some (length h)" by (rule last_index_last [OF assms(3)])
  moreover have "\<not> prefix ''['' (h @ CHR '':'' # p)" using assms(1) by (cases h) (auto simp: no_brackets_def)
  ultimately show ?thesis
    using False assms by (simp add: join_host_port_def split_host_port_def no_brackets_def)
next
  case True
  let ?s = "''['' @ h @ '']:'' @ p"
  have "last_index (?s) CHR '':'' = Some (length h + 2)"
    using last_index_last [OF assms(3), of "''['' @ h @ '']''"] by simp
  moreover have "str_index ?s '']'' = Some (length h + 1)"
    using str_index_first [of "CHR '']''" "''['' @ h" "'':'' @ p"] assms(1) by (simp add: no_brackets_def)
  ultimately show ?thesis
    using True assms by (simp add: join_host_port_def split_host_port_def no_brackets_def)
qed

subsection \<open>What a built group looks like\<close>

lemma parse_duration_positive: "parse_duration frac s = Inr d \<Longrightarrow> 0 < d"
  by (auto simp: parse_duration_def Let_def split: if_splits option.splits)

lemma index_callers_ok: "callers_ok (index_callers cs)"
  by (simp add: callers_ok_def index_callers_def list_all_iff)

lemma read_gfwlist_some: "read_gfwlist env c = Inr gfw \<Longrightarrow> gfw \<noteq> None \<longleftrightarrow> gr_gfwlist_file c \<noteq> []"
  by (auto simp: read_gfwlist_def and_then_Inr split: if_splits sum.splits)

lemma hijack_rule_of_parts:
  "hijack_rule_of L rule = Some r \<Longrightarrow>
   \<exists>source dest. rule = ''/'' @ source @ ''/'' @ dest @ ''/'' \<and>
     source \<noteq> [] \<and> dest \<noteq> [] \<and> str_contains source ''.'' \<and> str_contains dest ''.'' \<and>
     r = \<lparr>hj_source = lib_fqdn L source, hj_dest = lib_fqdn L dest\<rparr>"
proof -
  assume h: "hijack_rule_of L rule = Some r"
  then obtain source dest where sp: "split_on CHR ''/'' rule = [[], source, dest, []]"
    "source \<noteq> []" "dest \<noteq> []" "str_contains source ''.''" "str_contains dest ''.''"
    "r = \<lparr>hj_source = lib_fqdn L source, hj_dest = lib_fqdn L dest\<rparr>"
    by (auto simp: hijack_rule_of_def split: list.splits if_splits)
  have "rule = join ''/'' [[], source, dest, []]" using join_split_on [of "CHR ''/''" rule] sp(1) by simp
  with sp show ?thesis by auto
qed

definition group_built :: "dns_lib \<Rightarrow> string \<Rightarrow> group_conf \<Rightarrow> group \<Rightarrow> bool" where
  "group_built L name c g \<longleftrightarrow>
     g_name g = name \<and> g_fallback g = gr_fallback c \<and>
     (has_gfwlist g \<longleftrightarrow> is_set_gfwlist c) \<and> 0 < g_gfwlist_period g \<and>
     (\<exists>cs. g_pool g = new_pool cs \<and> callers_ok cs) \<and>
     (\<forall>r \<in> set (g_hijack_rules g). \<exists>s d. str_contains s ''.'' \<and> str_contains d ''.'' \<and>
        ''/'' @ s @ ''/'' @ d @ ''/'' \<in> set (gr_hijack c) \<and>
        r = \<lparr>hj_source = lib_fqdn L s, hj_dest = lib_fqdn L d\<rparr>) \<and>
     g_ipset_ch g = [] \<and> \<not> g_started g"

lemma build_group_built:
  assumes "build_group env name c = Inr g"
  shows "group_built (be_lib env) name c g"
proof -
  from assms obtain period types m gfw ecs proxy doh is4 is6 where
    period: "(if gr_gfwlist_update c = [] then Inr hour
               else case parse_duration (be_frac env) (gr_gfwlist_update c) of
                   Inl _ \<Rightarrow> Inl (Bad_Update (gr_gfwlist_update c)) | Inr d \<Rightarrow> Inr d) = Inr period"
    and gfw: "read_gfwlist env c = Inr gfw"
    and g: "g = \<lparr>g_name = name, g_fallback = gr_fallback c, g_disable_qtypes = types, g_matcher = m,
            g_gfwlist = gfw, g_gfwlist_url = gr_gfwlist_url c, g_gfwlist_file = gr_gfwlist_file c,
            g_gfwlist_period = period, g_no_cookie = gr_no_cookie c, g_with_ecs = ecs, g_proxy = proxy,
            g_hijack_rules = List.map_filter (hijack_rule_of (be_lib env)) (gr_hijack c),
            g_fastest_ip = gr_fastest_ip c, g_tcp_ping_port = gr_tcp_ping_port c,
            g_ping_timeout = gr_ping_timeout_ms c, g_max_ping_ips = gr_ping_max_ips c,
            g_pool = new_pool (index_callers
              (dns_callers proxy (gr_dns c) @ dot_callers proxy (gr_dot c) @ doh)),
            g_ipset = is4, g_ipset6 = is6, g_ipset_ch = [], g_started = False\<rparr>"
    unfolding build_group_def and_then_Inr by blast
  have p: "0 < period" using period parse_duration_positive [of "be_frac env" "gr_gfwlist_update c"]
    by (auto simp: hour_def minute_def split: if_splits sum.splits)
  have h: "\<exists>s d. str_contains s ''.'' \<and> str_contains d ''.'' \<and>
        ''/'' @ s @ ''/'' @ d @ ''/'' \<in> set (gr_hijack c) \<and>
        r = \<lparr>hj_source = lib_fqdn (be_lib env) s, hj_dest = lib_fqdn (be_lib env) d\<rparr>"
    if "r \<in> set (g_hijack_rules g)" for r
  proof -
    from that obtain rule where r: "rule \<in> set (gr_hijack c)" "hijack_rule_of (be_lib env) rule = Some r"
      by (auto simp: g List.map_filter_def)
    from hijack_rule_of_parts [OF r(2)] r(1) show ?thesis by metis
  qed
  show ?thesis
    unfolding group_built_def
    using p h read_gfwlist_some [OF gfw] index_callers_ok
    by (auto simp: g has_gfwlist_def is_set_gfwlist_def)
qed

subsection \<open>The loop\<close>

definition built :: "build_env \<Rightarrow> string \<times> group_conf \<Rightarrow> build_error + group" where
  "built env nc = build_group env (fst nc) (effective_conf (snd nc))"

definition wants_fallback :: "string \<times> group_conf \<Rightarrow> bool" where
  "wants_fallback nc \<longleftrightarrow> gr_fallback (effective_conf (snd nc))"

definition wants_gfwlist :: "string \<times> group_conf \<Rightarrow> bool" where
  "wants_gfwlist nc \<longleftrightarrow> is_set_gfwlist (effective_conf (snd nc))"

definition room :: "bool \<Rightarrow> nat" where
  "room seen = (if seen then 0 else 1)"

lemma build_loop:
  "fold_r (build_step env) visit st = Inr st' \<longleftrightarrow>
     (\<forall>nc \<in> set visit. \<exists>g. built env nc = Inr g) \<and>
     length (filter wants_fallback visit) \<le> room (bs_seen_fallback st) \<and>
     length (filter wants_gfwlist visit) \<le> room (bs_seen_gfwlist st) \<and>
     st' = \<lparr>bs_groups = upd_all (map (\<lambda>nc. (fst nc, projr (built env nc))) visit) (bs_groups st),
            bs_seen_gfwlist = bs_seen_gfwlist st \<or> list_ex wants_gfwlist visit,
            bs_seen_fallback = bs_seen_fallback st \<or> list_ex wants_fallback visit\<rparr>"
proof (induction visit arbitrary: st)
  case Nil
  then show ?case by auto
next
  case (Cons nc visit)
  let ?s = "\<lambda>g. \<lparr>bs_groups = (bs_groups st)(fst nc \<mapsto> g),
      bs_seen_gfwlist = bs_seen_gfwlist st \<or> wants_gfwlist nc,
      bs_seen_fallback = bs_seen_fallback st \<or> wants_fallback nc\<rparr>"
  have step: "build_step env nc st = Inr s \<longleftrightarrow>
      \<not> (wants_fallback nc \<and> bs_seen_fallback st) \<and> \<not> (wants_gfwlist nc \<and> bs_seen_gfwlist st) \<and>
      (\<exists>g. built env nc = Inr g \<and> s = ?s g)" for s
    by (cases nc) (auto simp: build_step_def Let_def built_def wants_fallback_def wants_gfwlist_def and_then_Inr)
  show ?case
  proof (cases "built env nc")
    case (Inl e)
    then show ?thesis by (auto simp: and_then_Inr step)
  next
    case (Inr g)
    have "fold_r (build_step env) (nc # visit) st = Inr st' \<longleftrightarrow>
      \<not> (wants_fallback nc \<and> bs_seen_fallback st) \<and> \<not> (wants_gfwlist nc \<and> bs_seen_gfwlist st) \<and>
      fold_r (build_step env) visit (?s g) = Inr st'"
      using Inr by (auto simp: and_then_Inr step)
    then show ?thesis unfolding Cons.IH using Inr
      by (cases "wants_fallback nc"; cases "wants_gfwlist nc"; cases "bs_seen_fallback st"; cases "bs_seen_gfwlist st")
        (auto simp: room_def)
  qed
qed

lemma filter_le_room: "length (filter P xs) \<le> room False \<longleftrightarrow> length (filter P xs) \<le> 1"
  by (simp add: room_def)

lemma filter_card:
  assumes "enumerates visit m"
  shows "length (filter P visit) = card {name. \<exists>c. m name = Some c \<and> P (name, c)}"
proof -
  have "distinct (map fst (filter P visit))"
    using assms by (simp add: enumerates_def distinct_map_filter)
  then have "length (filter P visit) = card (fst ` set (filter P visit))"
    by (metis distinct_card length_map set_map)
  also have "fst ` set (filter P visit) = {name. \<exists>c. m name = Some c \<and> P (name, c)}"
    using enumerates_set [OF assms] by force
  finally show ?thesis .
qed

lemma effective_gfwlist [simp]: "is_set_gfwlist (effective_conf c) = is_set_gfwlist c"
  by (simp add: effective_conf_def is_set_gfwlist_def)

lemma visited_groups:
  assumes "enumerates visit m"
  shows "upd_all (map (\<lambda>nc. (fst nc, projr (built env nc))) visit) Map.empty =
    (\<lambda>name. map_option (\<lambda>c. projr (build_group env name (effective_conf c))) (m name))"
proof -
  let ?kvs = "map (\<lambda>nc. (fst nc, projr (built env nc))) visit"
  let ?gs = "\<lambda>name. map_option (\<lambda>c. projr (build_group env name (effective_conf c))) (m name)"
  have "(name, g) \<in> set ?kvs \<longleftrightarrow> ?gs name = Some g" for name g
    using enumerates_set [OF assms, of name] by (auto simp: built_def image_iff) (metis fst_conv snd_conv)
  then show ?thesis using upd_all_graph [of ?kvs ?gs Map.empty] by simp
qed

text \<open>What the groups that are built are, and that only one is a fallback group.\<close>

lemma build_groups_groups:
  assumes "build_groups env visit = Inr gs" "enumerates visit m"
  shows "dom gs = dom m" "gs k = Some g \<Longrightarrow> g_name g = k"
    "gs k = Some g \<Longrightarrow> gs k' = Some g' \<Longrightarrow> g_fallback g \<Longrightarrow> g_fallback g' \<Longrightarrow> k' = k"
proof -
  from assms(1) have all: "\<forall>nc \<in> set visit. \<exists>g. built env nc = Inr g"
    and one: "length (filter wants_fallback visit) \<le> 1"
    and gs: "gs = (\<lambda>name. map_option (\<lambda>c. projr (build_group env name (effective_conf c))) (m name))"
    using visited_groups [OF assms(2), of env]
    by (auto simp: build_groups_def and_then_Inr build_loop room_def)
  have grp: "\<exists>c. (k, c) \<in> set visit \<and> group_built (be_lib env) k (effective_conf c) g" if "gs k = Some g" for k g
  proof -
    from that gs obtain c where c: "m k = Some c" "g = projr (build_group env k (effective_conf c))" by auto
    then have "(k, c) \<in> set visit" using enumerates_set [OF assms(2)] by simp
    with all c(2) have "build_group env k (effective_conf c) = Inr g" by (auto simp: built_def)
    from build_group_built [OF this] \<open>(k, c) \<in> set visit\<close> show ?thesis by blast
  qed
  show "dom gs = dom m" by (auto simp: gs dom_def)
  show "gs k = Some g \<Longrightarrow> g_name g = k" using grp by (auto simp: group_built_def)
  show "k' = k" if g: "gs k = Some g" "gs k' = Some g'" "g_fallback g" "g_fallback g'"
  proof -
    from grp [OF g(1)] g(3) obtain c where c: "(k, c) \<in> set (filter wants_fallback visit)"
      by (auto simp: group_built_def wants_fallback_def)
    from grp [OF g(2)] g(4) obtain c' where c': "(k', c') \<in> set (filter wants_fallback visit)"
      by (auto simp: group_built_def wants_fallback_def)
    from one c c' show ?thesis
      by (cases "filter wants_fallback visit") (auto simp del: set_filter)
  qed
qed

subsection \<open>A sample configuration\<close>

definition sample_env :: build_env where
  "sample_env = \<lparr>be_engine = go_regexp, be_lib = plain_lib,
     be_fs = (\<lambda>f. if f = ''ts-dns.yaml'' then Some ''conf'' else None), be_walk = (\<lambda>ks. ks),
     be_socks5 = (\<lambda>s. False), be_ipset = (\<lambda>n inet6 ttl. True), be_url = (\<lambda>s. None), be_frac = (\<lambda>a b c. 0)\<rparr>"

definition sample_confs :: "(string \<times> group_conf) list" where
  "sample_confs =
     [(''cn'', empty_group_conf\<lparr>gr_rules := [''a.test''], gr_dns := [''192.0.2.53''],
         gr_hijack := [''/x.test/y.test/'', ''/x/y.test/'']\<rparr>),
      (''all'', empty_group_conf\<lparr>gr_dns := [''192.0.2.54:5353/tcp'']\<rparr>)]"

lemma sample_enumerates: "enumerates sample_confs (map_of sample_confs)"
  by (simp add: enumerates_def sample_confs_def)

lemma sample_builds: "\<exists>gs. build_groups sample_env sample_confs = Inr gs"
proof -
  have "(case build_groups sample_env sample_confs of Inl e \<Rightarrow> False | Inr gs \<Rightarrow> True) = True" by code_simp
  then show ?thesis by (auto split: sum.splits)
qed

subsection \<open>Properties\<close>

text \<open>C27: Which configurations are accepted, and what is built, does not depend on the order in
  which the map of groups is visited: the groups are built exactly when each one can be
  built on its own, at most one of them is a fallback group (declared, or because it has no
  rules) and at most one uses a rule list; and then every name has its own group.\<close>

theorem build_groups_spec:
  assumes "enumerates visit m"
  shows "build_groups env visit = Inr gs \<longleftrightarrow>
    (\<forall>name c. m name = Some c \<longrightarrow> (\<exists>g. build_group env name (effective_conf c) = Inr g)) \<and>
    card {name. \<exists>c. m name = Some c \<and> gr_fallback (effective_conf c)} \<le> 1 \<and>
    card {name. \<exists>c. m name = Some c \<and> is_set_gfwlist c} \<le> 1 \<and>
    gs = (\<lambda>name. map_option (\<lambda>c. projr (build_group env name (effective_conf c))) (m name))"
proof -
  let ?kvs = "map (\<lambda>nc. (fst nc, projr (built env nc))) visit"
  note u = visited_groups [OF assms, of env]
  have all: "(\<forall>nc \<in> set visit. \<exists>g. built env nc = Inr g) \<longleftrightarrow>
      (\<forall>name c. m name = Some c \<longrightarrow> (\<exists>g. build_group env name (effective_conf c) = Inr g))"
  proof
    assume a: "\<forall>nc \<in> set visit. \<exists>g. built env nc = Inr g"
    show "\<forall>name c. m name = Some c \<longrightarrow> (\<exists>g. build_group env name (effective_conf c) = Inr g)"
    proof (intro allI impI)
      fix name c
      assume "m name = Some c"
      then have "(name, c) \<in> set visit" by (simp add: enumerates_set [OF assms])
      with a show "\<exists>g. build_group env name (effective_conf c) = Inr g"
        by (metis built_def fst_conv snd_conv)
    qed
  next
    assume "\<forall>name c. m name = Some c \<longrightarrow> (\<exists>g. build_group env name (effective_conf c) = Inr g)"
    then show "\<forall>nc \<in> set visit. \<exists>g. built env nc = Inr g"
      using enumerates_set [OF assms] by (auto simp: built_def)
  qed
  have "build_groups env visit = Inr gs \<longleftrightarrow>
      (\<forall>nc \<in> set visit. \<exists>g. built env nc = Inr g) \<and>
      length (filter wants_fallback visit) \<le> 1 \<and> length (filter wants_gfwlist visit) \<le> 1 \<and>
      gs = upd_all ?kvs Map.empty"
    by (auto simp: build_groups_def and_then_Inr build_loop room_def)
  then show ?thesis
    unfolding all u filter_card [OF assms] by (simp add: wants_fallback_def wants_gfwlist_def)
qed

theorem build_groups_spec_witness:
  "\<exists>gs. build_groups sample_env sample_confs = Inr gs \<and> gs ''other'' = None \<and>
     gs ''cn'' = Some (projr (build_group sample_env ''cn'' (effective_conf (snd (sample_confs ! 0)))))"
proof -
  obtain gs where gs: "build_groups sample_env sample_confs = Inr gs" using sample_builds by blast
  with build_groups_spec [OF sample_enumerates, of sample_env gs]
  have g: "gs = (\<lambda>name. map_option (\<lambda>c. projr (build_group sample_env name (effective_conf c))) (map_of sample_confs name))"
    by blast
  have "gs ''other'' = None" "gs ''cn'' = Some (projr (build_group sample_env ''cn'' (effective_conf (snd (sample_confs ! 0)))))"
    by (simp_all add: g sample_confs_def)
  with gs show ?thesis by blast
qed

text \<open>C28: Every group that is built is well formed: it carries its key as its name, is a
  fallback group if configured or without rules, counts as having a rule list exactly when
  a file or a URL is configured, has callers numbered by their position and no statistics,
  a positive update period, only hijack rules written as /source/dest/ with two dotted
  domains, an empty queue, and is not started.\<close>

theorem built_groups_well_formed:
  assumes "build_groups env visit = Inr gs" "gs name = Some g"
  shows "\<exists>c. (name, c) \<in> set visit \<and> group_built (be_lib env) name (effective_conf c) g \<and>
    (is_empty_rule c \<longrightarrow> g_fallback g)"
proof -
  let ?kvs = "map (\<lambda>nc. (fst nc, projr (built env nc))) visit"
  from assms(1) have b: "\<forall>nc \<in> set visit. \<exists>g. built env nc = Inr g" "gs = upd_all ?kvs Map.empty"
    by (auto simp: build_groups_def and_then_Inr build_loop)
  from assms(2) b(2) have "map_of (rev ?kvs) name = Some g" by (simp add: upd_all_map_of_rev)
  then have "(name, g) \<in> set ?kvs" by (auto dest: map_of_SomeD)
  then obtain c where c: "(name, c) \<in> set visit" "g = projr (built env (name, c))" by auto
  with b(1) have "build_group env name (effective_conf c) = Inr g" by (auto simp: built_def)
  from build_group_built [OF this] have w: "group_built (be_lib env) name (effective_conf c) g" .
  then have "is_empty_rule c \<longrightarrow> g_fallback g" by (simp add: group_built_def effective_conf_def)
  with c(1) w show ?thesis by blast
qed

theorem built_groups_well_formed_witness:
  "\<exists>gs g. build_groups sample_env sample_confs = Inr gs \<and> gs ''all'' = Some g \<and> g_fallback g \<and> \<not> has_gfwlist g"
proof -
  obtain gs where gs: "build_groups sample_env sample_confs = Inr gs" using sample_builds by blast
  have "(case build_groups sample_env sample_confs of Inl e \<Rightarrow> False | Inr gs \<Rightarrow> gs ''all'' \<noteq> None) = True"
    by code_simp
  with gs obtain g where g: "gs ''all'' = Some g" by auto
  from built_groups_well_formed [OF gs g] obtain c where
    c: "(''all'', c) \<in> set sample_confs" "group_built plain_lib ''all'' (effective_conf c) g"
    "is_empty_rule c \<longrightarrow> g_fallback g"
    by (auto simp: sample_env_def)
  from c(1) have e: "is_empty_rule c" "\<not> is_set_gfwlist c"
    by (auto simp: sample_confs_def empty_group_conf_def is_empty_rule_def is_set_gfwlist_def)
  from c(2) e(2) have "\<not> has_gfwlist g" by (simp add: group_built_def)
  with gs g c(3) e(1) show ?thesis by blast
qed



text \<open>A server address gets a port exactly when it has none: one with a port is kept, and
  one without, bare or in brackets, is given the default port for the same host, so a
  second pass changes nothing.\<close>

theorem ensure_port_spec:
  assumes "no_brackets (trim (\<lambda>c. c = CHR ''['' \<or> c = CHR '']'') addr)" "no_brackets port" "CHR '':'' \<notin> set port"
  shows "(\<forall>hp. split_host_port addr = Some hp \<longrightarrow> ensure_port addr port = addr) \<and>
    (split_host_port addr = None \<longrightarrow>
       split_host_port (ensure_port addr port) = Some (trim (\<lambda>c. c = CHR ''['' \<or> c = CHR '']'') addr, port)) \<and>
    ensure_port (ensure_port addr port) port = ensure_port addr port"
  using split_join_host_port [OF assms] by (auto simp: ensure_port_def split: option.splits)

theorem ensure_port_spec_witness:
  "split_host_port (ensure_port ''[2001:db8::1]'' ''53'') = Some (''2001:db8::1'', ''53'') \<and>
   ensure_port ''192.0.2.1:5353'' ''53'' = ''192.0.2.1:5353''"
proof -
  have t: "trim (\<lambda>c. c = CHR ''['' \<or> c = CHR '']'') ''[2001:db8::1]'' = ''2001:db8::1''"
    "trim (\<lambda>c. c = CHR ''['' \<or> c = CHR '']'') ''192.0.2.1:5353'' = ''192.0.2.1:5353''" by code_simp+
  have s: "split_host_port ''[2001:db8::1]'' = None"
    "split_host_port ''192.0.2.1:5353'' = Some (''192.0.2.1'', ''5353'')" by code_simp+
  have "no_brackets ''2001:db8::1''" "no_brackets ''192.0.2.1:5353''" "no_brackets ''53''" "CHR '':'' \<notin> set ''53''"
    by (simp_all add: no_brackets_def)
  with ensure_port_spec [of "''[2001:db8::1]''" "''53''"] ensure_port_spec [of "''192.0.2.1:5353''" "''53''"] t s
  show ?thesis by simp
qed

end
