(* ===== verification/Dns_Cache.thy ===== *)
theory Dns_Cache
  imports Config Utils_Dns
begin

section \<open>The response cache (\<open>cache/dns.go\<close>)\<close>

text \<open>
  The cache keeps, per question, the last response with the second it was stored and the
  second it expires. The store behind it is the Ristretto library: its operations are a
  record the definitions take, and what the theorems rely on is \<open>ristretto_law\<close>. The store
  may drop any entry at any time. A question index out of range (a message without a
  question) is a panic, here the result \<open>None\<close>.
\<close>

subsection \<open>State\<close>

record cache_item =
  ci_resp :: dns_msg
  ci_cached_at :: int
  ci_expired_at :: int

record 's ristretto =
  rt_new :: "int \<Rightarrow> int \<Rightarrow> 's option"
  rt_get :: "'s \<Rightarrow> time \<Rightarrow> string \<Rightarrow> cache_item option"
  rt_set :: "'s \<Rightarrow> time \<Rightarrow> string \<Rightarrow> cache_item \<Rightarrow> duration \<Rightarrow> 's"
  rt_del :: "'s \<Rightarrow> string \<Rightarrow> 's"

text \<open>
  Documented behaviour: a new store is empty; after a \<open>Set\<close> a key has nothing, what it had,
  or, if it is the key that was set, the new value; after a \<open>Del\<close> the key has nothing.
\<close>

definition ristretto_law :: "'s ristretto \<Rightarrow> bool" where
  "ristretto_law R \<longleftrightarrow>
     (\<forall>n m s t k. rt_new R n m = Some s \<longrightarrow> rt_get R s t k = None) \<and>
     (\<forall>s t k v d t' k' w. rt_get R (rt_set R s t k v d) t' k' = Some w \<longrightarrow>
        rt_get R s t' k' = Some w \<or> k' = k \<and> w = v) \<and>
     (\<forall>s k t' k' w. rt_get R (rt_del R s k) t' k' = Some w \<longrightarrow>
        rt_get R s t' k' = Some w \<and> k' \<noteq> k)"

lemma ristretto_new: "ristretto_law R \<Longrightarrow> rt_new R n m = Some s \<Longrightarrow> rt_get R s t k = None"
  unfolding ristretto_law_def by metis

lemma ristretto_set:
  "ristretto_law R \<Longrightarrow> rt_get R (rt_set R s t k v d) t' k' = Some w \<Longrightarrow>
   rt_get R s t' k' = Some w \<or> k' = k \<and> w = v"
  unfolding ristretto_law_def by metis

lemma ristretto_del:
  "ristretto_law R \<Longrightarrow> rt_get R (rt_del R s k) t' k' = Some w \<Longrightarrow>
   rt_get R s t' k' = Some w \<and> k' \<noteq> k"
  unfolding ristretto_law_def by metis

record 's dns_cache =
  dc_store :: "'s option"
  dc_max_size :: int
  dc_min_ttl :: duration
  dc_max_ttl :: duration

datatype cache_error = Min_Larger_Than_Max int int | Store_Error

definition default_min_ttl :: duration where "default_min_ttl = minute"
definition default_max_ttl :: duration where "default_max_ttl = 24 * hour"

definition conf_min_ttl :: "cache_conf \<Rightarrow> duration" where
  "conf_min_ttl c = (if cc_min_ttl c > 0 then wrap64 (second * cc_min_ttl c) else default_min_ttl)"

definition conf_max_ttl :: "cache_conf \<Rightarrow> duration" where
  "conf_max_ttl c = (if cc_max_ttl c > 0 then wrap64 (second * cc_max_ttl c) else default_max_ttl)"

definition new_dns_cache :: "'s ristretto \<Rightarrow> cache_conf \<Rightarrow> cache_error + 's dns_cache" where
  "new_dns_cache R c =
     (let min_ttl = conf_min_ttl c; max_ttl = conf_max_ttl c
      in if min_ttl > max_ttl then Inl (Min_Larger_Than_Max (cc_min_ttl c) (cc_max_ttl c))
         else if cc_size c \<le> 0 then
           Inr \<lparr>dc_store = None, dc_max_size = 0, dc_min_ttl = 0, dc_max_ttl = 0\<rparr>
         else case rt_new R (wrap64 (cc_size c * 10)) (cc_size c) of
             None \<Rightarrow> Inl Store_Error
           | Some s \<Rightarrow> Inr \<lparr>dc_store = Some s, dc_max_size = cc_size c,
                           dc_min_ttl = min_ttl, dc_max_ttl = max_ttl\<rparr>)"

subsection \<open>Keys\<close>

definition key_text :: "string \<Rightarrow> u16 \<Rightarrow> string \<Rightarrow> string" where
  "key_text name qtype subnet =
     to_lower (name @ dec_nat (unat qtype) @ (if subnet \<noteq> [] then ''.'' @ subnet else []))"

definition cache_key :: "dns_msg \<Rightarrow> string option" where
  "cache_key req =
     (case msg_question req of
        [] \<Rightarrow> None
      | q # _ \<Rightarrow> Some (key_text (q_name q) (q_type q) (format_ecs (Some req))))"

subsection \<open>Get\<close>

text \<open>The countdown loop: \<open>None\<close> when a record has no time left.\<close>

fun countdown :: "int \<Rightarrow> rr list \<Rightarrow> rr list option" where
  "countdown elapsed [] = Some []"
| "countdown elapsed (a # as) =
     (let answer_ttl = uint (hdr_ttl (hdr a)) - elapsed
      in if answer_ttl \<le> 0 then None
         else map_option (\<lambda>as'. set_ttl (of_int answer_ttl) a # as') (countdown elapsed as))"

definition is_address :: "rr \<Rightarrow> bool" where
  "is_address r \<longleftrightarrow> hdr_rrtype (hdr r) = type_A \<or> hdr_rrtype (hdr r) = type_AAAA"

definition ip_idx :: "rr list \<Rightarrow> nat list" where
  "ip_idx as = filter (\<lambda>i. is_address (as ! i)) [0..<length as]"

text \<open>
  The Fisher-Yates loop from position \<open>i\<close> of the index list down to 1; \<open>draw n\<close> is the
  random number below \<open>n\<close>.
\<close>

fun shuffle_loop :: "(nat \<Rightarrow> nat) \<Rightarrow> nat list \<Rightarrow> nat \<Rightarrow> rr list \<Rightarrow> rr list" where
  "shuffle_loop draw idx 0 as = as"
| "shuffle_loop draw idx (Suc i) as =
     shuffle_loop draw idx i (swap as (idx ! Suc i) (idx ! draw (Suc i + 1)))"

definition shuffle_ips :: "(nat \<Rightarrow> nat) \<Rightarrow> rr list \<Rightarrow> rr list" where
  "shuffle_ips draw as = shuffle_loop draw (ip_idx as) (length (ip_idx as) - 1) as"

definition cache_get ::
  "'s ristretto \<Rightarrow> dns_lib \<Rightarrow> (nat \<Rightarrow> nat) \<Rightarrow> time \<Rightarrow> 's dns_cache \<Rightarrow> dns_msg \<Rightarrow>
   (dns_msg option \<times> 's dns_cache) option"
where
  "cache_get R L draw t c req =
     (if dc_max_size c \<le> 0 then Some (None, c)
      else case dc_store c of
          None \<Rightarrow> Some (None, c)
        | Some s \<Rightarrow>
            (case cache_key req of
               None \<Rightarrow> None
             | Some key \<Rightarrow>
                 (case rt_get R s t key of
                    None \<Rightarrow> Some (None, c)
                  | Some item \<Rightarrow>
                      let now = unix t;
                          deleted = c\<lparr>dc_store := Some (rt_del R s key)\<rparr>
                      in if ci_expired_at item - now \<le> 0 then Some (None, deleted)
                         else
                           let r = lib_set_reply L (ci_resp item) req;
                               elapsed = now - ci_cached_at item;
                               elapsed = (if elapsed < 0 then 0 else elapsed)
                           in (case countdown elapsed (msg_answer r) of
                                 None \<Rightarrow> Some (None, deleted)
                               | Some as \<Rightarrow>
                                   Some (Some (r\<lparr>msg_answer := shuffle_ips draw as\<rparr>), c)))))"

subsection \<open>Set\<close>

definition clamp_ttl :: "duration \<Rightarrow> duration \<Rightarrow> u32 \<Rightarrow> duration" where
  "clamp_ttl min_ttl max_ttl t =
     (let ttl = wrap64 (uint t * second);
          ttl = (if ttl < min_ttl then min_ttl else ttl)
      in if ttl > max_ttl then max_ttl else ttl)"

fun clamp_loop :: "duration \<Rightarrow> duration \<Rightarrow> duration \<Rightarrow> rr list \<Rightarrow> rr list \<times> duration" where
  "clamp_loop min_ttl max_ttl expire [] = ([], expire)"
| "clamp_loop min_ttl max_ttl expire (a # as) =
     (let ttl = clamp_ttl min_ttl max_ttl (hdr_ttl (hdr a));
          (as', e) = clamp_loop min_ttl max_ttl (if ttl < expire then ttl else expire) as
      in (set_ttl (of_int (ttl div second)) a # as', e))"

definition make_item :: "duration \<Rightarrow> duration \<Rightarrow> time \<Rightarrow> dns_msg \<Rightarrow> cache_item \<times> duration" where
  "make_item min_ttl max_ttl now resp =
     (let (as, expire) = clamp_loop min_ttl max_ttl max_ttl (msg_answer resp)
      in (\<lparr>ci_resp = resp\<lparr>msg_answer := as\<rparr>, ci_cached_at = unix now,
           ci_expired_at = unix (now + expire)\<rparr>, expire))"

definition cache_set ::
  "'s ristretto \<Rightarrow> time \<Rightarrow> 's dns_cache \<Rightarrow> dns_msg \<Rightarrow> dns_msg option \<Rightarrow> 's dns_cache option"
where
  "cache_set R t c req resp =
     (if dc_max_size c \<le> 0 then Some c
      else case (dc_store c, resp) of
          (Some s, Some m) \<Rightarrow>
            if length (msg_answer m) = 0 then Some c
            else
              let (item, expire) = make_item (dc_min_ttl c) (dc_max_ttl c) t m
              in (case cache_key req of
                    None \<Rightarrow> None
                  | Some key \<Rightarrow> Some (c\<lparr>dc_store := Some (rt_set R s t key item expire)\<rparr>))
        | _ \<Rightarrow> Some c)"

text \<open>A history of operations on a cache.\<close>

datatype cache_op =
    Op_Get time dns_msg "nat \<Rightarrow> nat"
  | Op_Set time dns_msg "dns_msg option"

fun cache_step :: "'s ristretto \<Rightarrow> dns_lib \<Rightarrow> cache_op \<Rightarrow> 's dns_cache \<Rightarrow> 's dns_cache option" where
  "cache_step R L (Op_Get t req draw) c = map_option snd (cache_get R L draw t c req)"
| "cache_step R L (Op_Set t req resp) c = cache_set R t c req resp"

fun cache_run :: "'s ristretto \<Rightarrow> dns_lib \<Rightarrow> cache_op list \<Rightarrow> 's dns_cache \<Rightarrow> 's dns_cache option" where
  "cache_run R L [] c = Some c"
| "cache_run R L (op # ops) c =
     (case cache_step R L op c of None \<Rightarrow> None | Some c' \<Rightarrow> cache_run R L ops c')"

lemma cache_run_append:
  "cache_run R L (ops @ ops') c = (case cache_run R L ops c of None \<Rightarrow> None | Some c' \<Rightarrow> cache_run R L ops' c')"
proof (induction ops arbitrary: c)
  case (Cons op ops)
  then show ?case by (cases "cache_step R L op c") simp_all
qed simp

subsection \<open>Countdown and shuffle\<close>

lemma countdown_eq:
  "countdown e as =
     (if \<exists>a \<in> set as. uint (hdr_ttl (hdr a)) \<le> e then None
      else Some (map (\<lambda>a. set_ttl (of_int (uint (hdr_ttl (hdr a)) - e)) a) as))"
  by (induction as) (auto simp: Let_def)

lemma ip_idx_bound: "j \<in> set (ip_idx as) \<Longrightarrow> j < length as \<and> is_address (as ! j)"
  by (auto simp: ip_idx_def)

lemma shuffle_loop_spec:
  assumes "\<And>n. 0 < n \<Longrightarrow> draw n < n"
    and "\<forall>j \<in> set idx. j < length as" and "i < length idx \<or> i = 0"
  shows "mset (shuffle_loop draw idx i as) = mset as \<and>
         (\<forall>k. k \<notin> set idx \<longrightarrow> shuffle_loop draw idx i as ! k = as ! k)"
  using assms(2,3)
proof (induction i arbitrary: as)
  case 0
  then show ?case by simp
next
  case (Suc i)
  then have i: "Suc i < length idx" by simp
  have d: "draw (Suc i + 1) < length idx" using assms(1) [of "Suc i + 1"] i by linarith
  let ?a = "idx ! Suc i" and ?b = "idx ! draw (Suc i + 1)"
  have ab: "?a < length as" "?b < length as" "?a \<in> set idx" "?b \<in> set idx"
    using Suc.prems(1) i d by auto
  have IH: "mset (shuffle_loop draw idx i (swap as ?a ?b)) = mset (swap as ?a ?b) \<and>
    (\<forall>k. k \<notin> set idx \<longrightarrow> shuffle_loop draw idx i (swap as ?a ?b) ! k = swap as ?a ?b ! k)"
    by (rule Suc.IH) (use Suc.prems(1) i in auto)
  have keep: "swap as ?a ?b ! k = as ! k" if "k \<notin> set idx" for k
    by (rule nth_swap_other) (use ab that in blast)+
  show ?case using IH ab keep by (simp add: mset_swap_positions)
qed

lemma shuffle_ips_mset:
  assumes "\<And>n. 0 < n \<Longrightarrow> draw n < n"
  shows "mset (shuffle_ips draw as) = mset as"
  unfolding shuffle_ips_def
  by (rule conjunct1 [OF shuffle_loop_spec [OF assms]]) (auto simp: ip_idx_bound intro: diff_less)

lemma shuffle_ips_other:
  assumes "\<And>n. 0 < n \<Longrightarrow> draw n < n" "k < length as" "\<not> is_address (as ! k)"
  shows "shuffle_ips draw as ! k = as ! k"
proof -
  have "k \<notin> set (ip_idx as)" using assms(3) by (auto simp: ip_idx_def)
  moreover have "\<forall>k. k \<notin> set (ip_idx as) \<longrightarrow> shuffle_ips draw as ! k = as ! k"
    unfolding shuffle_ips_def
    by (rule conjunct2 [OF shuffle_loop_spec [OF assms(1)]]) (auto simp: ip_idx_bound intro: diff_less)
  ultimately show ?thesis by blast
qed

lemma length_shuffle_loop [simp]: "length (shuffle_loop draw idx i as) = length as"
  by (induction i arbitrary: as) simp_all

lemma length_shuffle_ips [simp]: "length (shuffle_ips draw as) = length as"
  by (simp add: shuffle_ips_def)

subsection \<open>Clamping\<close>

text \<open>The bounds in seconds, and what they mean for a configuration that fits 32 bits.\<close>

definition min_secs :: "cache_conf \<Rightarrow> int" where
  "min_secs c = (if cc_min_ttl c > 0 then cc_min_ttl c else 60)"

definition max_secs :: "cache_conf \<Rightarrow> int" where
  "max_secs c = (if cc_max_ttl c > 0 then cc_max_ttl c else 86400)"

definition conf_fits :: "cache_conf \<Rightarrow> bool" where
  "conf_fits c \<longleftrightarrow> cc_min_ttl c < 2 ^ 32 \<and> cc_max_ttl c < 2 ^ 32"

definition clamp_secs :: "int \<Rightarrow> int \<Rightarrow> int \<Rightarrow> int" where
  "clamp_secs a b t = (if t < a then a else if b < t then b else t)"

lemma wrap64_seconds: "0 \<le> n \<Longrightarrow> n < 2 ^ 32 \<Longrightarrow> wrap64 (second * n) = second * n"
  by (rule wrap64_id) (simp_all add: second_def)

lemma conf_ttl_secs:
  assumes "conf_fits c"
  shows "conf_min_ttl c = second * min_secs c" "conf_max_ttl c = second * max_secs c"
    "1 \<le> min_secs c" "min_secs c < 2 ^ 32" "1 \<le> max_secs c" "max_secs c < 2 ^ 32"
  using assms wrap64_seconds [of "cc_min_ttl c"] wrap64_seconds [of "cc_max_ttl c"]
  by (auto simp: conf_fits_def conf_min_ttl_def conf_max_ttl_def min_secs_def max_secs_def
      default_min_ttl_def default_max_ttl_def minute_def hour_def)

lemma uint_u32: "0 \<le> x \<Longrightarrow> x < 2 ^ 32 \<Longrightarrow> uint (word_of_int x :: u32) = x"
  by (simp add: uint_word_of_int)

lemma clamp_ttl_secs:
  assumes "a \<le> b"
  shows "clamp_ttl (second * a) (second * b) t = second * clamp_secs a b (uint t)"
proof -
  have "uint t < 2 ^ 32" using uint_lt2p [of t] by simp
  then have "wrap64 (uint t * second) = second * uint t"
    using wrap64_seconds [of "uint t"] by (simp add: mult.commute)
  with assms show ?thesis by (auto simp: clamp_ttl_def clamp_secs_def Let_def)
qed

lemma clamp_secs_bounds: "a \<le> b \<Longrightarrow> a \<le> clamp_secs a b t \<and> clamp_secs a b t \<le> b"
  by (auto simp: clamp_secs_def)

lemma fst_clamp_loop:
  "fst (clamp_loop mn mx e as) =
     map (\<lambda>a. set_ttl (of_int (clamp_ttl mn mx (hdr_ttl (hdr a)) div second)) a) as"
  by (induction as arbitrary: e) (simp_all add: Let_def split_beta)

lemma snd_clamp_loop:
  "snd (clamp_loop mn mx e as) = Min (set (e # map (\<lambda>a. clamp_ttl mn mx (hdr_ttl (hdr a))) as))"
proof (induction as arbitrary: e)
  case (Cons a as)
  let ?t = "clamp_ttl mn mx (hdr_ttl (hdr a))"
  have "snd (clamp_loop mn mx e (a # as)) = snd (clamp_loop mn mx (min e ?t) as)"
    by (auto simp: Let_def split_beta min_def)
  with Cons.IH [of "min e ?t"] show ?case by (cases "as = []") (auto simp: ac_simps)
qed simp

text \<open>A record as it is stored, and as it is served \<open>elapsed\<close> seconds later.\<close>

definition aged :: "cache_conf \<Rightarrow> int \<Rightarrow> rr \<Rightarrow> rr" where
  "aged cc elapsed a =
     set_ttl (of_int (clamp_secs (min_secs cc) (max_secs cc) (uint (hdr_ttl (hdr a))) - elapsed)) a"

lemma snd_clamp_loop_secs:
  assumes "a \<le> b" "as \<noteq> []"
  shows "snd (clamp_loop (second * a) (second * b) (second * b) as) =
         second * Min (set (map (\<lambda>r. clamp_secs a b (uint (hdr_ttl (hdr r)))) as))"
proof -
  let ?s = "set (map (\<lambda>r. clamp_secs a b (uint (hdr_ttl (hdr r)))) as)"
  have m: "mono (\<lambda>x::int. second * x)"
    by (rule monoI) (simp add: second_def)
  have "snd (clamp_loop (second * a) (second * b) (second * b) as) =
    Min ((\<lambda>x. second * x) ` insert b ?s)"
    unfolding snd_clamp_loop clamp_ttl_secs [OF assms(1)] by (simp add: image_image)
  also have "\<dots> = second * Min (insert b ?s)"
    using mono_Min_commute [OF m, of "insert b ?s"] by simp
  also have "Min (insert b ?s) = Min ?s"
  proof -
    obtain x where "x \<in> ?s" using assms(2) by (cases as) auto
    moreover from this have "x \<le> b" using clamp_secs_bounds [OF assms(1)] by auto
    ultimately have "Min ?s \<le> b" by (meson List.finite_set Min_le order_trans)
    then show ?thesis using assms(2) by (subst Min_insert) auto
  qed
  finally show ?thesis .
qed

text \<open>The item that is stored: every record at its clamped TTL, expiring with the shortest.\<close>

lemma make_item_secs:
  assumes "conf_fits cc" "min_secs cc \<le> max_secs cc" "msg_answer p \<noteq> []"
    and it_def: "it = fst (make_item (conf_min_ttl cc) (conf_max_ttl cc) t p)"
  shows "msg_answer (ci_resp it) = map (aged cc 0) (msg_answer p)"
    and "ci_cached_at it = unix t"
    and "ci_expired_at it = unix t +
      Min (set (map (\<lambda>r. uint (hdr_ttl (hdr r))) (msg_answer (ci_resp it))))"
    and "\<forall>r \<in> set (msg_answer (ci_resp it)).
      min_secs cc \<le> uint (hdr_ttl (hdr r)) \<and> uint (hdr_ttl (hdr r)) \<le> max_secs cc"
proof -
  note c = conf_ttl_secs [OF assms(1)]
  let ?cs = "\<lambda>r. clamp_secs (min_secs cc) (max_secs cc) (uint (hdr_ttl (hdr r)))"
  have b: "min_secs cc \<le> ?cs r \<and> ?cs r \<le> max_secs cc" for r
    by (rule clamp_secs_bounds [OF assms(2)])
  have s: "(second * n) div second = n" for n :: int by (simp add: second_def)
  show ans: "msg_answer (ci_resp it) = map (aged cc 0) (msg_answer p)"
    unfolding it_def make_item_def split_beta Let_def
    by (simp add: fst_clamp_loop c clamp_ttl_secs [OF assms(2)] s aged_def)
  have u: "uint (hdr_ttl (hdr (aged cc 0 r))) = ?cs r" for r
    using b [of r] c(3,6) by (simp add: aged_def uint_u32)
  show "ci_cached_at it = unix t"
    unfolding it_def make_item_def split_beta Let_def by simp
  have "ci_expired_at it =
    unix (t + snd (clamp_loop (second * min_secs cc) (second * max_secs cc) (second * max_secs cc) (msg_answer p)))"
    unfolding it_def make_item_def split_beta Let_def by (simp add: c)
  also have "\<dots> = unix t + Min (set (map ?cs (msg_answer p)))"
    unfolding snd_clamp_loop_secs [OF assms(2,3)] mult.commute [of second "Min _"] by (rule unix_add_seconds)
  finally show "ci_expired_at it = unix t +
      Min (set (map (\<lambda>r. uint (hdr_ttl (hdr r))) (msg_answer (ci_resp it))))"
    by (simp add: ans u image_image)
  show "\<forall>r \<in> set (msg_answer (ci_resp it)).
      min_secs cc \<le> uint (hdr_ttl (hdr r)) \<and> uint (hdr_ttl (hdr r)) \<le> max_secs cc"
    using b by (auto simp: ans u)
qed

subsection \<open>Provenance\<close>

text \<open>
  What a get can return: an item made by an earlier set with the same key.
\<close>

definition provenance :: "'s ristretto \<Rightarrow> cache_conf \<Rightarrow> cache_op list \<Rightarrow> 's dns_cache \<Rightarrow> bool" where
  "provenance R cc ops c \<longleftrightarrow>
     (dc_store c \<noteq> None \<longrightarrow> dc_min_ttl c = conf_min_ttl cc \<and> dc_max_ttl c = conf_max_ttl cc) \<and>
     (\<forall>s t k v. dc_store c = Some s \<and> rt_get R s t k = Some v \<longrightarrow>
        (\<exists>t0 q p. Op_Set t0 q (Some p) \<in> set ops \<and> cache_key q = Some k \<and> msg_answer p \<noteq> [] \<and>
           v = fst (make_item (conf_min_ttl cc) (conf_max_ttl cc) t0 p)))"

lemma provenance_new:
  assumes "ristretto_law R" "new_dns_cache R cc = Inr c"
  shows "provenance R cc [] c"
proof (cases "dc_store c")
  case None
  then show ?thesis by (simp add: provenance_def)
next
  case (Some s)
  with assms(2) have "rt_new R (wrap64 (cc_size cc * 10)) (cc_size cc) = Some s"
    and "dc_min_ttl c = conf_min_ttl cc" "dc_max_ttl c = conf_max_ttl cc"
    by (auto simp: new_dns_cache_def Let_def split: if_splits option.splits)
  with Some ristretto_new [OF assms(1)] show ?thesis by (simp add: provenance_def)
qed

lemma provenance_mono: "provenance R cc ops c \<Longrightarrow> set ops \<subseteq> set ops' \<Longrightarrow> provenance R cc ops' c"
  unfolding provenance_def by blast

lemma cache_get_state:
  assumes "cache_get R L draw t c req = Some (r, c')"
  shows "c' = c \<or> (\<exists>s k. dc_store c = Some s \<and> c' = c\<lparr>dc_store := Some (rt_del R s k)\<rparr>)"
  using assms by (auto simp: cache_get_def Let_def split: if_splits option.splits)

lemma provenance_get:
  assumes "ristretto_law R" "provenance R cc ops c" "cache_get R L draw t c req = Some (r, c')"
  shows "provenance R cc ops c'"
  using cache_get_state [OF assms(3)]
proof
  assume "\<exists>s k. dc_store c = Some s \<and> c' = c\<lparr>dc_store := Some (rt_del R s k)\<rparr>"
  then obtain s k where s: "dc_store c = Some s" "c' = c\<lparr>dc_store := Some (rt_del R s k)\<rparr>" by blast
  have "rt_get R s t' k' = Some w" if "rt_get R (rt_del R s k) t' k' = Some w" for t' k' w
    using ristretto_del [OF assms(1) that] by simp
  with assms(2) s show ?thesis unfolding provenance_def by (auto; blast)
qed (use assms(2) in simp)

lemma cache_set_state:
  assumes "cache_set R t c req resp = Some c'"
  shows "c' = c \<or>
    (\<exists>s m k. dc_store c = Some s \<and> resp = Some m \<and> msg_answer m \<noteq> [] \<and> cache_key req = Some k \<and>
       c' = c\<lparr>dc_store := Some (rt_set R s t k
          (fst (make_item (dc_min_ttl c) (dc_max_ttl c) t m))
          (snd (make_item (dc_min_ttl c) (dc_max_ttl c) t m)))\<rparr>)"
  using assms by (auto simp: cache_set_def Let_def split_beta split: if_splits option.splits)

lemma provenance_set:
  assumes "ristretto_law R" "provenance R cc ops c" "cache_set R t c req resp = Some c'"
  shows "provenance R cc (ops @ [Op_Set t req resp]) c'"
  using cache_set_state [OF assms(3)]
proof
  assume "c' = c"
  with assms(2) show ?thesis by (auto intro: provenance_mono)
next
  assume "\<exists>s m k. dc_store c = Some s \<and> resp = Some m \<and> msg_answer m \<noteq> [] \<and> cache_key req = Some k \<and>
       c' = c\<lparr>dc_store := Some (rt_set R s t k
          (fst (make_item (dc_min_ttl c) (dc_max_ttl c) t m))
          (snd (make_item (dc_min_ttl c) (dc_max_ttl c) t m)))\<rparr>"
  then obtain s m k where s: "dc_store c = Some s" "resp = Some m" "msg_answer m \<noteq> []"
    "cache_key req = Some k"
    and c': "c' = c\<lparr>dc_store := Some (rt_set R s t k
          (fst (make_item (dc_min_ttl c) (dc_max_ttl c) t m))
          (snd (make_item (dc_min_ttl c) (dc_max_ttl c) t m)))\<rparr>" by blast
  from assms(2) s have cfg: "dc_min_ttl c = conf_min_ttl cc" "dc_max_ttl c = conf_max_ttl cc"
    by (auto simp: provenance_def)
  let ?v = "fst (make_item (conf_min_ttl cc) (conf_max_ttl cc) t m)"
  let ?d = "snd (make_item (conf_min_ttl cc) (conf_max_ttl cc) t m)"
  have law: "rt_get R s t' k' = Some w \<or> k' = k \<and> w = ?v"
    if "rt_get R (rt_set R s t k ?v ?d) t' k' = Some w" for t' k' w
    using ristretto_set [OF assms(1) that] by simp
  show ?thesis unfolding provenance_def
  proof (intro conjI allI impI)
    fix s' t' k' w
    assume "dc_store c' = Some s' \<and> rt_get R s' t' k' = Some w"
    with c' cfg have "rt_get R (rt_set R s t k ?v ?d) t' k' = Some w" by auto
    from law [OF this] show "\<exists>t0 q p. Op_Set t0 q (Some p) \<in> set (ops @ [Op_Set t req resp]) \<and>
      cache_key q = Some k' \<and> msg_answer p \<noteq> [] \<and>
      w = fst (make_item (conf_min_ttl cc) (conf_max_ttl cc) t0 p)"
    proof
      assume "rt_get R s t' k' = Some w"
      with assms(2) s(1) show ?thesis unfolding provenance_def by fastforce
    next
      assume "k' = k \<and> w = ?v"
      with s show ?thesis by auto
    qed
  qed (use c' cfg in auto)
qed

lemma provenance_step:
  assumes "ristretto_law R" "provenance R cc ops c" "cache_step R L op c = Some c'"
  shows "provenance R cc (ops @ [op]) c'"
proof (cases op)
  case (Op_Get t req draw)
  with assms(3) obtain r where "cache_get R L draw t c req = Some (r, c')" by auto
  from provenance_get [OF assms(1,2) this] show ?thesis by (rule provenance_mono) auto
next
  case (Op_Set t req resp)
  with assms provenance_set [OF assms(1,2)] show ?thesis by simp
qed

lemma provenance_run:
  assumes "ristretto_law R" "provenance R cc ops c" "cache_run R L ops' c = Some c'"
  shows "provenance R cc (ops @ ops') c'"
  using assms(2,3)
proof (induction ops' arbitrary: ops c)
  case (Cons op ops')
  then obtain d where d: "cache_step R L op c = Some d" "cache_run R L ops' d = Some c'"
    by (auto split: option.splits)
  from Cons.IH [OF provenance_step [OF assms(1) Cons.prems(1) d(1)] d(2)] show ?case by simp
qed simp

lemma reachable_item:
  assumes "ristretto_law R" "new_dns_cache R cc = Inr c0" "cache_run R L ops c0 = Some c"
    and "dc_store c = Some s" "rt_get R s t k = Some v"
  shows "\<exists>t0 q p. Op_Set t0 q (Some p) \<in> set ops \<and> cache_key q = Some k \<and> msg_answer p \<noteq> [] \<and>
    v = fst (make_item (conf_min_ttl cc) (conf_max_ttl cc) t0 p)"
  using provenance_run [OF assms(1) provenance_new [OF assms(1,2)] assms(3)] assms(4,5)
  by (simp add: provenance_def)

subsection \<open>What a hit looks like\<close>

lemma cache_get_Some:
  assumes "cache_get R L draw t c req = Some (Some r, c')"
  obtains s k v where "dc_store c = Some s" "cache_key req = Some k" "rt_get R s t k = Some v"
    "unix t < ci_expired_at v"
    "countdown (max 0 (unix t - ci_cached_at v)) (msg_answer (lib_set_reply L (ci_resp v) req)) =
       Some (map (\<lambda>a. set_ttl (of_int (uint (hdr_ttl (hdr a)) - max 0 (unix t - ci_cached_at v))) a)
         (msg_answer (lib_set_reply L (ci_resp v) req)))"
    "r = (lib_set_reply L (ci_resp v) req)
       \<lparr>msg_answer := shuffle_ips draw
          (map (\<lambda>a. set_ttl (of_int (uint (hdr_ttl (hdr a)) - max 0 (unix t - ci_cached_at v))) a)
            (msg_answer (lib_set_reply L (ci_resp v) req)))\<rparr>"
    "c' = c"
proof -
  have m: "(if e < 0 then 0 else e) = max 0 e" for e :: int by simp
  from assms obtain s k v where 1: "dc_store c = Some s" "cache_key req = Some k"
      "rt_get R s t k = Some v"
    by (auto simp: cache_get_def split: if_splits option.splits)
  let ?e = "max 0 (unix t - ci_cached_at v)" and ?as = "msg_answer (lib_set_reply L (ci_resp v) req)"
  from assms 1 obtain as where 2: "unix t < ci_expired_at v" "countdown ?e ?as = Some as"
      "r = (lib_set_reply L (ci_resp v) req)\<lparr>msg_answer := shuffle_ips draw as\<rparr>" "c' = c"
    by (auto simp: cache_get_def Let_def m split: if_splits option.splits)
  from 2(2) have "as = map (\<lambda>a. set_ttl (of_int (uint (hdr_ttl (hdr a)) - ?e)) a) ?as"
    by (simp add: countdown_eq split: if_splits)
  with 1 2 that show thesis by simp
qed

lemma new_cache_order:
  assumes "new_dns_cache R cc = Inr c0" "conf_fits cc"
  shows "min_secs cc \<le> max_secs cc"
proof -
  from assms(1) have "conf_min_ttl cc \<le> conf_max_ttl cc"
    by (simp add: new_dns_cache_def Let_def split: if_splits)
  then show ?thesis using conf_ttl_secs(1,2) [OF assms(2)] by (simp add: second_def)
qed

lemma aged_aged:
  assumes "conf_fits cc" "min_secs cc \<le> max_secs cc"
  shows "set_ttl (of_int (uint (hdr_ttl (hdr (aged cc 0 a))) - e)) (aged cc 0 a) = aged cc e a"
proof -
  let ?x = "clamp_secs (min_secs cc) (max_secs cc) (uint (hdr_ttl (hdr a)))"
  have "0 \<le> ?x \<and> ?x < 2 ^ 32"
    using clamp_secs_bounds [OF assms(2)] conf_ttl_secs(3,6) [OF assms(1)]
    by (metis order_trans order_le_less_trans zero_le_one)
  then show ?thesis by (simp add: aged_def uint_u32)
qed

subsection \<open>A concrete store and history\<close>

definition map_store :: "(string \<rightharpoonup> cache_item) ristretto" where
  "map_store = \<lparr>rt_new = (\<lambda>_ _. Some Map.empty), rt_get = (\<lambda>s t k. s k),
     rt_set = (\<lambda>s t k v d. s(k \<mapsto> v)), rt_del = (\<lambda>s k. s(k := None))\<rparr>"

lemma map_store_law: "ristretto_law map_store"
  by (auto simp: ristretto_law_def map_store_def split: if_splits)

definition sample_req :: "u16 \<Rightarrow> dns_msg" where
  "sample_req i = new_msg\<lparr>msg_id := i, msg_question := [\<lparr>q_name = ''a.Test.'', q_type = 1, q_class = 1\<rparr>]\<rparr>"

definition sample_A :: "u32 \<Rightarrow> u8 \<Rightarrow> rr" where
  "sample_A ttl b = RR_A \<lparr>hdr_name = ''a.Test.'', hdr_rrtype = 1, hdr_class = 1, hdr_ttl = ttl\<rparr> [192, 0, 2, b]"

definition sample_resp :: dns_msg where
  "sample_resp = (sample_req 1)\<lparr>msg_rcode := 3, msg_answer := [sample_A 30 1, sample_A 300 2]\<rparr>"

definition sample_conf :: cache_conf where
  "sample_conf = \<lparr>cc_size = 10, cc_min_ttl = 0, cc_max_ttl = 120\<rparr>"

definition sample_cache :: "(string \<rightharpoonup> cache_item) dns_cache" where
  "sample_cache = \<lparr>dc_store = Some (Map.empty), dc_max_size = 10, dc_min_ttl = minute, dc_max_ttl = 2 * minute\<rparr>"

definition sample_history :: "cache_op list" where
  "sample_history = [Op_Set (1000 * second) (sample_req 1) (Some sample_resp)]"

definition sample_cache' :: "(string \<rightharpoonup> cache_item) dns_cache" where
  "sample_cache' = the (cache_run map_store plain_lib sample_history sample_cache)"

lemma sample_new: "new_dns_cache map_store sample_conf = Inr sample_cache"
  by (simp add: new_dns_cache_def sample_conf_def sample_cache_def map_store_def conf_min_ttl_def
      conf_max_ttl_def default_min_ttl_def minute_def wrap64_def second_def)

lemma sample_run: "cache_run map_store plain_lib sample_history sample_cache = Some sample_cache'"
proof -
  have "cache_run map_store plain_lib sample_history sample_cache \<noteq> None" by code_simp
  then show ?thesis by (auto simp: sample_cache'_def)
qed

lemma sample_get:
  "\<exists>r c. cache_get map_store plain_lib (\<lambda>n. 0) (1040 * second) sample_cache' (sample_req 9) = Some (Some r, c) \<and>
     msg_answer r = [sample_A 80 2, sample_A 20 1]"
proof -
  let ?g = "cache_get map_store plain_lib (\<lambda>n. 0) (1040 * second) sample_cache' (sample_req 9)"
  have "map_option (map_option msg_answer \<circ> fst) ?g = Some (Some [sample_A 80 2, sample_A 20 1])"
    by code_simp
  then obtain x where x: "?g = Some x" "map_option msg_answer (fst x) = Some [sample_A 80 2, sample_A 20 1]"
    by (auto simp: comp_def)
  then obtain r where "fst x = Some r" "msg_answer r = [sample_A 80 2, sample_A 20 1]" by blast
  with x(1) show ?thesis by (metis prod.collapse)
qed

lemma sample_conf_fits: "conf_fits sample_conf"
  by (simp add: conf_fits_def sample_conf_def)

text \<open>Every hit is a stored answer, aged: after any history of gets and sets on a new
  cache, a hit stems from an earlier set under the same key; its answer consists of exactly
  the records of that response, each with its TTL clamped to the configured bounds and
  reduced by the seconds since it was stored; no TTL is zero or above the maximum; and the
  reply carries the request's id.\<close>

lemma cache_hit_spec:
  assumes "ristretto_law R" "set_reply_law L" "\<And>n. 0 < n \<Longrightarrow> draw n < n"
    and "conf_fits cc" "new_dns_cache R cc = Inr c0" "cache_run R L ops c0 = Some c"
    and "cache_get R L draw t c req = Some (Some r, c')"
  shows "msg_id r = msg_id req \<and>
    (\<forall>a \<in> set (msg_answer r). 0 < uint (hdr_ttl (hdr a)) \<and> uint (hdr_ttl (hdr a)) \<le> max_secs cc) \<and>
    (\<exists>t0 req0 resp0. Op_Set t0 req0 (Some resp0) \<in> set ops \<and> cache_key req0 = cache_key req \<and>
       mset (msg_answer r) =
         mset (map (aged cc (max 0 (unix t - unix t0))) (msg_answer resp0)))"
proof -
  note ord = new_cache_order [OF assms(5,4)]
  from assms(7) obtain s k v where v: "dc_store c = Some s" "cache_key req = Some k" "rt_get R s t k = Some v"
    and cd: "countdown (max 0 (unix t - ci_cached_at v)) (msg_answer (lib_set_reply L (ci_resp v) req)) =
       Some (map (\<lambda>a. set_ttl (of_int (uint (hdr_ttl (hdr a)) - max 0 (unix t - ci_cached_at v))) a)
         (msg_answer (lib_set_reply L (ci_resp v) req)))"
    and r: "r = (lib_set_reply L (ci_resp v) req)
       \<lparr>msg_answer := shuffle_ips draw
          (map (\<lambda>a. set_ttl (of_int (uint (hdr_ttl (hdr a)) - max 0 (unix t - ci_cached_at v))) a)
            (msg_answer (lib_set_reply L (ci_resp v) req)))\<rparr>"
    by (rule cache_get_Some)
  from reachable_item [OF assms(1,5,6) v(1,3)] obtain t0 q p where p:
    "Op_Set t0 q (Some p) \<in> set ops" "cache_key q = Some k" "msg_answer p \<noteq> []"
    "v = fst (make_item (conf_min_ttl cc) (conf_max_ttl cc) t0 p)" by blast
  note it = make_item_secs [OF assms(4) ord p(3,4)]
  let ?e = "max 0 (unix t - unix t0)" and ?as = "msg_answer (ci_resp v)"
  have as: "msg_answer (lib_set_reply L (ci_resp v) req) = ?as"
    using assms(2) by (simp add: set_reply_law_def)
  have r': "mset (msg_answer r) = mset (map (\<lambda>a. set_ttl (of_int (uint (hdr_ttl (hdr a)) - ?e)) a) ?as)"
    by (simp add: r as it(2) shuffle_ips_mset [OF assms(3)])
  also have "\<dots> = mset (map (aged cc ?e) (msg_answer p))"
    unfolding it(1) map_map comp_def aged_aged [OF assms(4) ord] ..
  finally have m: "mset (msg_answer r) = mset (map (aged cc ?e) (msg_answer p))" .
  have "0 < uint (hdr_ttl (hdr a)) \<and> uint (hdr_ttl (hdr a)) \<le> max_secs cc" if "a \<in> set (msg_answer r)" for a
  proof -
    from that r' have "a \<in> set (map (\<lambda>a. set_ttl (of_int (uint (hdr_ttl (hdr a)) - ?e)) a) ?as)"
      using mset_eq_setD [OF r'] by simp
    then obtain b where b: "b \<in> set ?as" "a = set_ttl (of_int (uint (hdr_ttl (hdr b)) - ?e)) b" by auto
    have "?e < uint (hdr_ttl (hdr b))" using cd b(1) unfolding countdown_eq as it(2)
      by (auto split: if_splits)
    moreover have "uint (hdr_ttl (hdr b)) \<le> max_secs cc" using it(4) b(1) by blast
    moreover have "uint (hdr_ttl (hdr b)) < 2 ^ 32" using uint_lt2p [of "hdr_ttl (hdr b)"] by simp
    moreover have "0 \<le> ?e" by simp
    ultimately have x: "0 < uint (hdr_ttl (hdr b)) - ?e" "uint (hdr_ttl (hdr b)) - ?e \<le> max_secs cc"
      and y: "uint (hdr_ttl (hdr b)) - ?e < 2 ^ 32" by linarith+
    have "uint (of_int (uint (hdr_ttl (hdr b)) - ?e) :: u32) = uint (hdr_ttl (hdr b)) - ?e"
      using x(1) y by (intro uint_u32) simp_all
    with b(2) have "uint (hdr_ttl (hdr a)) = uint (hdr_ttl (hdr b)) - ?e" by simp
    with x show ?thesis by linarith
  qed
  moreover have "msg_id r = msg_id req" using assms(2) r by (simp add: set_reply_law_def)
  ultimately show ?thesis using p m v(2) by auto
qed

subsection \<open>Properties\<close>

text \<open>C34: The expiry of an entry is the shortest of its records' TTLs, so an unexpired entry
  is always served: the check inside the countdown never discards a reachable entry, and a
  lookup misses exactly when the store has nothing or the entry is expired.\<close>

theorem cache_serves_unexpired:
  assumes "ristretto_law R" "set_reply_law L" "conf_fits cc" "new_dns_cache R cc = Inr c0"
    and "cache_run R L ops c0 = Some c" "dc_max_size c > 0" "dc_store c = Some s"
    and "cache_key req = Some k"
  shows "(\<exists>r c'. cache_get R L draw t c req = Some (Some r, c')) \<longleftrightarrow>
    (\<exists>v. rt_get R s t k = Some v \<and> unix t < ci_expired_at v)"
proof
  assume "\<exists>r c'. cache_get R L draw t c req = Some (Some r, c')"
  then obtain r c' where g: "cache_get R L draw t c req = Some (Some r, c')" by blast
  from g obtain s' k' v where "dc_store c = Some s'" "cache_key req = Some k'" "rt_get R s' t k' = Some v"
    "unix t < ci_expired_at v" by (rule cache_get_Some)
  with assms(7,8) show "\<exists>v. rt_get R s t k = Some v \<and> unix t < ci_expired_at v" by auto
next
  assume "\<exists>v. rt_get R s t k = Some v \<and> unix t < ci_expired_at v"
  then obtain v where v: "rt_get R s t k = Some v" "unix t < ci_expired_at v" by blast
  from reachable_item [OF assms(1,4,5,7) v(1)] obtain t0 q p where p: "msg_answer p \<noteq> []"
    "v = fst (make_item (conf_min_ttl cc) (conf_max_ttl cc) t0 p)" by blast
  note it = make_item_secs [OF assms(3) new_cache_order [OF assms(4,3)] p]
  let ?e = "max 0 (unix t - ci_cached_at v)" and ?as = "msg_answer (ci_resp v)"
  have "?e < uint (hdr_ttl (hdr a))" if "a \<in> set ?as" for a
  proof -
    have "Min (set (map (\<lambda>r. uint (hdr_ttl (hdr r))) ?as)) \<le> uint (hdr_ttl (hdr a))"
      using that by simp
    with v(2) it(2,3) have "unix t - unix t0 < uint (hdr_ttl (hdr a))" by linarith
    moreover have "1 \<le> uint (hdr_ttl (hdr a))"
      using it(4) that conf_ttl_secs(3) [OF assms(3)] by fastforce
    ultimately show ?thesis by (simp add: it(2))
  qed
  then have "countdown ?e ?as \<noteq> None" by (auto simp: countdown_eq not_le)
  moreover have "msg_answer (lib_set_reply L (ci_resp v) req) = ?as"
    using assms(2) by (simp add: set_reply_law_def)
  moreover have "(if e < 0 then 0 else e) = max 0 e" for e :: int by simp
  ultimately show "\<exists>r c'. cache_get R L draw t c req = Some (Some r, c')"
    using v assms(6,7,8) by (auto simp: cache_get_def Let_def)
qed

theorem cache_serves_unexpired_witness:
  "(\<exists>r c'. cache_get map_store plain_lib (\<lambda>n. 0) (1040 * second) sample_cache' (sample_req 9) =
     Some (Some r, c')) \<longleftrightarrow>
   (\<exists>v. the (dc_store sample_cache') (the (cache_key (sample_req 9))) = Some v \<and>
      unix (1040 * second) < ci_expired_at v)"
proof -
  have "dc_max_size sample_cache' > 0 \<and> dc_store sample_cache' \<noteq> None"
    "cache_key (sample_req 9) \<noteq> None" by code_simp+
  then obtain s k where "dc_max_size sample_cache' > 0" "dc_store sample_cache' = Some s"
    "cache_key (sample_req 9) = Some k" by blast
  from cache_serves_unexpired [OF map_store_law plain_lib_laws(1) sample_conf_fits sample_new sample_run this,
      of "\<lambda>n. 0" "1040 * second"] this
  show ?thesis by (simp add: map_store_def)
qed

text \<open>Serving a hit keeps the shape of the answer: records that are not addresses stay
  where they are, and the address records are only exchanged among themselves.\<close>

theorem shuffle_keeps_shape:
  assumes "\<And>n. 0 < n \<Longrightarrow> draw n < n"
  shows "mset (shuffle_ips draw as) = mset as \<and>
    (\<forall>k < length as. \<not> is_address (as ! k) \<longrightarrow> shuffle_ips draw as ! k = as ! k) \<and>
    mset (filter is_address (shuffle_ips draw as)) = mset (filter is_address as)"
proof -
  have m: "mset (shuffle_ips draw as) = mset as"
    by (rule shuffle_ips_mset) (rule assms)
  moreover from m have "mset (filter is_address (shuffle_ips draw as)) = mset (filter is_address as)"
    by (simp add: mset_filter)
  moreover have "\<forall>k < length as. \<not> is_address (as ! k) \<longrightarrow> shuffle_ips draw as ! k = as ! k"
    using shuffle_ips_other [OF assms] by blast
  ultimately show ?thesis by blast
qed

theorem shuffle_keeps_shape_witness:
  "mset (shuffle_ips (\<lambda>n. n - 1) [sample_A 1 1, sample_A 2 2]) = mset [sample_A 1 1, sample_A 2 2]"
  using shuffle_keeps_shape [of "\<lambda>n. n - 1" "[sample_A 1 1, sample_A 2 2]"] by simp

text \<open>A cache is refused exactly when the lower TTL bound exceeds the upper one, or the
  store cannot be made; otherwise its bounds are the configured ones, or one minute and one
  day. A size that is not positive turns the cache off: it never hits and never changes.\<close>

theorem new_dns_cache_spec:
  assumes "conf_fits cc"
  shows "(max_secs cc < min_secs cc \<longrightarrow>
      new_dns_cache R cc = Inl (Min_Larger_Than_Max (cc_min_ttl cc) (cc_max_ttl cc))) \<and>
    (min_secs cc \<le> max_secs cc \<and> cc_size cc \<le> 0 \<longrightarrow>
      (\<exists>c. new_dns_cache R cc = Inr c \<and>
        (\<forall>L draw t q p. cache_get R L draw t c q = Some (None, c) \<and> cache_set R t c q p = Some c))) \<and>
    (min_secs cc \<le> max_secs cc \<and> cc_size cc > 0 \<longrightarrow>
      (case rt_new R (wrap64 (cc_size cc * 10)) (cc_size cc) of
         None \<Rightarrow> new_dns_cache R cc = Inl Store_Error
       | Some s \<Rightarrow> new_dns_cache R cc =
           Inr \<lparr>dc_store = Some s, dc_max_size = cc_size cc,
                dc_min_ttl = min_secs cc * second, dc_max_ttl = max_secs cc * second\<rparr>))"
proof -
  have "conf_max_ttl cc < conf_min_ttl cc \<longleftrightarrow> max_secs cc < min_secs cc"
    by (simp add: conf_ttl_secs(1,2) [OF assms] second_def)
  then show ?thesis
    by (auto simp: new_dns_cache_def Let_def cache_get_def cache_set_def
        conf_ttl_secs(1,2) [OF assms] mult.commute split: option.splits)
qed

theorem new_dns_cache_spec_witness:
  "max_secs (sample_conf\<lparr>cc_max_ttl := 30\<rparr>) < min_secs (sample_conf\<lparr>cc_max_ttl := 30\<rparr>) \<and>
   new_dns_cache map_store (sample_conf\<lparr>cc_max_ttl := 30\<rparr>) = Inl (Min_Larger_Than_Max 0 30)"
proof -
  have f: "conf_fits (sample_conf\<lparr>cc_max_ttl := 30\<rparr>)" by (simp add: conf_fits_def sample_conf_def)
  have "max_secs (sample_conf\<lparr>cc_max_ttl := 30\<rparr>) < min_secs (sample_conf\<lparr>cc_max_ttl := 30\<rparr>)"
    by (simp add: max_secs_def min_secs_def sample_conf_def)
  then show ?thesis using new_dns_cache_spec [OF f, of map_store] by (simp add: sample_conf_def)
qed

text \<open>The response code of a stored response is not kept: whatever code the upstream
  sent with its answer section, a hit reports success.\<close>

theorem cache_hit_reports_success:
  assumes "set_reply_law L" "cache_get R L draw t c req = Some (Some r, c')"
  shows "msg_rcode r = 0"
proof -
  from assms(2) have "\<exists>(v :: cache_item) as. r = (lib_set_reply L (ci_resp v) req)\<lparr>msg_answer := as\<rparr>"
    by (rule cache_get_Some) blast
  then obtain v :: cache_item and as where "r = (lib_set_reply L (ci_resp v) req)\<lparr>msg_answer := as\<rparr>" by blast
  then show ?thesis using assms(1) by (simp add: set_reply_law_def)
qed

theorem cache_hit_reports_success_witness:
  "msg_rcode sample_resp = 3 \<and>
   (\<exists>r c. cache_get map_store plain_lib (\<lambda>n. 0) (1040 * second) sample_cache' (sample_req 9) = Some (Some r, c) \<and>
      msg_rcode r = 0)"
proof -
  obtain r c where g: "cache_get map_store plain_lib (\<lambda>n. 0) (1040 * second) sample_cache' (sample_req 9) =
      Some (Some r, c)" using sample_get by blast
  with cache_hit_reports_success [OF plain_lib_laws(1) g] show ?thesis by (simp add: sample_resp_def)
qed

subsection \<open>Keys do not collide\<close>

lemma lower_digits: "\<forall>c \<in> set s. is_digit c \<Longrightarrow> to_lower s = s"
  unfolding to_lower_def
  by (rule map_idI) (auto simp: is_digit_def to_lower_char_def less_eq_char_def)

definition valid_ecs :: "ecs \<Rightarrow> bool" where
  "valid_ecs e \<longleftrightarrow> length (ecs_address e) = 4 \<or> length (ecs_address e) = 16"

text \<open>The two forms of a printed subnet.\<close>

lemma ecs_string_cases:
  assumes "valid_ecs e"
  obtains (v4) o1 o2 o3 o4 m where
    "ecs_string e = o1 @ CHR ''.'' # o2 @ CHR ''.'' # o3 @ CHR ''.'' # o4 @ CHR ''/'' # m"
    "list_all is_digit o1" "list_all is_digit o2" "list_all is_digit o3" "list_all is_digit o4"
    "list_all is_digit m"
  | (v6) a m where "ecs_string e = a @ CHR ''/'' # m" "set a \<subseteq> set (CHR '':'' # hex_chars)"
    "CHR '':'' \<in> set a" "list_all is_digit m"
proof -
  let ?m = "dec_nat (unat (ecs_netmask e))" and ?a = "ecs_address e"
  have m: "list_all is_digit ?m" by (simp add: list_all_iff dec_nat_digits)
  show thesis
  proof (cases "to4 ?a")
    case None
    with assms have "length ?a = 16" by (auto simp: valid_ecs_def to4_def)
    with None have s: "ecs_string e = v6_string ?a @ CHR ''/'' # ?m" "length ?a = 16"
      by (auto simp: ecs_string_def ip_string_def)
    show thesis by (rule v6 [OF s(1) v6_string_chars [OF s(2)] m])
  next
    case (Some b)
    then have "length b = 4" "ecs_string e = v4_string b @ CHR ''/'' # ?m"
      by (auto simp: ecs_string_def ip_string_def to4_def split: if_splits)
    moreover from this(1) obtain o1 o2 o3 o4 where "v4_string b = o1 @ CHR ''.'' # o2 @ CHR ''.'' # o3 @ CHR ''.'' # o4"
      "list_all is_digit o1" "list_all is_digit o2" "list_all is_digit o3" "list_all is_digit o4"
      by (rule v4_string_parts)
    ultimately show thesis using v4 [of o1 o2 o3 o4 ?m] m by simp
  qed
qed

lemma lower_ecs_string: "valid_ecs e \<Longrightarrow> to_lower (ecs_string e) = ecs_string e"
proof (erule ecs_string_cases)
  have d: "list_all is_digit s \<Longrightarrow> to_lower s = s" for s by (rule lower_digits) (simp add: list_all_iff)
  show "to_lower (ecs_string e) = ecs_string e"
    if "ecs_string e = o1 @ CHR ''.'' # o2 @ CHR ''.'' # o3 @ CHR ''.'' # o4 @ CHR ''/'' # m"
    "list_all is_digit o1" "list_all is_digit o2" "list_all is_digit o3" "list_all is_digit o4"
    "list_all is_digit m" for o1 o2 o3 o4 m
    using that by (simp add: d to_lower_Cons to_lower_char_def)
  have h: "\<forall>c \<in> set (CHR '':'' # hex_chars). to_lower_char c = c" by code_simp
  show "to_lower (ecs_string e) = ecs_string e"
    if "ecs_string e = a @ CHR ''/'' # m" "set a \<subseteq> set (CHR '':'' # hex_chars)" "list_all is_digit m" for a m
  proof -
    have "to_lower a = a" unfolding to_lower_def by (rule map_idI) (use h that(2) in blast)
    with that show ?thesis by (simp add: d to_lower_Cons to_lower_char_def)
  qed
qed

text \<open>Two texts that end in a name with its root dot and a number.\<close>

lemma name_number_inj:
  assumes "n @ d = n' @ d'" "suffix ''.'' n" "suffix ''.'' n'" "list_all is_digit d" "list_all is_digit d'"
  shows "n = n' \<and> d = d'"
proof -
  obtain p p' where p: "n = p @ ''.''" "n' = p' @ ''.''" using assms(2,3) by (auto simp: suffix_def)
  have nd: "\<not> is_digit (CHR ''.'')" by code_simp
  have "p @ CHR ''.'' # d = p' @ CHR ''.'' # d'" using assms(1) p by simp
  from split_at_last [OF this, of is_digit] assms(4,5) nd p show ?thesis by (simp add: list_all_iff)
qed

lemma subnet_inj:
  assumes eq: "x @ CHR ''.'' # ecs_string e = y @ CHR ''.'' # ecs_string f"
    and "valid_ecs e" "valid_ecs f"
  shows "x = y \<and> ecs_string e = ecs_string f"
proof -
  have nd: "\<not> is_digit (CHR ''.'')" "\<not> is_digit (CHR ''/'')" "\<not> is_digit (CHR '':'')" by code_simp+
  have nh: "CHR ''.'' \<notin> set (CHR '':'' # hex_chars)" by code_simp
  note dig = split_at_last [where P = is_digit, unfolded list_all_iff [symmetric]]
  from assms(2) show ?thesis
  proof (cases rule: ecs_string_cases)
    case (v4 o1 o2 o3 o4 m)
    note e = this
    from assms(3) show ?thesis
    proof (cases rule: ecs_string_cases)
      case (v4 p1 p2 p3 p4 n)
      from eq have 1: "(x @ CHR ''.'' # o1 @ CHR ''.'' # o2 @ CHR ''.'' # o3 @ CHR ''.'' # o4) @ CHR ''/'' # m =
        (y @ CHR ''.'' # p1 @ CHR ''.'' # p2 @ CHR ''.'' # p3 @ CHR ''.'' # p4) @ CHR ''/'' # n"
        by (simp add: e(1) v4(1))
      note m = dig [OF 1 e(6) v4(6) nd(2,2)]
      from m(1) have 2: "(x @ CHR ''.'' # o1 @ CHR ''.'' # o2 @ CHR ''.'' # o3) @ CHR ''.'' # o4 =
        (y @ CHR ''.'' # p1 @ CHR ''.'' # p2 @ CHR ''.'' # p3) @ CHR ''.'' # p4" by simp
      note o4 = dig [OF 2 e(5) v4(5) nd(1,1)]
      from o4(1) have 3: "(x @ CHR ''.'' # o1 @ CHR ''.'' # o2) @ CHR ''.'' # o3 =
        (y @ CHR ''.'' # p1 @ CHR ''.'' # p2) @ CHR ''.'' # p3" by simp
      note o3 = dig [OF 3 e(4) v4(4) nd(1,1)]
      from o3(1) have 4: "(x @ CHR ''.'' # o1) @ CHR ''.'' # o2 = (y @ CHR ''.'' # p1) @ CHR ''.'' # p2" by simp
      note o2 = dig [OF 4 e(3) v4(3) nd(1,1)]
      note o1 = dig [OF o2(1) e(2) v4(2) nd(1,1)]
      from m(3) o4(3) o3(3) o2(3) o1(1,3) show ?thesis by (simp add: e(1) v4(1))
    next
      case (v6 a n)
      from eq have 1: "(x @ CHR ''.'' # o1 @ CHR ''.'' # o2 @ CHR ''.'' # o3 @ CHR ''.'' # o4) @ CHR ''/'' # m =
        (y @ CHR ''.'' # a) @ CHR ''/'' # n" by (simp add: e(1) v6(1))
      from dig(1) [OF 1 e(6) v6(4) nd(2,2)]
      have 2: "(x @ CHR ''.'' # o1 @ CHR ''.'' # o2 @ CHR ''.'' # o3) @ CHR ''.'' # o4 = y @ CHR ''.'' # a" by simp
      have "o4 = a"
        by (rule split_at_last(3) [OF 2, of "\<lambda>c. c \<noteq> CHR ''.''"])
          (use e(5) nd(1) v6(2) nh in \<open>auto simp: list_all_iff\<close>)
      with e(5) v6(3) nd(3) show ?thesis by (auto simp: list_all_iff)
    qed
  next
    case (v6 a m)
    note e = this
    from assms(3) show ?thesis
    proof (cases rule: ecs_string_cases)
      case (v4 p1 p2 p3 p4 n)
      from eq have 1: "(x @ CHR ''.'' # a) @ CHR ''/'' # m =
        (y @ CHR ''.'' # p1 @ CHR ''.'' # p2 @ CHR ''.'' # p3 @ CHR ''.'' # p4) @ CHR ''/'' # n"
        by (simp add: e(1) v4(1))
      from dig(1) [OF 1 e(4) v4(6) nd(2,2)]
      have 2: "x @ CHR ''.'' # a = (y @ CHR ''.'' # p1 @ CHR ''.'' # p2 @ CHR ''.'' # p3) @ CHR ''.'' # p4" by simp
      have "a = p4"
        by (rule split_at_last(3) [OF 2, of "\<lambda>c. c \<noteq> CHR ''.''"])
          (use v4(5) nd(1) e(2) nh in \<open>auto simp: list_all_iff\<close>)
      with v4(5) e(3) nd(3) show ?thesis by (auto simp: list_all_iff)
    next
      case (v6 b n)
      from eq have 1: "(x @ CHR ''.'' # a) @ CHR ''/'' # m = (y @ CHR ''.'' # b) @ CHR ''/'' # n"
        by (simp add: e(1) v6(1))
      note m = dig [OF 1 e(4) v6(4) nd(2,2)]
      have no: "\<forall>c \<in> set a. c \<noteq> CHR ''.''" "\<forall>c \<in> set b. c \<noteq> CHR ''.''" using e(2) v6(2) nh by blast+
      have "x = y" "a = b"
        using split_at_last(1,3) [OF m(1) no] by auto
      with m(3) show ?thesis by (simp add: e(1) v6(1))
    qed
  qed
qed

definition ecs_ok :: "dns_msg \<Rightarrow> bool" where
  "ecs_ok m \<longleftrightarrow> (\<forall>h os e. RR_OPT h os \<in> set (msg_extra m) \<and> EDNS0_SUBNET e \<in> set os \<longrightarrow> valid_ecs e)"

lemma first_subnet_in: "first_subnet os = Some e \<Longrightarrow> EDNS0_SUBNET e \<in> set os"
  by (induction os rule: first_subnet.induct) auto

lemma format_extras_cases:
  "format_extras rs = [] \<or>
   (\<exists>h os e. RR_OPT h os \<in> set rs \<and> EDNS0_SUBNET e \<in> set os \<and> format_extras rs = ecs_string e)"
proof (induction rs rule: format_extras.induct)
  case (2 h os rest)
  show ?case
  proof (cases "first_subnet os")
    case None
    with 2 show ?thesis by fastforce
  next
    case (Some e)
    from first_subnet_in [OF this] Some show ?thesis by fastforce
  qed
qed fastforce+

lemma format_ecs_cases:
  assumes "ecs_ok m"
  shows "format_ecs (Some m) = [] \<or> (\<exists>e. valid_ecs e \<and> format_ecs (Some m) = ecs_string e)"
  using format_extras_cases [of "msg_extra m"] assms unfolding format_ecs_def ecs_ok_def by auto

lemma key_text_eq:
  assumes "suffix ''.'' n" "suffix ''.'' n'"
    and "s = [] \<or> (\<exists>e. valid_ecs e \<and> s = ecs_string e)"
    and "s' = [] \<or> (\<exists>e. valid_ecs e \<and> s' = ecs_string e)"
  shows "key_text n q s = key_text n' q' s' \<longleftrightarrow> equal_fold n n' \<and> q = q' \<and> s = s'"
proof
  assume "key_text n q s = key_text n' q' s'"
  let ?l = "to_lower n" and ?l' = "to_lower n'"
  let ?d = "dec_nat (unat q)" and ?d' = "dec_nat (unat q')"
  let ?t = "\<lambda>s. if s \<noteq> [] then CHR ''.'' # s else []"
  have dig: "list_all is_digit (dec_nat k)" and low: "to_lower (dec_nat k) = dec_nat k" for k
    using dec_nat_digits [of k] by (simp_all add: list_all_iff lower_digits)
  have lows: "to_lower s = s" "to_lower s' = s'" using assms(3,4) lower_ecs_string by auto
  have t: "to_lower (if u \<noteq> [] then ''.'' @ u else []) = ?t (to_lower u)" for u
    by (simp add: to_lower_Cons)
  have key: "key_text m p u = to_lower m @ dec_nat (unat p) @ ?t (to_lower u)" for m p u
    unfolding key_text_def to_lower_append t low ..
  have k: "?l @ ?d @ ?t s = ?l' @ ?d' @ ?t s'"
    using \<open>key_text n q s = key_text n' q' s'\<close> unfolding key lows .
  have dots: "suffix ''.'' ?l" "suffix ''.'' ?l'"
    using assms(1,2) by (auto simp: suffix_def to_lower_Cons)
  have nd: "\<not> is_digit (CHR ''.'')" "\<not> is_digit (CHR ''/'')" by code_simp+
  have mixed: False
    if pre: "suffix ''.'' m" "list_all is_digit d" "valid_ecs e" "m @ d = x @ CHR ''.'' # ecs_string e" for m d e x
  proof -
    obtain p where p: "m = p @ ''.''" using pre(1) by (auto simp: suffix_def)
    from pre(3) obtain a b where "ecs_string e = a @ CHR ''/'' # b" "list_all is_digit b"
      by (rule ecs_string_cases) (metis append_assoc append_Cons)+
    with pre(4) p have "p @ CHR ''.'' # d = (x @ CHR ''.'' # a) @ CHR ''/'' # b" by simp
    from split_at_last(2) [OF this, of is_digit] nd pre(2) \<open>list_all is_digit b\<close>
    show False by (simp add: list_all_iff)
  qed
  have "?l @ ?d = ?l' @ ?d' \<and> s = s'"
  proof (cases "s = []"; cases "s' = []")
    assume "s = []" "s' \<noteq> []"
    then obtain e where "valid_ecs e" "?l @ ?d = (?l' @ ?d') @ CHR ''.'' # ecs_string e"
      using assms(4) k by auto
    with mixed [OF dots(1) dig] show ?thesis by blast
  next
    assume "s \<noteq> []" "s' = []"
    then obtain e where "valid_ecs e" "?l' @ ?d' = (?l @ ?d) @ CHR ''.'' # ecs_string e"
      using assms(3) k by auto
    with mixed [OF dots(2) dig] show ?thesis by blast
  next
    assume "s \<noteq> []" "s' \<noteq> []"
    with assms(3,4) obtain e f where e: "valid_ecs e" "valid_ecs f" "s = ecs_string e" "s' = ecs_string f" by blast
    with k \<open>s \<noteq> []\<close> \<open>s' \<noteq> []\<close> have "(?l @ ?d) @ CHR ''.'' # ecs_string e = (?l' @ ?d') @ CHR ''.'' # ecs_string f"
      by simp
    from subnet_inj [OF this e(1,2)] e show ?thesis by simp
  qed (use k in simp)
  with name_number_inj [OF _ dots dig dig] have "?l = ?l' \<and> ?d = ?d'" "s = s'" by blast+
  then show "equal_fold n n' \<and> q = q' \<and> s = s'" by (auto simp: equal_fold_def dec_nat_inj word_unat_eq_iff)
next
  assume "equal_fold n n' \<and> q = q' \<and> s = s'"
  then show "key_text n q s = key_text n' q' s'" by (simp add: key_text_def equal_fold_def)
qed

text \<open>Cache keys do not collide: two requests for fully qualified names share an entry
  exactly when their first questions have the same name up to case and the same type, and
  they carry the same client subnet. Nothing else of the request matters, neither its class
  nor its flags.\<close>

theorem cache_key_injective:
  assumes "msg_question m = q # qs" "msg_question m' = q' # qs'"
    and "suffix ''.'' (q_name q)" "suffix ''.'' (q_name q')" "ecs_ok m" "ecs_ok m'"
  shows "cache_key m = cache_key m' \<longleftrightarrow>
    equal_fold (q_name q) (q_name q') \<and> q_type q = q_type q' \<and>
    format_ecs (Some m) = format_ecs (Some m')"
  using key_text_eq [OF assms(3,4) format_ecs_cases [OF assms(5)] format_ecs_cases [OF assms(6)]] assms(1,2)
  by (simp add: cache_key_def)

theorem cache_key_injective_witness:
  "cache_key (sample_req 1) = cache_key ((sample_req 2)\<lparr>msg_question := [\<lparr>q_name = ''A.tEST.'', q_type = 1, q_class = 3\<rparr>]\<rparr>)"
proof -
  have 1: "msg_question (sample_req 1) = \<lparr>q_name = ''a.Test.'', q_type = 1, q_class = 1\<rparr> # []"
    by (simp add: sample_req_def)
  have 2: "msg_question ((sample_req 2)\<lparr>msg_question := [\<lparr>q_name = ''A.tEST.'', q_type = 1, q_class = 3\<rparr>]\<rparr>) =
    \<lparr>q_name = ''A.tEST.'', q_type = 1, q_class = 3\<rparr> # []" by simp
  have 3: "ecs_ok (sample_req 1)"
    "ecs_ok ((sample_req 2)\<lparr>msg_question := [\<lparr>q_name = ''A.tEST.'', q_type = 1, q_class = 3\<rparr>]\<rparr>)"
    by (simp_all add: ecs_ok_def sample_req_def new_msg_def)
  have 4: "equal_fold ''a.Test.'' ''A.tEST.''" by code_simp
  from cache_key_injective [OF 1 2 _ _ 3] 4 show ?thesis
    by (simp add: suffix_def format_ecs_def sample_req_def new_msg_def)
qed

end
