(* ===== verification/Hosts_Reader.thy ===== *)
theory Hosts_Reader
  imports Go_Io Go_Regexp Dns_Types Config
begin

section \<open>The hosts table (\<open>hosts/hosts.go\<close>)\<close>

text \<open>
  The table maps plain names to addresses and keeps wildcard names as compiled expressions,
  the longest first. It is built from the configuration's map and from hosts files in
  either notation; the order in which the maps are visited, the file system and the
  expression engine are arguments.
\<close>

subsection \<open>Addresses\<close>

record ip_info =
  ip_val :: string
  ip_type :: u16

definition zero_ip :: ip_info where
  "zero_ip = \<lparr>ip_val = [], ip_type = 0\<rparr>"

definition ip_record :: "ip_info \<Rightarrow> string \<Rightarrow> string" where
  "ip_record i host =
     (if ip_type i = type_A then host @ '' 0 IN A '' @ ip_val i
      else host @ '' 0 IN AAAA '' @ ip_val i)"

definition build_ip_info :: "string \<Rightarrow> ip_info" where
  "build_ip_info val =
     (case parse_ip val of
        None \<Rightarrow> zero_ip
      | Some ip \<Rightarrow>
          if to4 ip \<noteq> None then \<lparr>ip_val = val, ip_type = type_A\<rparr>
          else if to16 ip \<noteq> None then \<lparr>ip_val = val, ip_type = type_AAAA\<rparr>
          else zero_ip)"

definition split_ips :: "string \<Rightarrow> string list" where
  "split_ips raw = fields_func (\<lambda>c. is_space c \<or> c = CHR '','') raw"

definition contains_ip :: "ip_info list \<Rightarrow> ip_info \<Rightarrow> bool" where
  "contains_ip ips target \<longleftrightarrow>
     list_ex (\<lambda>i. ip_val i = ip_val target \<and> ip_type i = ip_type target) ips"

subsection \<open>Building the table\<close>

record host_pattern =
  hp_pattern :: string
  hp_reg :: string
  hp_ips :: "ip_info list"

record hosts_maps =
  hm_domains :: "string \<rightharpoonup> ip_info list"
  hm_patterns :: "string \<rightharpoonup> host_pattern"

datatype hosts_error = Parse_Ip_Failed string | Bad_Host_Regexp string | Open_Failed string | Scan_Failed string

text \<open>A missing key reads as the nil slice.\<close>

definition domain_ips :: "hosts_maps \<Rightarrow> string \<Rightarrow> ip_info list" where
  "domain_ips st d = (case hm_domains st d of None \<Rightarrow> [] | Some ips \<Rightarrow> ips)"

definition add_domain_ip :: "string \<Rightarrow> ip_info \<Rightarrow> hosts_maps \<Rightarrow> hosts_maps" where
  "add_domain_ip d ip st =
     (if contains_ip (domain_ips st d) ip then st
      else st\<lparr>hm_domains := (hm_domains st)(d \<mapsto> domain_ips st d @ [ip])\<rparr>)"

definition add_pattern_ip :: "string \<Rightarrow> string \<Rightarrow> string \<Rightarrow> ip_info \<Rightarrow> hosts_maps \<Rightarrow> hosts_maps" where
  "add_pattern_ip host pattern_host reg ip st =
     (case hm_patterns st host of
        Some p \<Rightarrow>
          if contains_ip (hp_ips p) ip then st
          else st\<lparr>hm_patterns := (hm_patterns st)(host \<mapsto> p\<lparr>hp_ips := hp_ips p @ [ip]\<rparr>)\<rparr>
      | None \<Rightarrow>
          st\<lparr>hm_patterns := (hm_patterns st)
               (host \<mapsto> \<lparr>hp_pattern = pattern_host, hp_reg = reg, hp_ips = [ip]\<rparr>)\<rparr>)"

definition pattern_of_host :: "string \<Rightarrow> string" where
  "pattern_of_host host =
     replace_all ''?'' ''.'' (replace_all ''*'' ''.*'' (replace_all ''.'' ([backslash] @ ''.'') host))"

text \<open>One name with one valid address, plain or wildcard.\<close>

definition add_entry :: "regexp_engine \<Rightarrow> string \<Rightarrow> ip_info \<Rightarrow> hosts_maps \<Rightarrow> hosts_error + hosts_maps" where
  "add_entry E host ip st =
     (if \<not> contains_any host ''*?'' then Inr (add_domain_ip host ip st)
      else
        let pattern_host = pattern_of_host host;
            src = ''^'' @ pattern_host @ ''$''
        in if re_compiles E src then Inr (add_pattern_ip host pattern_host src ip st)
           else Inl (Bad_Host_Regexp host))"

definition load_ip :: "regexp_engine \<Rightarrow> string \<Rightarrow> string \<Rightarrow> hosts_maps \<Rightarrow> hosts_error + hosts_maps" where
  "load_ip E host ip_str st =
     (let ip = build_ip_info ip_str
      in if ip = zero_ip then Inl (Parse_Ip_Failed ip_str) else add_entry E host ip st)"

definition load :: "regexp_engine \<Rightarrow> string \<Rightarrow> string list \<Rightarrow> hosts_maps \<Rightarrow> hosts_error + hosts_maps" where
  "load E host ip_strs st =
     (let host = to_lower (trim_space host)
      in if host = [] then Inr st
         else fold_r (\<lambda>raw. fold_r (load_ip E host) (split_ips raw)) ip_strs st)"

definition add_linux :: "regexp_engine \<Rightarrow> ip_info \<Rightarrow> string \<Rightarrow> hosts_maps \<Rightarrow> hosts_error + hosts_maps" where
  "add_linux E ip domain st =
     (let domain = to_lower (trim_space domain)
      in if domain = [] then Inr st else add_entry E domain ip st)"

definition load_line :: "regexp_engine \<Rightarrow> string \<Rightarrow> hosts_maps \<Rightarrow> hosts_error + hosts_maps" where
  "load_line E text st =
     (let line = trim_space text
      in if prefix ''#'' line \<or> prefix ''//'' line then Inr st
         else case fields_func is_space line of
             p # q # parts \<Rightarrow>
               let ip = build_ip_info p
               in if ip \<noteq> zero_ip then fold_r (add_linux E ip) (q # parts) st
                  else load E p (q # parts) st
           | _ \<Rightarrow> Inr st)"

definition load_file :: "regexp_engine \<Rightarrow> file_system \<Rightarrow> string \<Rightarrow> hosts_maps \<Rightarrow> hosts_error + hosts_maps" where
  "load_file E fs filename st =
     (case fs filename of
        None \<Rightarrow> Inl (Open_Failed filename)
      | Some text \<Rightarrow>
          let (lines, failed) = scan_lines text
          in and_then (fold_r (load_line E) lines st)
               (\<lambda>st. if failed then Inl (Scan_Failed filename) else Inr st))"

text \<open>The order of the patterns: longer first, then alphabetical.\<close>

datatype pattern_rank = Rank string

primrec rank_text :: "pattern_rank \<Rightarrow> string" where
  "rank_text (Rank s) = s"

definition pattern_before :: "string \<Rightarrow> string \<Rightarrow> bool" where
  "pattern_before a b \<longleftrightarrow> (if length a \<noteq> length b then length a > length b else a < b)"

instantiation pattern_rank :: linorder
begin

definition less_pattern_rank :: "pattern_rank \<Rightarrow> pattern_rank \<Rightarrow> bool" where
  "less_pattern_rank r s \<longleftrightarrow> pattern_before (rank_text r) (rank_text s)"

definition less_eq_pattern_rank :: "pattern_rank \<Rightarrow> pattern_rank \<Rightarrow> bool" where
  "less_eq_pattern_rank r s \<longleftrightarrow> r = s \<or> pattern_before (rank_text r) (rank_text s)"

instance
proof
  fix x y z :: pattern_rank
  note d = less_pattern_rank_def less_eq_pattern_rank_def pattern_before_def
  show "x < y \<longleftrightarrow> x \<le> y \<and> \<not> y \<le> x" by (cases x; cases y) (auto simp: d)
  show "x \<le> x" by (simp add: d)
  show "x \<le> z" if "x \<le> y" "y \<le> z"
    using that by (cases x; cases y; cases z) (auto simp: d split: if_splits)
  show "x = y" if "x \<le> y" "y \<le> x"
    using that by (cases x; cases y) (auto simp: d split: if_splits)
  show "x \<le> y \<or> y \<le> x" by (cases x; cases y) (auto simp: d)
qed

end

record host_reader =
  hr_domains :: "string \<rightharpoonup> ip_info list"
  hr_patterns :: "host_pattern list"

definition sort_patterns :: "host_pattern list \<Rightarrow> host_pattern list" where
  "sort_patterns = sort_key (\<lambda>p. Rank (hp_pattern p))"

text \<open>
  \<open>visit\<close> lists the configured hosts in the order the loop meets them, \<open>range_of\<close> the pairs
  of the pattern map likewise.
\<close>

definition load_hosts ::
  "regexp_engine \<Rightarrow> (string \<times> string list) list \<Rightarrow> hosts_maps \<Rightarrow> hosts_error + hosts_maps" where
  "load_hosts E visit st = fold_r (\<lambda>(host, ips). load E host ips) visit st"

definition empty_maps :: hosts_maps where
  "empty_maps = \<lparr>hm_domains = Map.empty, hm_patterns = Map.empty\<rparr>"

definition new_dns_hosts ::
  "regexp_engine \<Rightarrow> file_system \<Rightarrow> (string \<times> string list) list \<Rightarrow> string list \<Rightarrow>
   ((string \<rightharpoonup> host_pattern) \<Rightarrow> (string \<times> host_pattern) list) \<Rightarrow> hosts_error + host_reader"
where
  "new_dns_hosts E fs visit files range_of =
     and_then (load_hosts E visit empty_maps)
       (\<lambda>st. and_then (fold_r (load_file E fs) files st)
          (\<lambda>st. Inr \<lparr>hr_domains = hm_domains st,
                     hr_patterns = sort_patterns (map snd (range_of (hm_patterns st)))\<rparr>))"

subsection \<open>Lookup\<close>

definition get_ips :: "regexp_engine \<Rightarrow> host_reader \<Rightarrow> string \<Rightarrow> ip_info list option" where
  "get_ips E h host =
     (case hr_domains h host of
        Some ips \<Rightarrow> Some ips
      | None \<Rightarrow> map_option hp_ips (find (\<lambda>p. re_matches E (hp_reg p) host) (hr_patterns h)))"

fun host_answers :: "dns_lib \<Rightarrow> string \<Rightarrow> u16 \<Rightarrow> ip_info list \<Rightarrow> rr list" where
  "host_answers L host qtype [] = []"
| "host_answers L host qtype (ip # ips) =
     (if ip_type ip = qtype then
        (case lib_new_rr L (ip_record ip host) of
           None \<Rightarrow> host_answers L host qtype ips
         | Some r \<Rightarrow> r # host_answers L host qtype ips)
      else host_answers L host qtype ips)"

definition hosts_get :: "regexp_engine \<Rightarrow> dns_lib \<Rightarrow> host_reader \<Rightarrow> dns_msg \<Rightarrow> dns_msg option" where
  "hosts_get E L h req =
     (case msg_question req of
        [] \<Rightarrow> None
      | q # _ \<Rightarrow>
          let host = to_lower (q_name q); qtype = q_type q
          in if qtype \<noteq> type_A \<and> qtype \<noteq> type_AAAA then None
             else
               let ips = get_ips E h host;
                   ips = (if ips = None \<and> suffix ''.'' host then get_ips E h (take (length host - 1) host) else ips)
               in (case ips of
                     None \<Rightarrow> None
                   | Some l \<Rightarrow>
                       let answers = host_answers L host qtype l
                       in if answers = [] then None
                          else Some ((lib_set_reply L new_msg req)\<lparr>msg_answer := answers\<rparr>)))"

subsection \<open>Entries\<close>

lemma contains_ip_iff [simp]: "contains_ip ips ip \<longleftrightarrow> ip \<in> set ips"
proof -
  have "i = ip \<longleftrightarrow> ip_val i = ip_val ip \<and> ip_type i = ip_type ip" for i by (cases i; cases ip) simp
  then have "contains_ip ips ip \<longleftrightarrow> (\<exists>i \<in> set ips. i = ip)"
    by (simp only: contains_ip_def list_ex_iff)
  then show ?thesis by simp
qed

lemma pattern_of_host_glob: "''^'' @ pattern_of_host host @ ''$'' = glob_source host"
  unfolding pattern_of_host_def glob_source_def glob_chars_def replace_all_single
  by (induction host) auto

definition is_wildcard :: "string \<Rightarrow> bool" where
  "is_wildcard host \<longleftrightarrow> contains_any host ''*?''"

definition norm_host :: "string \<Rightarrow> string" where
  "norm_host host = to_lower (trim_space host)"

text \<open>The addresses a table holds under a name, plain or wildcard.\<close>

definition table_ips :: "hosts_maps \<Rightarrow> string \<Rightarrow> ip_info list" where
  "table_ips st host =
     (if is_wildcard host then (case hm_patterns st host of None \<Rightarrow> [] | Some p \<Rightarrow> hp_ips p)
      else domain_ips st host)"

lemma add_entry_cases:
  assumes "add_entry E host ip st = Inr st'"
  obtains (plain) "\<not> is_wildcard host" "st' = add_domain_ip host ip st"
  | (wild) "is_wildcard host" "re_compiles E (glob_source host)"
      "st' = add_pattern_ip host (pattern_of_host host) (glob_source host) ip st"
proof (cases "is_wildcard host")
  case False
  with assms plain show thesis by (simp add: add_entry_def is_wildcard_def)
next
  case True
  with assms have "(if re_compiles E (glob_source host)
      then Inr (add_pattern_ip host (pattern_of_host host) (glob_source host) ip st)
      else Inl (Bad_Host_Regexp host)) = Inr st'"
    unfolding pattern_of_host_glob [symmetric]
    by (simp add: add_entry_def is_wildcard_def Let_def split: if_splits)
  with True wild show thesis by (auto split: if_splits)
qed

lemma add_domain_ip_maps [simp]:
  "hm_patterns (add_domain_ip host ip st) = hm_patterns st"
  "hm_domains (add_domain_ip host ip st) =
     (if ip \<in> set (domain_ips st host) then hm_domains st
      else (hm_domains st)(host \<mapsto> domain_ips st host @ [ip]))"
  by (simp_all add: add_domain_ip_def)

lemma add_pattern_ip_maps [simp]:
  "hm_domains (add_pattern_ip host ph reg ip st) = hm_domains st"
  "hm_patterns (add_pattern_ip host ph reg ip st) =
     (case hm_patterns st host of
        Some p \<Rightarrow> if ip \<in> set (hp_ips p) then hm_patterns st
          else (hm_patterns st)(host \<mapsto> p\<lparr>hp_ips := hp_ips p @ [ip]\<rparr>)
      | None \<Rightarrow> (hm_patterns st)(host \<mapsto> \<lparr>hp_pattern = ph, hp_reg = reg, hp_ips = [ip]\<rparr>))"
  by (simp_all add: add_pattern_ip_def split: option.splits)

lemma add_entry_table:
  assumes "add_entry E host ip st = Inr st'"
  shows "table_ips st' h =
    (if h = host \<and> ip \<notin> set (table_ips st h) then table_ips st h @ [ip] else table_ips st h)"
  using assms
proof (cases rule: add_entry_cases)
  case plain
  then show ?thesis by (auto simp: table_ips_def domain_ips_def split: option.splits)
next
  case wild
  then show ?thesis by (auto simp: table_ips_def domain_ips_def split: option.splits)
qed

text \<open>What a well-formed table looks like.\<close>

definition hosts_inv :: "regexp_engine \<Rightarrow> hosts_maps \<Rightarrow> bool" where
  "hosts_inv E st \<longleftrightarrow>
     finite (dom (hm_patterns st)) \<and>
     (\<forall>h. distinct (table_ips st h) \<and>
        (\<forall>ip \<in> set (table_ips st h). ip \<noteq> zero_ip \<and> build_ip_info (ip_val ip) = ip)) \<and>
     (\<forall>h ips. hm_domains st h = Some ips \<longrightarrow> ips \<noteq> [] \<and> \<not> is_wildcard h \<and> norm_host h = h) \<and>
     (\<forall>h p. hm_patterns st h = Some p \<longrightarrow>
        hp_ips p \<noteq> [] \<and> is_wildcard h \<and> norm_host h = h \<and>
        hp_pattern p = pattern_of_host h \<and> hp_reg p = glob_source h \<and> re_compiles E (glob_source h))"

lemma trim_space_lower: "norm_host (norm_host h) = norm_host h"
proof -
  have l: "dropWhile is_space (map to_lower_char s) = map to_lower_char (dropWhile is_space s)" for s
    by (induction s) auto
  have "trim_space (to_lower s) = to_lower (trim_space s)" for s
    by (simp add: trim_space_def trim_def trim_left_def trim_right_def to_lower_def l rev_map)
  then show ?thesis by (simp add: norm_host_def trim_space_def)
qed

lemma build_ip_info_val: "build_ip_info v \<noteq> zero_ip \<Longrightarrow> ip_val (build_ip_info v) = v"
  by (auto simp: build_ip_info_def split: option.splits)

lemma hosts_inv_entry:
  assumes "hosts_inv E st" "add_entry E host ip st = Inr st'" "norm_host host = host"
    and "ip \<noteq> zero_ip" "build_ip_info (ip_val ip) = ip"
  shows "hosts_inv E st'"
proof -
  have t: "distinct (table_ips st' h) \<and>
      (\<forall>x \<in> set (table_ips st' h). x \<noteq> zero_ip \<and> build_ip_info (ip_val x) = x)" for h
    using assms(1,4,5) unfolding add_entry_table [OF assms(2)] hosts_inv_def by auto
  have d: "ips \<noteq> [] \<and> \<not> is_wildcard h \<and> norm_host h = h" if "hm_domains st' h = Some ips" for h ips
    using assms(2)
  proof (cases rule: add_entry_cases)
    case plain
    then show ?thesis using assms(1,3) that unfolding hosts_inv_def by (auto split: if_splits)
  next
    case wild
    then show ?thesis using assms(1) that unfolding hosts_inv_def by simp
  qed
  have p: "hp_ips p \<noteq> [] \<and> is_wildcard h \<and> norm_host h = h \<and>
        hp_pattern p = pattern_of_host h \<and> hp_reg p = glob_source h \<and> re_compiles E (glob_source h)"
    if "hm_patterns st' h = Some p" for h p
    using assms(2)
  proof (cases rule: add_entry_cases)
    case plain
    then show ?thesis using assms(1) that unfolding hosts_inv_def by auto
  next
    case wild
    then show ?thesis using assms(1,3) that unfolding hosts_inv_def
      by (auto split: if_splits option.splits)
  qed
  have "finite (dom (hm_patterns st'))"
    using assms(2)
  proof (cases rule: add_entry_cases)
    case plain
    then show ?thesis using assms(1) unfolding hosts_inv_def by simp
  next
    case wild
    then show ?thesis using assms(1) unfolding hosts_inv_def by (auto split: option.splits)
  qed
  with t d p show ?thesis unfolding hosts_inv_def by blast
qed

lemma hosts_inv_load_ip:
  assumes "hosts_inv E st" "load_ip E host s st = Inr st'" "norm_host host = host"
  shows "hosts_inv E st'"
proof -
  from assms(2) have "build_ip_info s \<noteq> zero_ip" "add_entry E host (build_ip_info s) st = Inr st'"
    by (simp_all add: load_ip_def Let_def split: if_splits)
  from hosts_inv_entry [OF assms(1) this(2) assms(3) this(1)] build_ip_info_val [OF this(1)]
  show ?thesis by simp
qed

lemma hosts_inv_load:
  assumes "hosts_inv E st" "load E host raws st = Inr st'"
  shows "hosts_inv E st'"
proof (cases "norm_host host = []")
  case True
  with assms show ?thesis by (simp add: load_def norm_host_def Let_def)
next
  case False
  with assms(2) have "fold_r (\<lambda>raw. fold_r (load_ip E (norm_host host)) (split_ips raw)) raws st = Inr st'"
    by (simp add: load_def norm_host_def Let_def)
  then show ?thesis
  proof (rule fold_r_invariant [where P = "hosts_inv E", OF _ assms(1)])
    fix raw t t'
    assume t: "hosts_inv E t" and "fold_r (load_ip E (norm_host host)) (split_ips raw) t = Inr t'"
    from this(2) show "hosts_inv E t'"
      by (rule fold_r_invariant [where P = "hosts_inv E", OF _ t])
        (rule hosts_inv_load_ip [OF _ _ trim_space_lower])
  qed
qed

lemma hosts_inv_line:
  assumes "hosts_inv E st" "load_line E text st = Inr st'"
  shows "hosts_inv E st'"
proof -
  have linux: "hosts_inv E t'" if "hosts_inv E t" "add_linux E (build_ip_info p) d t = Inr t'"
    "build_ip_info p \<noteq> zero_ip" for t t' d p
  proof (cases "norm_host d = []")
    case True
    with that show ?thesis by (simp add: add_linux_def norm_host_def Let_def)
  next
    case False
    with that(2) have "add_entry E (norm_host d) (build_ip_info p) t = Inr t'"
      by (simp add: add_linux_def norm_host_def Let_def)
    from hosts_inv_entry [OF that(1) this trim_space_lower that(3)] show ?thesis
      using build_ip_info_val [OF that(3)] by simp
  qed
  consider "st' = st"
    | p ds where "build_ip_info p \<noteq> zero_ip" "fold_r (add_linux E (build_ip_info p)) ds st = Inr st'"
    | p ds where "load E p ds st = Inr st'"
  proof -
    let ?l = "trim_space text"
    assume a: "st' = st \<Longrightarrow> thesis"
      "\<And>p ds. build_ip_info p \<noteq> zero_ip \<Longrightarrow> fold_r (add_linux E (build_ip_info p)) ds st = Inr st' \<Longrightarrow> thesis"
      "\<And>p ds. load E p ds st = Inr st' \<Longrightarrow> thesis"
    show thesis
    proof (cases "prefix ''#'' ?l \<or> prefix ''//'' ?l \<or> length (fields_func is_space ?l) < 2")
      case True
      then have "load_line E text st = Inr st"
        by (cases "fields_func is_space ?l"; cases "tl (fields_func is_space ?l)")
          (simp_all add: load_line_def Let_def)
      with assms(2) a(1) show thesis by simp
    next
      case False
      then obtain p q parts where f: "fields_func is_space ?l = p # q # parts"
        by (cases "fields_func is_space ?l"; cases "tl (fields_func is_space ?l)") auto
      with False have "load_line E text st =
        (if build_ip_info p \<noteq> zero_ip then fold_r (add_linux E (build_ip_info p)) (q # parts) st
         else load E p (q # parts) st)"
        by (simp add: load_line_def Let_def del: fold_r.simps)
      with assms(2) a(2,3) show thesis by (metis (full_types))
    qed
  qed
  then show ?thesis
  proof cases
    case 2
    from 2(2) show ?thesis
      by (rule fold_r_invariant [where P = "hosts_inv E", OF _ assms(1)]) (rule linux [OF _ _ 2(1)])
  qed (use assms(1) hosts_inv_load in blast)+
qed

lemma hosts_inv_file:
  assumes "hosts_inv E st" "load_file E fs f st = Inr st'"
  shows "hosts_inv E st'"
proof -
  from assms(2) obtain lines where "fold_r (load_line E) lines st = Inr st'"
    by (auto simp: load_file_def and_then_Inr split: option.splits prod.splits if_splits)
  then show ?thesis
    by (rule fold_r_invariant [where P = "hosts_inv E", OF _ assms(1)]) (rule hosts_inv_line)
qed

lemma hosts_inv_empty: "hosts_inv E empty_maps"
  by (simp add: hosts_inv_def empty_maps_def table_ips_def domain_ips_def)

lemma hosts_inv_load_hosts:
  assumes "hosts_inv E st" "load_hosts E visit st = Inr st'"
  shows "hosts_inv E st'"
  using assms(2) unfolding load_hosts_def
  by (rule fold_r_invariant [where P = "hosts_inv E", OF _ assms(1)])
    (use hosts_inv_load in \<open>auto split: prod.splits\<close>)

text \<open>The reader that is built holds the tables of a well-formed state.\<close>

lemma new_dns_hosts_state:
  assumes "new_dns_hosts E fs visit files range_of = Inr h"
  obtains st where "hosts_inv E st" "hr_domains h = hm_domains st"
    "hr_patterns h = sort_patterns (map snd (range_of (hm_patterns st)))"
proof -
  from assms obtain st st' where st: "load_hosts E visit empty_maps = Inr st"
      "fold_r (load_file E fs) files st = Inr st'"
      "h = \<lparr>hr_domains = hm_domains st',
            hr_patterns = sort_patterns (map snd (range_of (hm_patterns st')))\<rparr>"
    by (auto simp: new_dns_hosts_def and_then_Inr)
  have "hosts_inv E st'"
    using st(2)
    by (rule fold_r_invariant [where P = "hosts_inv E", OF _ hosts_inv_load_hosts [OF hosts_inv_empty st(1)]])
      (rule hosts_inv_file)
  with st(3) that show thesis by simp
qed

lemma set_sort_patterns [simp]: "set (sort_patterns ps) = set ps"
  by (simp add: sort_patterns_def)

lemma reader_patterns:
  assumes "new_dns_hosts E fs visit files range_of = Inr h" "range_law range_of"
  obtains st where "hosts_inv E st" "hr_domains h = hm_domains st"
    "set (hr_patterns h) = {p. \<exists>w. hm_patterns st w = Some p}"
    "sorted (map (\<lambda>p. Rank (hp_pattern p)) (hr_patterns h))"
proof -
  from assms(1) obtain st where st: "hosts_inv E st" "hr_domains h = hm_domains st"
      "hr_patterns h = sort_patterns (map snd (range_of (hm_patterns st)))"
    by (rule new_dns_hosts_state)
  have "enumerates (range_of (hm_patterns st)) (hm_patterns st)"
    using assms(2) st(1) by (simp add: range_law_def hosts_inv_def)
  then have "set (hr_patterns h) = {p. \<exists>w. hm_patterns st w = Some p}"
    using enumerates_set [of "range_of (hm_patterns st)"] st(3) by (force simp: image_iff)
  moreover have "sorted (map (\<lambda>p. Rank (hp_pattern p)) (hr_patterns h))"
    by (simp add: st(3) sort_patterns_def)
  ultimately show thesis using st that by blast
qed

text \<open>The first match in a sorted list has the least rank among the matches.\<close>

lemma find_least:
  fixes f :: "'a \<Rightarrow> 'b::linorder"
  assumes "sorted (map f xs)" "find P xs = Some x" "y \<in> set xs" "P y"
  shows "f x \<le> f y"
  using assms by (induction xs) (auto split: if_splits)

text \<open>What an engine that reads wildcards makes of a table's expressions.\<close>

context regexp_glob
begin

lemma pattern_matches:
  assumes "hosts_inv E st" "hm_patterns st w = Some p"
    and "\<forall>c \<in> set w. domain_char c \<or> c = CHR ''*'' \<or> c = CHR ''?''"
  shows "re_matches E (hp_reg p) s \<longleftrightarrow> glob w s"
  using assms glob_matches [OF assms(3)] unfolding hosts_inv_def by metis

end

subsection \<open>The order of the configured map\<close>

definition host_entries :: "string \<times> string list \<Rightarrow> (string \<times> string) list" where
  "host_entries hi =
     (case hi of (host, ips) \<Rightarrow>
        if norm_host host = [] then []
        else map (\<lambda>s. (norm_host host, s)) (concat (map split_ips ips)))"

lemma load_entries: "load E host ips st = fold_r (\<lambda>(h, s). load_ip E h s) (host_entries (host, ips)) st"
  by (simp add: load_def host_entries_def norm_host_def Let_def fold_r_map fold_r_concat)

lemma load_hosts_entries:
  "load_hosts E visit st = fold_r (\<lambda>(h, s). load_ip E h s) (concat (map host_entries visit)) st"
proof -
  have "(\<lambda>(host, ips). load E host ips) = (\<lambda>x. fold_r (\<lambda>(h, s). load_ip E h s) (host_entries x))"
    by (auto simp: load_entries fun_eq_iff)
  then show ?thesis unfolding load_hosts_def fold_r_concat fold_r_map by (rule arg_cong)
qed

definition bad_entry :: "regexp_engine \<Rightarrow> string \<times> string \<Rightarrow> bool" where
  "bad_entry E hs \<longleftrightarrow>
     (case hs of (h, s) \<Rightarrow> build_ip_info s = zero_ip \<or> is_wildcard h \<and> \<not> re_compiles E (glob_source h))"

lemma load_ip_fails: "(\<exists>e. (case x of (h, s) \<Rightarrow> load_ip E h s) st = Inl e) \<longleftrightarrow> bad_entry E x"
  by (cases x) (simp add: load_ip_def bad_entry_def add_entry_def is_wildcard_def Let_def
      pattern_of_host_glob [simplified])

lemma load_hosts_table:
  assumes "fold_r (\<lambda>(h, s). load_ip E h s) es st = Inr st'"
  shows "set (table_ips st' h) = set (table_ips st h) \<union> {build_ip_info s |s. (h, s) \<in> set es}"
  using assms
proof (induction es arbitrary: st)
  case Nil
  then show ?case by simp
next
  case (Cons e es)
  obtain g s where e: "e = (g, s)" by (cases e)
  with Cons.prems obtain t where t: "load_ip E g s st = Inr t"
    "fold_r (\<lambda>(h, s). load_ip E h s) es t = Inr st'" by (auto simp: and_then_Inr)
  then have "add_entry E g (build_ip_info s) st = Inr t" by (auto simp: load_ip_def Let_def split: if_splits)
  from add_entry_table [OF this, of h] Cons.IH [OF t(2)] e show ?case by auto
qed

subsection \<open>Properties\<close>

text \<open>C37: The order in which the configured hosts map is visited does not matter: a table is
  refused in one order exactly when it is in another, and otherwise both hold, under every
  name, the same set of addresses, without duplicates.\<close>

theorem hosts_order_irrelevant:
  assumes "enumerates visit1 m" "enumerates visit2 m"
  shows "((\<exists>e. load_hosts E visit1 empty_maps = Inl e) \<longleftrightarrow> (\<exists>e. load_hosts E visit2 empty_maps = Inl e)) \<and>
    (\<forall>st1 st2 h. load_hosts E visit1 empty_maps = Inr st1 \<and> load_hosts E visit2 empty_maps = Inr st2 \<longrightarrow>
       mset (table_ips st1 h) = mset (table_ips st2 h))"
proof -
  have es: "set (concat (map host_entries visit1)) = set (concat (map host_entries visit2))"
    using enumerates_mset [OF assms] by (metis mset_eq_setD set_concat set_map)
  have "mset (table_ips st1 h) = mset (table_ips st2 h)"
    if "load_hosts E visit1 empty_maps = Inr st1" "load_hosts E visit2 empty_maps = Inr st2" for st1 st2 h
  proof -
    have "set (table_ips st1 h) = set (table_ips st2 h)"
      using that es by (simp add: load_hosts_entries load_hosts_table)
    moreover have "distinct (table_ips st1 h)" "distinct (table_ips st2 h)"
      using hosts_inv_load_hosts [OF hosts_inv_empty that(1)] hosts_inv_load_hosts [OF hosts_inv_empty that(2)]
      by (simp_all add: hosts_inv_def)
    ultimately show ?thesis using set_eq_iff_mset_eq_distinct by blast
  qed
  then show ?thesis
    unfolding load_hosts_entries fold_r_fails [where bad = "bad_entry E", OF load_ip_fails] es by blast
qed

theorem hosts_order_irrelevant_witness:
  "mset (table_ips (case load_hosts go_regexp [(''a.test'', [''192.0.2.1'']), ('' A.test'', [''192.0.2.2''])] empty_maps
           of Inr st \<Rightarrow> st | Inl _ \<Rightarrow> empty_maps) ''a.test'') =
   mset (table_ips (case load_hosts go_regexp [('' A.test'', [''192.0.2.2'']), (''a.test'', [''192.0.2.1''])] empty_maps
           of Inr st \<Rightarrow> st | Inl _ \<Rightarrow> empty_maps) ''a.test'')"
proof -
  let ?v1 = "[(''a.test'', [''192.0.2.1'']), ('' A.test'', [''192.0.2.2''])]"
  let ?v2 = "[('' A.test'', [''192.0.2.2'']), (''a.test'', [''192.0.2.1''])]"
  have e: "enumerates ?v1 (map_of ?v1)" "enumerates ?v2 (map_of ?v1)"
    by (auto simp: enumerates_def)
  have "\<not> (\<exists>e. load_hosts go_regexp ?v1 empty_maps = Inl e)"
    unfolding load_hosts_entries fold_r_fails [where bad = "bad_entry go_regexp", OF load_ip_fails] by code_simp
  then obtain st1 where 1: "load_hosts go_regexp ?v1 empty_maps = Inr st1"
    by (cases "load_hosts go_regexp ?v1 empty_maps") auto
  with hosts_order_irrelevant [OF e, of go_regexp] obtain st2 where 2: "load_hosts go_regexp ?v2 empty_maps = Inr st2"
    by (cases "load_hosts go_regexp ?v2 empty_maps") auto
  from hosts_order_irrelevant [OF e, of go_regexp] 1 2 show ?thesis by auto
qed


definition sample_hosts :: "(string \<times> string list) list" where
  "sample_hosts = [(''ab.test'', [''192.0.2.1'']), (''ab*'', [''192.0.2.2, 192.0.2.3''])]"

lemma sample_hosts_load: "\<exists>st. load_hosts go_regexp sample_hosts empty_maps = Inr st"
proof -
  have "\<not> (\<exists>e. load_hosts go_regexp sample_hosts empty_maps = Inl e)"
    unfolding load_hosts_entries fold_r_fails [where bad = "bad_entry go_regexp", OF load_ip_fails] by code_simp
  then show ?thesis by (cases "load_hosts go_regexp sample_hosts empty_maps") auto
qed


text \<open>The name is first looked up as it comes, with the root dot of a query, among the
  plain names and the patterns, and only then without it. So a pattern that matches the
  dotted name, one that ends in a star, decides even when the name itself has a plain
  entry.\<close>

theorem trailing_wildcard_shadows_entry:
  assumes "msg_question req = \<lparr>q_name = host @ ''.'', q_type = type_A, q_class = 1\<rparr> # qs"
    and "to_lower host = host" "hr_domains h (host @ ''.'') = None" "hr_domains h host = Some exact"
    and "find (\<lambda>p. re_matches E (hp_reg p) (host @ ''.'')) (hr_patterns h) = Some p"
  shows "hosts_get E L h req =
    (case host_answers L (host @ ''.'') type_A (hp_ips p) of [] \<Rightarrow> None
     | a # as \<Rightarrow> Some ((lib_set_reply L new_msg req)\<lparr>msg_answer := a # as\<rparr>))"
proof -
  have "to_lower (host @ ''.'') = host @ ''.''" using assms(2) by (simp add: to_lower_Cons to_lower_char_def)
  moreover have "get_ips E h (host @ ''.'') = Some (hp_ips p)" using assms(3,5) by (simp add: get_ips_def)
  ultimately show ?thesis
    using assms(1) by (simp add: hosts_get_def Let_def split: list.splits)
qed

definition sample_reader :: host_reader where
  "sample_reader =
     \<lparr>hr_domains = [''ab.test'' \<mapsto> [build_ip_info ''192.0.2.1'']],
      hr_patterns = [\<lparr>hp_pattern = pattern_of_host ''ab*'', hp_reg = glob_source ''ab*'',
                      hp_ips = [build_ip_info ''192.0.2.2'']\<rparr>]\<rparr>"

definition text_lib :: dns_lib where
  "text_lib = plain_lib\<lparr>lib_new_rr := (\<lambda>s. Some (RR_TXT \<lparr>hdr_name = [], hdr_rrtype = 16, hdr_class = 1, hdr_ttl = 0\<rparr> [s]))\<rparr>"

theorem trailing_wildcard_shadows_entry_witness:
  "map_option (map rr_texts \<circ> msg_answer)
     (hosts_get go_regexp text_lib sample_reader
       (new_msg\<lparr>msg_question := [\<lparr>q_name = ''ab.test.'', q_type = type_A, q_class = 1\<rparr>]\<rparr>)) =
   Some [[''ab.test. 0 IN A 192.0.2.2'']]"
proof -
  let ?p = "\<lparr>hp_pattern = pattern_of_host ''ab*'', hp_reg = glob_source ''ab*'',
    hp_ips = [build_ip_info ''192.0.2.2'']\<rparr>"
  let ?req = "new_msg\<lparr>msg_question := [\<lparr>q_name = ''ab.test.'', q_type = type_A, q_class = 1\<rparr>]\<rparr>"
  have q: "msg_question ?req = \<lparr>q_name = ''ab.test'' @ ''.'', q_type = type_A, q_class = 1\<rparr> # []" by simp
  have l: "to_lower ''ab.test'' = ''ab.test''" by code_simp
  have e: "hr_domains sample_reader (''ab.test'' @ ''.'') = None"
    "hr_domains sample_reader ''ab.test'' = Some [build_ip_info ''192.0.2.1'']"
    by (simp_all add: sample_reader_def)
  have "re_matches go_regexp (glob_source ''ab*'') ''ab.test.''" by code_simp
  then have f: "find (\<lambda>p. re_matches go_regexp (hp_reg p) (''ab.test'' @ ''.'')) (hr_patterns sample_reader) = Some ?p"
    by (simp add: sample_reader_def)
  have "map rr_texts (host_answers text_lib ''ab.test.'' type_A [build_ip_info ''192.0.2.2'']) =
    [[''ab.test. 0 IN A 192.0.2.2'']]" by code_simp
  then obtain r where "host_answers text_lib ''ab.test.'' type_A [build_ip_info ''192.0.2.2''] = [r]"
    "rr_texts r = [''ab.test. 0 IN A 192.0.2.2'']"
    by (auto simp: map_eq_Cons_conv simp del: host_answers.simps)
  then show ?thesis
    using trailing_wildcard_shadows_entry [OF q l e f, of text_lib] by (simp del: host_answers.simps)
qed

end
