(* ===== verification/Cidr_Redirector.thy ===== *)
theory Cidr_Redirector
  imports Config Dns_Types Go_Io
begin

section \<open>Redirectors (\<open>redirector/redirector.go\<close>)\<close>

text \<open>
  A redirector looks at the addresses of a response and names the group the query goes to
  next. The trie of networks is a library's: its operations are a record, and what the
  theorems rely on is \<open>ranger_law\<close>. A group is named by its key in the map of groups, which
  is also the name it carries.
\<close>

subsection \<open>The library's ranger\<close>

record 'r ranger =
  rg_new :: 'r
  rg_insert :: "'r \<Rightarrow> ip_net \<Rightarrow> 'r option"
  rg_contains :: "'r \<Rightarrow> ip \<Rightarrow> bool option"

text \<open>
  Documented behaviour, for networks in their family's own notation: an address is contained
  if it lies in a network that was inserted, IPv4 and IPv6 (an IPv4 address in 16 bytes is
  IPv4) being kept apart; asking for something that is no address is an error.
\<close>

definition plain_net :: "ip_net \<Rightarrow> bool" where
  "plain_net n \<longleftrightarrow> length (net_ip n) = 4 \<and> net_bits n = 32 \<or>
     length (net_ip n) = 16 \<and> net_bits n = 128 \<and> to4 (net_ip n) = None"

definition in_net :: "ip_net \<Rightarrow> ip \<Rightarrow> bool" where
  "in_net n a =
     (case to4 a of
        Some a4 \<Rightarrow> net_bits n = 32 \<and> apply_mask (net_ones n) a4 = net_ip n
      | None \<Rightarrow> net_bits n = 128 \<and> apply_mask (net_ones n) a = net_ip n)"

definition valid_ip :: "ip \<Rightarrow> bool" where
  "valid_ip a \<longleftrightarrow> length a = 4 \<or> length a = 16"

definition ranger_law :: "'r ranger \<Rightarrow> bool" where
  "ranger_law R \<longleftrightarrow>
     (\<forall>a. rg_contains R (rg_new R) a = (if valid_ip a then Some False else None)) \<and>
     (\<forall>r n. plain_net n \<longrightarrow>
        (\<exists>r'. rg_insert R r n = Some r' \<and>
           (\<forall>a. rg_contains R r' a = map_option (\<lambda>b. b \<or> in_net n a) (rg_contains R r a))))"

subsection \<open>A redirector by networks\<close>

definition type_match_cidr :: string where "type_match_cidr = ''match_cidr''"
definition type_mismatch_cidr :: string where "type_mismatch_cidr = ''mismatch_cidr''"

record 'r cidr_redirector =
  cd_name :: string
  cd_ranger :: 'r
  cd_not_in :: bool
  cd_dst :: string

definition cidr_match :: "'r ranger \<Rightarrow> 'r cidr_redirector \<Rightarrow> ip \<Rightarrow> bool" where
  "cidr_match R d a =
     (case rg_contains R (cd_ranger d) a of
        None \<Rightarrow> False
      | Some is_in \<Rightarrow> if cd_not_in d then \<not> is_in else is_in)"

fun cidr_redirect :: "'r ranger \<Rightarrow> 'r cidr_redirector \<Rightarrow> rr list \<Rightarrow> string option" where
  "cidr_redirect R d [] = None"
| "cidr_redirect R d (RR_A h a # rs) = (if cidr_match R d a then Some (cd_dst d) else cidr_redirect R d rs)"
| "cidr_redirect R d (RR_AAAA h a # rs) = (if cidr_match R d a then Some (cd_dst d) else cidr_redirect R d rs)"
| "cidr_redirect R d (_ # rs) = cidr_redirect R d rs"

definition cidr_string :: "'r cidr_redirector \<Rightarrow> string" where
  "cidr_string d = ''cidr_redirector_'' @ cd_name d"

datatype redirector_error =
    Unknown_Dst string | Parse_Cidr_Failed string | Add_Cidr_Failed string | Rules_Open_Failed string
  | Rules_Scan_Failed string | Unknown_Type string | Redirector_Missing string

definition add_cidr :: "'r ranger \<Rightarrow> string \<Rightarrow> 'r \<Rightarrow> redirector_error + 'r" where
  "add_cidr R val r =
     (case parse_cidr val of
        None \<Rightarrow> Inl (Parse_Cidr_Failed val)
      | Some (a, n) \<Rightarrow>
          (case rg_insert R r n of None \<Rightarrow> Inl (Add_Cidr_Failed val) | Some r' \<Rightarrow> Inr r'))"

definition skip_line :: "string \<Rightarrow> bool" where
  "skip_line l \<longleftrightarrow> l = [] \<or> prefix ''#'' l \<or> prefix ''//'' l"

definition add_cidr_line :: "'r ranger \<Rightarrow> string \<Rightarrow> 'r \<Rightarrow> redirector_error + 'r" where
  "add_cidr_line R text r =
     (let l = trim_space text in if skip_line l then Inr r else add_cidr R l r)"

definition new_cidr_redirector ::
  "'r ranger \<Rightarrow> file_system \<Rightarrow> (string \<rightharpoonup> 'g) \<Rightarrow> string \<Rightarrow> redirector_conf \<Rightarrow> redirector_error + 'r cidr_redirector"
where
  "new_cidr_redirector R fs groups name c =
     (if groups (rd_dst_group c) = None then Inl (Unknown_Dst (rd_dst_group c))
      else
        and_then (fold_r (add_cidr R) (rd_rules c) (rg_new R)) (\<lambda>r.
        and_then
          (if rd_rules_file c = [] then Inr r
           else case fs (rd_rules_file c) of
               None \<Rightarrow> Inl (Rules_Open_Failed (rd_rules_file c))
             | Some content \<Rightarrow>
                 (case scan_lines content of
                    (ls, failed) \<Rightarrow>
                      and_then (fold_r (add_cidr_line R) ls r)
                        (\<lambda>r. if failed then Inl (Rules_Scan_Failed (rd_rules_file c)) else Inr r)))
          (\<lambda>r. Inr \<lparr>cd_name = name, cd_ranger = r, cd_not_in = (rd_type c = type_mismatch_cidr),
                    cd_dst = rd_dst_group c\<rparr>)))"

subsection \<open>All redirectors\<close>

definition build_redirector ::
  "'r ranger \<Rightarrow> file_system \<Rightarrow> (string \<rightharpoonup> 'g) \<Rightarrow> string \<times> redirector_conf \<Rightarrow>
   (string \<rightharpoonup> 'r cidr_redirector) \<Rightarrow> redirector_error + (string \<rightharpoonup> 'r cidr_redirector)"
where
  "build_redirector R fs groups nc m =
     (case nc of (name, c) \<Rightarrow>
        if to_lower (rd_type c) = type_match_cidr \<or> to_lower (rd_type c) = type_mismatch_cidr
        then and_then (new_cidr_redirector R fs groups name c) (\<lambda>d. Inr (m(name \<mapsto> d)))
        else Inl (Unknown_Type (rd_type c)))"

definition assign_redirector ::
  "(string \<rightharpoonup> 'r cidr_redirector) \<Rightarrow> string \<times> group_conf \<Rightarrow>
   (string \<rightharpoonup> 'r cidr_redirector) \<Rightarrow> redirector_error + (string \<rightharpoonup> 'r cidr_redirector)"
where
  "assign_redirector rds nc m =
     (case nc of (name, c) \<Rightarrow>
        if gr_redirector c \<noteq> [] then
          (case rds (gr_redirector c) of
             None \<Rightarrow> Inl (Redirector_Missing (gr_redirector c))
           | Some d \<Rightarrow> Inr (m(name \<mapsto> d)))
        else Inr m)"

text \<open>The table of the redirector of each group, which \<open>NewRedirector\<close>'s closure holds.\<close>

definition new_redirector ::
  "'r ranger \<Rightarrow> file_system \<Rightarrow> (string \<rightharpoonup> 'g) \<Rightarrow> (string \<times> redirector_conf) list \<Rightarrow>
   (string \<times> group_conf) list \<Rightarrow> redirector_error + (string \<rightharpoonup> 'r cidr_redirector)"
where
  "new_redirector R fs groups visit visit_groups =
     and_then (fold_r (build_redirector R fs groups) visit Map.empty)
       (\<lambda>rds. fold_r (assign_redirector rds) visit_groups Map.empty)"

definition redirect ::
  "'r ranger \<Rightarrow> (string \<rightharpoonup> 'r cidr_redirector) \<Rightarrow> string \<Rightarrow> dns_msg option \<Rightarrow> string option"
where
  "redirect R table src resp =
     (case (resp, table src) of
        (Some m, Some d) \<Rightarrow>
          (case cidr_redirect R d (msg_answer m) of
             None \<Rightarrow> None
           | Some g \<Rightarrow> if src = g then None else Some g)
      | _ \<Rightarrow> None)"

subsection \<open>What a redirector holds\<close>

text \<open>The rule texts a redirector is built from: the configured ones, then the file's.\<close>

definition rule_texts :: "file_system \<Rightarrow> redirector_conf \<Rightarrow> string list" where
  "rule_texts fs c = rd_rules c @
     (if rd_rules_file c = [] then []
      else filter (\<lambda>l. \<not> skip_line l) (map trim_space (fst (scan_lines (the (fs (rd_rules_file c)))))))"

definition rule_nets :: "string list \<Rightarrow> ip_net list" where
  "rule_nets ts = List.map_filter (\<lambda>t. map_option snd (parse_cidr t)) ts"

text \<open>Whether an address calls for the redirection, as the configuration says.\<close>

definition hits :: "file_system \<Rightarrow> redirector_conf \<Rightarrow> ip \<Rightarrow> bool" where
  "hits fs c a \<longleftrightarrow> valid_ip a \<and>
     (if rd_type c = type_mismatch_cidr then \<forall>n \<in> set (rule_nets (rule_texts fs c)). \<not> in_net n a
      else \<exists>n \<in> set (rule_nets (rule_texts fs c)). in_net n a)"

fun answer_address :: "rr \<Rightarrow> ip option" where
  "answer_address (RR_A h a) = Some a"
| "answer_address (RR_AAAA h a) = Some a"
| "answer_address _ = None"

lemma cidr_redirect_iff:
  "cidr_redirect R d rs = Some g \<longleftrightarrow>
     g = cd_dst d \<and> (\<exists>r \<in> set rs. \<exists>a. answer_address r = Some a \<and> cidr_match R d a)"
  by (induction R d rs rule: cidr_redirect.induct) auto

lemma add_lines_texts:
  "fold_r (add_cidr_line R) ls r = fold_r (add_cidr R) (filter (\<lambda>l. \<not> skip_line l) (map trim_space ls)) r"
proof (induction ls arbitrary: r)
  case (Cons l ls)
  have "fold_r (add_cidr R) ts r = and_then (Inr r) (fold_r (add_cidr R) ts)" for ts by simp
  with Cons show ?case by (cases "add_cidr R (trim_space l) r") (auto simp: add_cidr_line_def Let_def)
qed simp

lemma new_cidr_redirector_built:
  assumes "new_cidr_redirector R fs groups name c = Inr d"
  shows "fold_r (add_cidr R) (rule_texts fs c) (rg_new R) = Inr (cd_ranger d)"
    "cd_not_in d = (rd_type c = type_mismatch_cidr)" "cd_dst d = rd_dst_group c"
    "groups (rd_dst_group c) \<noteq> None"
  using assms
  by (auto simp: new_cidr_redirector_def rule_texts_def and_then_Inr fold_r_append add_lines_texts
      split: if_splits option.splits prod.splits)

text \<open>What is contained after the rules are added.\<close>

lemma add_cidr_contains:
  assumes "ranger_law R" "fold_r (add_cidr R) ts r = Inr r'" "\<forall>n \<in> set (rule_nets ts). plain_net n"
  shows "rg_contains R r' a = map_option (\<lambda>b. b \<or> (\<exists>n \<in> set (rule_nets ts). in_net n a)) (rg_contains R r a)"
  using assms(2,3)
proof (induction ts arbitrary: r)
  case Nil
  then show ?case by (cases "rg_contains R r a") (simp_all add: rule_nets_def List.map_filter_def)
next
  case (Cons t ts)
  from Cons.prems(1) obtain s where s: "add_cidr R t r = Inr s" "fold_r (add_cidr R) ts s = Inr r'"
    by (auto simp: and_then_Inr)
  then obtain b n where n: "parse_cidr t = Some (b, n)" "rg_insert R r n = Some s"
    by (auto simp: add_cidr_def split: option.splits)
  then have nets: "rule_nets (t # ts) = n # rule_nets ts" by (simp add: rule_nets_def List.map_filter_def)
  with Cons.prems(2) have p: "plain_net n" by simp
  with assms(1) n(2) have "rg_contains R s a = map_option (\<lambda>b. b \<or> in_net n a) (rg_contains R r a)"
    unfolding ranger_law_def by (metis option.inject)
  moreover have "rg_contains R r' a =
      map_option (\<lambda>b. b \<or> (\<exists>n \<in> set (rule_nets ts). in_net n a)) (rg_contains R s a)"
    by (rule Cons.IH [OF s(2)]) (use Cons.prems(2) nets in auto)
  ultimately show ?case unfolding nets by (cases "rg_contains R r a") auto
qed

lemma cidr_match_hits:
  assumes "ranger_law R" "new_cidr_redirector R fs groups name c = Inr d"
    and "\<forall>n \<in> set (rule_nets (rule_texts fs c)). plain_net n"
  shows "cidr_match R d a = hits fs c a"
proof -
  have "rg_contains R (rg_new R) a = (if valid_ip a then Some False else None)"
    using assms(1) by (simp add: ranger_law_def)
  with add_cidr_contains [OF assms(1) new_cidr_redirector_built(1) [OF assms(2)] assms(3), of a]
  have "rg_contains R (cd_ranger d) a =
      (if valid_ip a then Some (\<exists>n \<in> set (rule_nets (rule_texts fs c)). in_net n a) else None)"
    by simp
  then show ?thesis
    using new_cidr_redirector_built(2) [OF assms(2)] by (simp add: cidr_match_def hits_def)
qed

subsection \<open>The tables\<close>

text \<open>A loop over the pairs of a map that sets an entry per key, or none.\<close>

lemma fold_r_table:
  assumes "fold_r f visit m = Inr m'" "distinct (map fst visit)"
    and "\<And>k v m. f (k, v) m = and_then (g k v) (\<lambda>e. Inr (case e of None \<Rightarrow> m | Some d \<Rightarrow> m(k \<mapsto> d)))"
  shows "m' k = (case map_of visit k of
      None \<Rightarrow> m k
    | Some v \<Rightarrow> (case projr (g k v) of None \<Rightarrow> m k | Some d \<Rightarrow> Some d))"
    and "map_of visit k = Some v \<Longrightarrow> \<exists>e. g k v = Inr e"
  using assms(1,2)
proof (induction visit arbitrary: m)
  case Nil
  { case 1 then show ?case by simp }
  { case 2 then show ?case by simp }
next
  case (Cons nc visit)
  obtain n c where nc: "nc = (n, c)" by (cases nc)
  { case 1
    then obtain e where e: "g n c = Inr e"
      "fold_r f visit (case e of None \<Rightarrow> m | Some d \<Rightarrow> m(n \<mapsto> d)) = Inr m'"
      by (auto simp: nc assms(3) and_then_Inr)
    from 1(2) have "distinct (map fst visit)" "map_of visit n = None"
      by (auto simp: nc map_of_eq_None_iff)
    with Cons.IH(1) [OF e(2)] e(1) show ?case
      by (cases "k = n"; cases e) (auto simp: nc split: option.split) }
  { case 2
    then obtain e where e: "g n c = Inr e"
      "fold_r f visit (case e of None \<Rightarrow> m | Some d \<Rightarrow> m(n \<mapsto> d)) = Inr m'"
      by (auto simp: nc assms(3) and_then_Inr)
    from 2(3) have "distinct (map fst visit)" by simp
    with Cons.IH(2) [OF _ e(2)] e(1) 2(1) show ?case
      by (cases "k = n") (auto simp: nc) }
qed

lemma build_redirector_table:
  assumes "fold_r (build_redirector R fs groups) visit Map.empty = Inr rds" "enumerates visit confs"
  shows "rds k = Some d \<longleftrightarrow> (\<exists>c. confs k = Some c \<and> new_cidr_redirector R fs groups k c = Inr d)"
proof -
  let ?g = "\<lambda>name c.
    if to_lower (rd_type c) = type_match_cidr \<or> to_lower (rd_type c) = type_mismatch_cidr
    then and_then (new_cidr_redirector R fs groups name c) (\<lambda>d. Inr (Some d)) else Inl (Unknown_Type (rd_type c))"
  have f: "build_redirector R fs groups (k, v) m =
      and_then (?g k v) (\<lambda>e. Inr (case e of None \<Rightarrow> m | Some d \<Rightarrow> m(k \<mapsto> d)))" for k v m
    by (cases "new_cidr_redirector R fs groups k v") (simp_all add: build_redirector_def)
  have d: "distinct (map fst visit)" "map_of visit = confs" using assms(2) by (simp_all add: enumerates_def)
  show ?thesis
  proof (cases "confs k")
    case None
    with fold_r_table(1) [OF assms(1) d(1) f, of k] d(2) show ?thesis by simp
  next
    case (Some c)
    with fold_r_table(2) [OF assms(1) d(1) f, of k c] d(2) obtain e where "?g k c = Inr e" by auto
    then obtain d' where "?g k c = Inr (Some d')" "new_cidr_redirector R fs groups k c = Inr d'"
      by (auto simp: and_then_Inr split: if_splits)
    with fold_r_table(1) [OF assms(1) d(1) f, of k] d(2) Some show ?thesis by auto
  qed
qed

lemma assign_redirector_table:
  assumes "fold_r (assign_redirector rds) visit Map.empty = Inr table" "enumerates visit gcs"
  shows "table k = Some d \<longleftrightarrow>
    (\<exists>c. gcs k = Some c \<and> gr_redirector c \<noteq> [] \<and> rds (gr_redirector c) = Some d)"
proof -
  let ?g = "\<lambda>name c. if gr_redirector c \<noteq> [] then
      (case rds (gr_redirector c) of None \<Rightarrow> Inl (Redirector_Missing (gr_redirector c)) | Some d \<Rightarrow> Inr (Some d))
    else Inr None"
  have f: "assign_redirector rds (k, v) m =
      and_then (?g k v) (\<lambda>e. Inr (case e of None \<Rightarrow> m | Some d \<Rightarrow> m(k \<mapsto> d)))" for k v m
    by (simp add: assign_redirector_def split: option.split)
  have d: "distinct (map fst visit)" "map_of visit = gcs" using assms(2) by (simp_all add: enumerates_def)
  show ?thesis
  proof (cases "gcs k")
    case None
    with fold_r_table(1) [OF assms(1) d(1) f, of k] d(2) show ?thesis by simp
  next
    case (Some c)
    with fold_r_table(2) [OF assms(1) d(1) f, of k c] d(2) obtain e where "?g k c = Inr e" by auto
    with fold_r_table(1) [OF assms(1) d(1) f, of k] d(2) Some show ?thesis
      by (auto split: if_splits option.splits)
  qed
qed

lemma fold_r_assigned:
  assumes "fold_r (assign_redirector rds) visit m = Inr table" "(k, c) \<in> set visit" "gr_redirector c \<noteq> []"
  shows "\<exists>d. rds (gr_redirector c) = Some d"
  using assms(1,2)
proof (induction visit arbitrary: m)
  case (Cons nc visit)
  then obtain m' where m': "assign_redirector rds nc m = Inr m'"
    "fold_r (assign_redirector rds) visit m' = Inr table"
    by (auto simp: and_then_Inr)
  show ?case
  proof (cases "nc = (k, c)")
    case True
    with m'(1) assms(3) show ?thesis by (simp add: assign_redirector_def split: option.splits)
  next
    case False
    with Cons m'(2) show ?thesis by auto
  qed
qed simp

subsection \<open>Properties\<close>

text \<open>C30: When a query is redirected, and where: exactly when its group is configured with a
  redirector, some address of the answer is a hit (in one of the networks of the rules and
  the rules file, or in none of them for the type mismatch_cidr), and the destination is
  not the group itself; a missing response is never redirected, and a destination exists.\<close>

theorem redirect_spec:
  assumes "ranger_law R" "new_redirector R fs groups visit visit_groups = Inr table"
    and "enumerates visit confs" "enumerates visit_groups gcs"
    and "\<forall>name c. confs name = Some c \<longrightarrow> (\<forall>n \<in> set (rule_nets (rule_texts fs c)). plain_net n)"
  shows "(redirect R table src (Some m) = Some g \<longleftrightarrow>
      (\<exists>gc c. gcs src = Some gc \<and> gr_redirector gc \<noteq> [] \<and> confs (gr_redirector gc) = Some c \<and>
         (\<exists>r \<in> set (msg_answer m). \<exists>a. answer_address r = Some a \<and> hits fs c a) \<and>
         g = rd_dst_group c \<and> g \<noteq> src)) \<and>
    redirect R table src None = None \<and>
    (redirect R table src (Some m) = Some g \<longrightarrow> groups g \<noteq> None)"
proof -
  from assms(2) obtain rds where rds: "fold_r (build_redirector R fs groups) visit Map.empty = Inr rds"
    "fold_r (assign_redirector rds) visit_groups Map.empty = Inr table"
    by (auto simp: new_redirector_def and_then_Inr)
  have red: "redirect R table src (Some m) = Some g \<longleftrightarrow>
      (\<exists>d. table src = Some d \<and> cidr_redirect R d (msg_answer m) = Some g \<and> src \<noteq> g)"
    by (auto simp: redirect_def split: option.splits)
  have hit: "cidr_redirect R d (msg_answer m) = Some g \<longleftrightarrow>
      g = rd_dst_group c \<and> (\<exists>r \<in> set (msg_answer m). \<exists>a. answer_address r = Some a \<and> hits fs c a)"
    if "confs k = Some c" "new_cidr_redirector R fs groups k c = Inr d" for k c d
    using cidr_match_hits [OF assms(1) that(2)] assms(5) that(1) new_cidr_redirector_built(3) [OF that(2)]
    by (simp add: cidr_redirect_iff)
  have table: "table src = Some d \<longleftrightarrow> (\<exists>gc c. gcs src = Some gc \<and> gr_redirector gc \<noteq> [] \<and>
      confs (gr_redirector gc) = Some c \<and> new_cidr_redirector R fs groups (gr_redirector gc) c = Inr d)" for d
    using assign_redirector_table [OF rds(2) assms(4)] build_redirector_table [OF rds(1) assms(3)] by metis
  have ex: "\<exists>d. new_cidr_redirector R fs groups (gr_redirector gc) c = Inr d"
    if "gcs src = Some gc" "gr_redirector gc \<noteq> []" "confs (gr_redirector gc) = Some c" for gc c
  proof -
    from enumerates_set [OF assms(4)] that(1) have "(src, gc) \<in> set visit_groups" by simp
    from fold_r_assigned [OF rds(2) this that(2)] obtain d where "rds (gr_redirector gc) = Some d" by blast
    with build_redirector_table [OF rds(1) assms(3)] that(3) show ?thesis by auto
  qed
  have iff: "redirect R table src (Some m) = Some g \<longleftrightarrow>
      (\<exists>gc c. gcs src = Some gc \<and> gr_redirector gc \<noteq> [] \<and> confs (gr_redirector gc) = Some c \<and>
         (\<exists>r \<in> set (msg_answer m). \<exists>a. answer_address r = Some a \<and> hits fs c a) \<and>
         g = rd_dst_group c \<and> g \<noteq> src)"
    (is "?l = ?r")
  proof
    assume ?l
    then obtain d gc c where t: "gcs src = Some gc" "gr_redirector gc \<noteq> []"
      "confs (gr_redirector gc) = Some c" "new_cidr_redirector R fs groups (gr_redirector gc) c = Inr d"
      and d: "cidr_redirect R d (msg_answer m) = Some g" "src \<noteq> g"
      unfolding red table by blast
    from d(1) [unfolded hit [OF t(3,4)]] t(1-3) d(2) show ?r by blast
  next
    assume ?r
    then obtain gc c where t: "gcs src = Some gc" "gr_redirector gc \<noteq> []"
      "confs (gr_redirector gc) = Some c" and d: "g = rd_dst_group c" "g \<noteq> src"
      "\<exists>r \<in> set (msg_answer m). \<exists>a. answer_address r = Some a \<and> hits fs c a"
      by blast
    from ex [OF t] obtain d' where d': "new_cidr_redirector R fs groups (gr_redirector gc) c = Inr d'" by blast
    have "cidr_redirect R d' (msg_answer m) = Some g" unfolding hit [OF t(3) d'] using d by blast
    moreover have "table src = Some d'" unfolding table using t d' by blast
    ultimately show ?l unfolding red using d(2) by blast
  qed
  moreover have "groups g \<noteq> None" if "redirect R table src (Some m) = Some g"
  proof -
    from that obtain d k c where d: "cidr_redirect R d (msg_answer m) = Some g"
      "new_cidr_redirector R fs groups k c = Inr d" unfolding red table by blast
    with new_cidr_redirector_built(3,4) [OF d(2)] show ?thesis by (simp add: cidr_redirect_iff)
  qed
  ultimately show ?thesis by (simp add: redirect_def)
qed

subsection \<open>A sample ranger\<close>

text \<open>A list of networks behaves as documented.\<close>

definition list_ranger :: "ip_net list ranger" where
  "list_ranger = \<lparr>rg_new = [], rg_insert = (\<lambda>r n. Some (n # r)),
     rg_contains = (\<lambda>r a. if valid_ip a then Some (list_ex (\<lambda>n. in_net n a) r) else None)\<rparr>"

lemma list_ranger_law: "ranger_law list_ranger"
  by (auto simp: ranger_law_def list_ranger_def)

definition sample_redirectors :: "(string \<times> redirector_conf) list" where
  "sample_redirectors = [(''abroad'', \<lparr>rd_type = ''mismatch_cidr'', rd_rules = [''192.0.2.0/24''],
     rd_rules_file = [], rd_dst_group = ''all''\<rparr>)]"

definition redirected_groups :: "(string \<times> group_conf) list" where
  "redirected_groups = [(''cn'', empty_group_conf\<lparr>gr_redirector := ''abroad''\<rparr>), (''all'', empty_group_conf)]"

definition answer_msg :: "ip \<Rightarrow> dns_msg" where
  "answer_msg a = new_msg\<lparr>msg_answer :=
     [RR_A \<lparr>hdr_name = ''a.test.'', hdr_rrtype = type_A, hdr_class = 1, hdr_ttl = 60\<rparr> a]\<rparr>"

theorem redirect_spec_witness:
  "\<exists>table. new_redirector list_ranger (\<lambda>f. None) (map_of redirected_groups) sample_redirectors redirected_groups = Inr table \<and>
     redirect list_ranger table ''cn'' (Some (answer_msg (v4_prefix @ [198, 51, 100, 7]))) = Some ''all'' \<and>
     redirect list_ranger table ''all'' (Some (answer_msg (v4_prefix @ [198, 51, 100, 7]))) = None"
proof -
  let ?new = "new_redirector list_ranger (\<lambda>f. None) (map_of redirected_groups) sample_redirectors redirected_groups"
  have "(case ?new of Inl e \<Rightarrow> False | Inr t \<Rightarrow> True) = True" by code_simp
  then obtain table where t: "?new = Inr table" by (auto split: sum.splits)
  have e: "enumerates sample_redirectors (map_of sample_redirectors)"
    "enumerates redirected_groups (map_of redirected_groups)"
    by (simp_all add: enumerates_def sample_redirectors_def redirected_groups_def)
  have nets: "rule_nets [''192.0.2.0/24''] = [\<lparr>net_ip = [192, 0, 2, 0], net_ones = 24, net_bits = 32\<rparr>]"
    by code_simp
  have plain: "\<forall>name c. map_of sample_redirectors name = Some c \<longrightarrow>
      (\<forall>n \<in> set (rule_nets (rule_texts (\<lambda>f. None) c)). plain_net n)"
    by (auto simp: sample_redirectors_def rule_texts_def nets plain_net_def split: if_splits)
  let ?c = "snd (hd sample_redirectors)"
  have hit: "hits (\<lambda>f. None) ?c (v4_prefix @ [198, 51, 100, 7])" by code_simp
  have g: "map_of redirected_groups ''cn'' = Some (snd (redirected_groups ! 0))"
    "gr_redirector (snd (redirected_groups ! 0)) = ''abroad''"
    "map_of sample_redirectors ''abroad'' = Some ?c" "rd_dst_group ?c = ''all''"
    "map_of redirected_groups ''all'' = Some empty_group_conf" "gr_redirector empty_group_conf = []"
    by (simp_all add: redirected_groups_def sample_redirectors_def empty_group_conf_def)
  note spec = redirect_spec [where m = "answer_msg (v4_prefix @ [198, 51, 100, 7])",
      OF list_ranger_law t e plain]
  have "redirect list_ranger table ''cn'' (Some (answer_msg (v4_prefix @ [198, 51, 100, 7]))) = Some ''all''"
    using spec [where src = "''cn''" and g = "''all''"] g hit by (simp add: answer_msg_def)
  moreover have "redirect list_ranger table ''all'' (Some (answer_msg (v4_prefix @ [198, 51, 100, 7]))) = None"
    using spec [where src = "''all''"] g(5,6) by (cases "redirect list_ranger table ''all'' (Some (answer_msg (v4_prefix @ [198, 51, 100, 7])))") auto
  ultimately show ?thesis using t by blast
qed

text \<open>The type is compared without regard to case when it is checked and with regard to
  case when it is used: a redirector whose type is mismatch_cidr in any other spelling is
  accepted and behaves as one of type match_cidr, the opposite of what is asked for.\<close>

theorem mismatch_type_spelling:
  assumes "to_lower t = type_mismatch_cidr" "t \<noteq> type_mismatch_cidr"
  shows "build_redirector R fs groups (name, c\<lparr>rd_type := t\<rparr>) m =
         build_redirector R fs groups (name, c\<lparr>rd_type := type_match_cidr\<rparr>) m"
proof -
  have l: "to_lower type_match_cidr = type_match_cidr" by code_simp
  have n: "type_match_cidr \<noteq> type_mismatch_cidr" by (simp add: type_match_cidr_def type_mismatch_cidr_def)
  show ?thesis using assms l n
    by (simp add: build_redirector_def new_cidr_redirector_def cong: if_cong option.case_cong)
qed

theorem mismatch_type_spelling_witness:
  "build_redirector list_ranger (\<lambda>f. None) (map_of redirected_groups)
     (''abroad'', (snd (hd sample_redirectors))\<lparr>rd_type := ''MISMATCH_CIDR''\<rparr>) Map.empty =
   build_redirector list_ranger (\<lambda>f. None) (map_of redirected_groups)
     (''abroad'', (snd (hd sample_redirectors))\<lparr>rd_type := type_match_cidr\<rparr>) Map.empty"
proof -
  have "to_lower ''MISMATCH_CIDR'' = type_mismatch_cidr" by code_simp
  moreover have "''MISMATCH_CIDR'' \<noteq> type_mismatch_cidr" by (simp add: type_mismatch_cidr_def)
  ultimately show ?thesis by (rule mismatch_type_spelling)
qed

end
