(* ===== verification/Handler_Impl.thy ===== *)
theory Handler_Impl
  imports Group_Build Dns_Cache Hosts_Reader Cidr_Redirector
    "HOL-Library.Product_Lexorder" "HOL-Library.List_Lexorder"
begin

section \<open>The request handler (\<open>inbound/handler.go\<close>)\<close>

text \<open>
  One query through the handler: the checks, the hosts table, the cache, the group that
  matches, the redirection, the post-processing and the store into the cache. The handler
  sees groups only through the interface \<open>IGroup\<close>, here a record of operations; the
  handler's lemmas are proved for every implementation that keeps the interface's contract,
  and the groups of \<open>Group_Impl\<close> are shown to be one.
\<close>

subsection \<open>The interface of a group\<close>

record 'g igroup =
  ig_name :: "'g \<Rightarrow> string"
  ig_is_fallback :: "'g \<Rightarrow> bool"
  ig_has_gfwlist :: "'g \<Rightarrow> bool"
  ig_match :: "'g \<Rightarrow> dns_msg \<Rightarrow> bool"
  ig_handle :: "time \<Rightarrow> race_event list \<Rightarrow> 'g \<Rightarrow> dns_msg \<Rightarrow> (handle_result option \<times> 'g) option"
  ig_post_process :: "dns_msg option \<Rightarrow> 'g \<Rightarrow> 'g"

definition group_iface :: "regexp_engine \<Rightarrow> dns_lib \<Rightarrow> group igroup" where
  "group_iface E L = \<lparr>ig_name = g_name, ig_is_fallback = g_fallback, ig_has_gfwlist = has_gfwlist,
     ig_match = group_match E, ig_handle = group_handle L, ig_post_process = post_process\<rparr>"

text \<open>The order of the groups: the comparison of the sort, and the key it compares.\<close>

definition group_less :: "'g igroup \<Rightarrow> 'g \<Rightarrow> 'g \<Rightarrow> bool" where
  "group_less I g1 g2 =
     (if ig_is_fallback I g1 \<noteq> ig_is_fallback I g2 then \<not> ig_is_fallback I g1
      else if ig_has_gfwlist I g1 \<noteq> ig_has_gfwlist I g2 then \<not> ig_has_gfwlist I g1
      else ig_name I g1 < ig_name I g2)"

definition group_rank :: "'g igroup \<Rightarrow> 'g \<Rightarrow> bool \<times> bool \<times> string" where
  "group_rank I g = (ig_is_fallback I g, ig_has_gfwlist I g, ig_name I g)"

lemma group_less_rank: "group_less I g1 g2 \<longleftrightarrow> group_rank I g1 < group_rank I g2"
  by (auto simp: group_less_def group_rank_def less_prod_def)

subsection \<open>State\<close>

text \<open>
  A pointer to a group is its key in the map of groups; the list of the groups, the
  fallback group and the redirections hold keys.
\<close>

record ('s, 'g, 'r) handler =
  hd_disable_qtypes :: "u16 set"
  hd_cache :: "'s dns_cache"
  hd_hosts :: host_reader
  hd_groups :: "string \<rightharpoonup> 'g"
  hd_group_list :: "string list"
  hd_fallback :: string
  hd_redirector :: "string \<rightharpoonup> 'r cidr_redirector"
  hd_query_timeout :: duration

text \<open>What the request log says of the way a query took.\<close>

record handle_info =
  hi_blocked :: bool
  hi_hit_hosts :: bool
  hi_hit_cache :: bool
  hi_matched :: "string option"
  hi_fallback :: bool
  hi_redirect :: "string option"
  hi_caller :: string

definition no_info :: handle_info where
  "no_info = \<lparr>hi_blocked = False, hi_hit_hosts = False, hi_hit_cache = False, hi_matched = None,
     hi_fallback = False, hi_redirect = None, hi_caller = []\<rparr>"

text \<open>The libraries, and what the environment does during one query.\<close>

record ('s, 'r) libraries =
  lb_engine :: regexp_engine
  lb_dns :: dns_lib
  lb_store :: "'s ristretto"
  lb_ranger :: "'r ranger"

record query_run =
  qr_draw :: "nat \<Rightarrow> nat"
  qr_get_time :: time
  qr_handle_time :: time
  qr_schedule :: "race_event list"
  qr_redirect_time :: time
  qr_redirect_schedule :: "race_event list"
  qr_set_time :: time

text \<open>
  A query that gives no result: a panic, or a schedule that does not lead to a return, which
  is no behaviour of the code.
\<close>

datatype no_result = Handler_Panic | No_Return

subsection \<open>One query\<close>

definition ask_group ::
  "'g igroup \<Rightarrow> time \<Rightarrow> race_event list \<Rightarrow> string \<Rightarrow> dns_msg \<Rightarrow> (string \<rightharpoonup> 'g) \<Rightarrow>
   no_result + (handle_result option \<times> (string \<rightharpoonup> 'g))"
where
  "ask_group I now schedule k req gs =
     (case gs k of
        None \<Rightarrow> Inl Handler_Panic
      | Some g \<Rightarrow>
          (case ig_handle I now schedule g req of
             None \<Rightarrow> Inl No_Return
           | Some (res, g') \<Rightarrow> Inr (res, gs(k \<mapsto> g'))))"

definition group_matches :: "'g igroup \<Rightarrow> (string \<rightharpoonup> 'g) \<Rightarrow> dns_msg \<Rightarrow> string \<Rightarrow> bool" where
  "group_matches I gs req k = (case gs k of None \<Rightarrow> False | Some g \<Rightarrow> ig_match I g req)"

definition post_group :: "'g igroup \<Rightarrow> string \<Rightarrow> dns_msg option \<Rightarrow> (string \<rightharpoonup> 'g) \<Rightarrow> (string \<rightharpoonup> 'g)" where
  "post_group I k resp gs = gs(k := map_option (ig_post_process I resp) (gs k))"

text \<open>The first group of the list that matches, or the fallback group.\<close>

definition choose_group :: "'g igroup \<Rightarrow> ('s, 'g, 'r) handler \<Rightarrow> dns_msg \<Rightarrow> string \<times> bool" where
  "choose_group I h req =
     (case find (group_matches I (hd_groups h) req) (hd_group_list h) of
        Some k \<Rightarrow> (k, False)
      | None \<Rightarrow> (hd_fallback h, True))"

text \<open>
  From the choice of the group to the final response: the group that finally handled the
  query, the response, the groups, and what is logged.
\<close>

definition resolve_query ::
  "('s, 'r) libraries \<Rightarrow> 'g igroup \<Rightarrow> query_run \<Rightarrow> ('s, 'g, 'r) handler \<Rightarrow> dns_msg \<Rightarrow>
   no_result + (string \<times> dns_msg option \<times> (string \<rightharpoonup> 'g) \<times> handle_info)"
where
  "resolve_query B I q h req =
     (case choose_group I h req of
        (matched, fallback) \<Rightarrow>
          and_then (ask_group I (qr_handle_time q) (qr_schedule q) matched req (hd_groups h)) (\<lambda>(result, gs).
            let info = no_info\<lparr>hi_matched := Some matched, hi_fallback := fallback\<rparr>;
                resp = map_option hr_msg result;
                info = (case result of None \<Rightarrow> info | Some r \<Rightarrow> info\<lparr>hi_caller := hr_caller_name r\<rparr>)
            in (case redirect (lb_ranger B) (hd_redirector h) matched resp of
                  None \<Rightarrow> Inr (matched, resp, gs, info)
                | Some k \<Rightarrow>
                    and_then (ask_group I (qr_redirect_time q) (qr_redirect_schedule q) k req gs) (\<lambda>(result, gs).
                      let info = info\<lparr>hi_redirect := Some k\<rparr>
                      in (case result of
                            None \<Rightarrow> Inr (k, resp, gs, info)
                          | Some r \<Rightarrow> Inr (k, Some (hr_msg r), gs, info\<lparr>hi_caller := hr_caller_name r\<rparr>))))))"

definition handle ::
  "('s, 'r) libraries \<Rightarrow> 'g igroup \<Rightarrow> query_run \<Rightarrow> ('s, 'g, 'r) handler \<Rightarrow> dns_msg \<Rightarrow>
   no_result + (dns_msg option \<times> ('s, 'g, 'r) handler \<times> handle_info)"
where
  "handle B I q h req =
     (if msg_question req = [] then
        Inr (Some (lib_set_rcode (lb_dns B) new_msg req rcode_format_error), h, no_info)
      else if list_ex (\<lambda>x. q_type x \<in> hd_disable_qtypes h) (msg_question req) then
        Inr (Some (lib_set_rcode (lb_dns B) new_msg req rcode_refused), h, no_info\<lparr>hi_blocked := True\<rparr>)
      else case hosts_get (lb_engine B) (lb_dns B) (hd_hosts h) req of
          Some resp \<Rightarrow> Inr (Some resp, h, no_info\<lparr>hi_hit_hosts := True\<rparr>)
        | None \<Rightarrow>
            (case cache_get (lb_store B) (lb_dns B) (qr_draw q) (qr_get_time q) (hd_cache h) req of
               None \<Rightarrow> Inl Handler_Panic
             | Some (Some resp, c) \<Rightarrow> Inr (Some resp, h\<lparr>hd_cache := c\<rparr>, no_info\<lparr>hi_hit_cache := True\<rparr>)
             | Some (None, c) \<Rightarrow>
                 and_then (resolve_query B I q h req) (\<lambda>(matched, resp, gs, info).
                   (case cache_set (lb_store B) (qr_set_time q) c req resp of
                      None \<Rightarrow> Inl Handler_Panic
                    | Some c' \<Rightarrow>
                        Inr (resp, h\<lparr>hd_cache := c', hd_groups := post_group I matched resp gs\<rparr>, info)))))"

text \<open>\<open>ServeDNS\<close>: the one message that is written.\<close>

definition serve_dns ::
  "('s, 'r) libraries \<Rightarrow> 'g igroup \<Rightarrow> query_run \<Rightarrow> ('s, 'g, 'r) handler \<Rightarrow> dns_msg \<Rightarrow>
   no_result + (dns_msg \<times> ('s, 'g, 'r) handler)"
where
  "serve_dns B I q h req =
     and_then (handle B I q h req) (\<lambda>(resp, h', info).
       Inr (case resp of
              None \<Rightarrow> lib_set_rcode (lb_dns B) new_msg req rcode_server_failure
            | Some m \<Rightarrow> m, h'))"

subsection \<open>Building a handler\<close>

text \<open>
  The orders in which the maps are visited are part of the environment: one visit of each
  map per loop of the code.
\<close>

record ('s, 'r) handler_env =
  he_build :: build_env
  he_store :: "'s ristretto"
  he_ranger :: "'r ranger"
  he_range_hosts :: "(string \<rightharpoonup> string list) \<Rightarrow> (string \<times> string list) list"
  he_range_patterns :: "(string \<rightharpoonup> host_pattern) \<Rightarrow> (string \<times> host_pattern) list"
  he_range_build :: "(string \<rightharpoonup> group_conf) \<Rightarrow> (string \<times> group_conf) list"
  he_range_groups :: "(string \<rightharpoonup> group) \<Rightarrow> (string \<times> group) list"
  he_range_redirectors :: "(string \<rightharpoonup> redirector_conf) \<Rightarrow> (string \<times> redirector_conf) list"
  he_range_assign :: "(string \<rightharpoonup> group_conf) \<Rightarrow> (string \<times> group_conf) list"

definition env_libraries :: "('s, 'r) handler_env \<Rightarrow> ('s, 'r) libraries" where
  "env_libraries env = \<lparr>lb_engine = be_engine (he_build env), lb_dns = be_lib (he_build env),
     lb_store = he_store env, lb_ranger = he_ranger env\<rparr>"

datatype handler_error =
    Unknown_Query_Type string | Hosts_Failed hosts_error | Cache_Failed cache_error
  | Groups_Failed build_error | Fallback_Missing | Redirector_Failed redirector_error

definition wrap_error :: "('e \<Rightarrow> 'f) \<Rightarrow> 'e + 'a \<Rightarrow> 'f + 'a" where
  "wrap_error f r = (case r of Inl e \<Rightarrow> Inl (f e) | Inr x \<Rightarrow> Inr x)"

definition last_fallback :: "'g igroup \<Rightarrow> (string \<times> 'g) list \<Rightarrow> string option" where
  "last_fallback I visit = fold (\<lambda>(k, g) f. if ig_is_fallback I g then Some k else f) visit None"

definition sort_groups :: "'g igroup \<Rightarrow> (string \<times> 'g) list \<Rightarrow> string list" where
  "sort_groups I visit = map fst (sort_key (\<lambda>(k, g). group_rank I g) visit)"

definition new_handle :: "('s, 'r) handler_env \<Rightarrow> conf \<Rightarrow> handler_error + ('s, group, 'r) handler" where
  "new_handle env c =
     (let B = he_build env; I = group_iface (be_engine B) (be_lib B)
      in and_then (wrap_error Unknown_Query_Type (disable_types (be_lib B) (cf_disable_ipv6 c) (cf_disable_qtypes c))) (\<lambda>types.
         and_then (wrap_error Hosts_Failed (new_dns_hosts (be_engine B) (be_fs B)
             (he_range_hosts env (cf_hosts c)) (cf_hosts_files c) (he_range_patterns env))) (\<lambda>hosts.
         and_then (wrap_error Cache_Failed (new_dns_cache (he_store env) (cf_cache c))) (\<lambda>cache.
         and_then (wrap_error Groups_Failed (build_groups B (he_range_build env (cf_groups c)))) (\<lambda>gs.
         let visit = he_range_groups env gs
         in (case last_fallback I visit of
               None \<Rightarrow> Inl Fallback_Missing
             | Some fb \<Rightarrow>
                 and_then (wrap_error Redirector_Failed (new_redirector (he_ranger env) (be_fs B) gs
                     (he_range_redirectors env (cf_redirectors c)) (he_range_assign env (cf_groups c)))) (\<lambda>table.
                   let timeout = wrap64 (cf_query_timeout c * second)
                   in Inr \<lparr>hd_disable_qtypes = types, hd_cache = cache, hd_hosts = hosts, hd_groups = gs,
                           hd_group_list = sort_groups I visit, hd_fallback = fb, hd_redirector = table,
                           hd_query_timeout = (if timeout \<le> 0 then 5 * second else timeout)\<rparr>)))))))"

subsection \<open>The contract of the interface\<close>

text \<open>
  What the handler relies on: handling a query and post-processing a response change neither
  the place of a group in the order nor what it matches.
\<close>

definition group_like :: "'g igroup \<Rightarrow> 'g \<Rightarrow> 'g \<Rightarrow> bool" where
  "group_like I g g' \<longleftrightarrow> group_rank I g' = group_rank I g \<and> ig_match I g' = ig_match I g"

definition groups_like :: "'g igroup \<Rightarrow> (string \<rightharpoonup> 'g) \<Rightarrow> (string \<rightharpoonup> 'g) \<Rightarrow> bool" where
  "groups_like I gs gs' \<longleftrightarrow> (\<forall>k. rel_option (group_like I) (gs k) (gs' k))"

text \<open>A well-formed handler.\<close>

definition handler_inv :: "'g igroup \<Rightarrow> ('s, 'g, 'r) handler \<Rightarrow> bool" where
  "handler_inv I h \<longleftrightarrow>
     distinct (hd_group_list h) \<and> dom (hd_groups h) = set (hd_group_list h) \<and>
     (\<forall>k g. hd_groups h k = Some g \<longrightarrow> ig_name I g = k \<and> (ig_is_fallback I g \<longleftrightarrow> k = hd_fallback h)) \<and>
     sorted (map (\<lambda>k. group_rank I (the (hd_groups h k))) (hd_group_list h)) \<and>
     hd_fallback h \<in> set (hd_group_list h) \<and>
     (\<forall>k d. hd_redirector h k = Some d \<longrightarrow> cd_dst d \<in> set (hd_group_list h))"

lemma group_like_refl [simp]: "group_like I g g"
  by (simp add: group_like_def)

lemma groups_like_refl [simp]: "groups_like I gs gs"
  by (simp add: groups_like_def option.rel_refl)

lemma groups_like_trans: "groups_like I gs gs' \<Longrightarrow> groups_like I gs' gs'' \<Longrightarrow> groups_like I gs gs''"
  unfolding groups_like_def
proof
  fix k
  assume "\<forall>k. rel_option (group_like I) (gs k) (gs' k)" "\<forall>k. rel_option (group_like I) (gs' k) (gs'' k)"
  then have "rel_option (group_like I) (gs k) (gs' k)" "rel_option (group_like I) (gs' k) (gs'' k)" by blast+
  then show "rel_option (group_like I) (gs k) (gs'' k)"
    by (cases "gs k"; cases "gs' k"; cases "gs'' k") (simp_all add: group_like_def)
qed

lemma groups_like_dom: "groups_like I gs gs' \<Longrightarrow> dom gs' = dom gs"
  unfolding groups_like_def dom_def by (metis option.rel_distinct(1,2) not_Some_eq)

lemma groups_like_Some: "groups_like I gs gs' \<Longrightarrow> gs' k = Some g' \<Longrightarrow> \<exists>g. gs k = Some g \<and> group_like I g g'"
  unfolding groups_like_def by (metis option_rel_Some2)

lemma groups_like_upd: "gs k = Some g \<Longrightarrow> group_like I g g' \<Longrightarrow> groups_like I gs (gs(k \<mapsto> g'))"
  by (auto simp: groups_like_def option.rel_refl)

lemma groups_like_matches:
  assumes "groups_like I gs gs'"
  shows "group_matches I gs' req k = group_matches I gs req k"
proof -
  from assms have "rel_option (group_like I) (gs k) (gs' k)" by (simp add: groups_like_def)
  then show ?thesis by (cases "gs k"; cases "gs' k") (simp_all add: group_matches_def group_like_def)
qed

lemma handler_inv_like:
  assumes "handler_inv I h" "groups_like I (hd_groups h) gs"
  shows "handler_inv I (h\<lparr>hd_cache := c, hd_groups := gs\<rparr>)"
proof -
  have "group_rank I (the (gs k)) = group_rank I (the (hd_groups h k))" if "k \<in> set (hd_group_list h)" for k
  proof -
    from that assms(1) groups_like_dom [OF assms(2)] obtain g' where "gs k = Some g'"
      unfolding handler_inv_def by blast
    with groups_like_Some [OF assms(2) this] show ?thesis by (auto simp: group_like_def)
  qed
  then have m: "map (\<lambda>k. group_rank I (the (gs k))) (hd_group_list h) =
      map (\<lambda>k. group_rank I (the (hd_groups h k))) (hd_group_list h)" by simp
  have "sorted (map (\<lambda>k. group_rank I (the (gs k))) (hd_group_list h))"
    unfolding m using assms(1) by (simp add: handler_inv_def)
  moreover have "ig_name I g = k \<and> (ig_is_fallback I g \<longleftrightarrow> k = hd_fallback h)" if "gs k = Some g" for k g
    using groups_like_Some [OF assms(2) that] assms(1) by (auto simp: handler_inv_def group_like_def group_rank_def)
  ultimately show ?thesis
    using assms(1) groups_like_dom [OF assms(2)] unfolding handler_inv_def by simp
qed

lemma choose_in_list: "handler_inv I h \<Longrightarrow> fst (choose_group I h req) \<in> dom (hd_groups h)"
  using find_SomeD [of _ "hd_group_list h"]
  by (auto simp: choose_group_def handler_inv_def split: option.split)

lemma redirect_dst: "redirect R table src resp = Some k \<Longrightarrow> \<exists>d. table src = Some d \<and> k = cd_dst d \<and> k \<noteq> src \<and> resp \<noteq> None"
  by (auto simp: redirect_def cidr_redirect_iff split: option.splits if_splits)

text \<open>\<open>find\<close> in a sorted list delivers a least element.\<close>

lemma find_sorted_least:
  assumes "find P ks = Some k" "sorted (map f ks)" "k' \<in> set ks" "P k'"
  shows "f k \<le> f k'"
  using assms by (induction ks) (auto split: if_splits)

lemma cache_ops_question:
  assumes "msg_question req \<noteq> []"
  shows "cache_get R L draw t c req \<noteq> None" "cache_set R t c req resp \<noteq> None"
proof -
  obtain k where k: "cache_key req = Some k" using assms by (auto simp: cache_key_def neq_Nil_conv)
  show "cache_get R L draw t c req \<noteq> None"
    by (simp add: cache_get_def k Let_def split: option.split)
  show "cache_set R t c req resp \<noteq> None"
    by (simp add: cache_set_def k Let_def split: option.split prod.split)
qed

text \<open>The five ways a query ends.\<close>

lemma handle_cases:
  assumes "handle B I q h req = Inr (resp, h', info)"
  obtains (no_question) "msg_question req = []" "h' = h" "info = no_info"
      "resp = Some (lib_set_rcode (lb_dns B) new_msg req rcode_format_error)"
  | (blocked) "msg_question req \<noteq> []" "\<exists>x \<in> set (msg_question req). q_type x \<in> hd_disable_qtypes h"
      "h' = h" "info = no_info\<lparr>hi_blocked := True\<rparr>"
      "resp = Some (lib_set_rcode (lb_dns B) new_msg req rcode_refused)"
  | (hosts) m where "msg_question req \<noteq> []" "\<forall>x \<in> set (msg_question req). q_type x \<notin> hd_disable_qtypes h"
      "hosts_get (lb_engine B) (lb_dns B) (hd_hosts h) req = Some m"
      "h' = h" "info = no_info\<lparr>hi_hit_hosts := True\<rparr>" "resp = Some m"
  | (cached) m c where "msg_question req \<noteq> []" "\<forall>x \<in> set (msg_question req). q_type x \<notin> hd_disable_qtypes h"
      "hosts_get (lb_engine B) (lb_dns B) (hd_hosts h) req = None"
      "cache_get (lb_store B) (lb_dns B) (qr_draw q) (qr_get_time q) (hd_cache h) req = Some (Some m, c)"
      "h' = h\<lparr>hd_cache := c\<rparr>" "info = no_info\<lparr>hi_hit_cache := True\<rparr>" "resp = Some m"
  | (resolved) k gs c c' where "msg_question req \<noteq> []"
      "\<forall>x \<in> set (msg_question req). q_type x \<notin> hd_disable_qtypes h"
      "hosts_get (lb_engine B) (lb_dns B) (hd_hosts h) req = None"
      "cache_get (lb_store B) (lb_dns B) (qr_draw q) (qr_get_time q) (hd_cache h) req = Some (None, c)"
      "resolve_query B I q h req = Inr (k, resp, gs, info)"
      "cache_set (lb_store B) (qr_set_time q) c req resp = Some c'"
      "h' = h\<lparr>hd_cache := c', hd_groups := post_group I k resp gs\<rparr>"
proof (cases "msg_question req = []")
  case True
  with assms show ?thesis by (intro no_question) (auto simp: handle_def)
next
  case ne: False
  show ?thesis
  proof (cases "\<exists>x \<in> set (msg_question req). q_type x \<in> hd_disable_qtypes h")
    case True
    with assms ne show ?thesis by (intro blocked) (auto simp: handle_def list_ex_iff)
  next
    case nb: False
    then have ok: "\<forall>x \<in> set (msg_question req). q_type x \<notin> hd_disable_qtypes h" by blast
    show ?thesis
    proof (cases "hosts_get (lb_engine B) (lb_dns B) (hd_hosts h) req")
      case (Some m)
      with assms ne nb show ?thesis by (intro hosts [OF ne ok Some]) (auto simp: handle_def list_ex_iff)
    next
      case hn: None
      obtain r c where g: "cache_get (lb_store B) (lb_dns B) (qr_draw q) (qr_get_time q) (hd_cache h) req = Some (r, c)"
        using cache_ops_question(1) [OF ne] by fastforce
      show ?thesis
      proof (cases r)
        case (Some m)
        with assms ne nb hn g show ?thesis
          by (intro cached [OF ne ok hn]) (auto simp: handle_def list_ex_iff)
      next
        case None
        with assms ne nb hn g obtain k gs where
          r: "resolve_query B I q h req = Inr (k, resp, gs, info)"
            "(case cache_set (lb_store B) (qr_set_time q) c req resp of None \<Rightarrow> Inl Handler_Panic
              | Some c' \<Rightarrow> Inr (resp, h\<lparr>hd_cache := c', hd_groups := post_group I k resp gs\<rparr>, info)) =
             Inr (resp, h', info)"
          by (auto simp: handle_def list_ex_iff and_then_Inr split: option.splits)
        from r(2) obtain c' where c': "cache_set (lb_store B) (qr_set_time q) c req resp = Some c'"
          "h' = h\<lparr>hd_cache := c', hd_groups := post_group I k resp gs\<rparr>"
          by (auto split: option.splits)
        from g None have "cache_get (lb_store B) (lb_dns B) (qr_draw q) (qr_get_time q) (hd_cache h) req = Some (None, c)"
          by simp
        from resolved [OF ne ok hn this r(1) c'] show ?thesis .
      qed
    qed
  qed
qed

locale group_contract =
  fixes I :: "'g igroup"
  assumes handle_keeps: "ig_handle I now schedule g req = Some (res, g') \<Longrightarrow> group_like I g g'"
    and post_keeps: "group_like I g (ig_post_process I resp g)"
begin

lemma ask_keeps: "ask_group I now schedule k req gs = Inr (res, gs') \<Longrightarrow> groups_like I gs gs'"
  by (auto simp: ask_group_def handle_keeps groups_like_upd split: option.splits prod.splits)

lemma ask_no_panic: "k \<in> dom gs \<Longrightarrow> ask_group I now schedule k req gs \<noteq> Inl Handler_Panic"
  by (auto simp: ask_group_def split: option.split prod.split)

lemma post_group_keeps: "groups_like I gs (post_group I k resp gs)"
  by (auto simp: groups_like_def post_group_def option.rel_map option.rel_refl post_keeps)

text \<open>The three ways a query goes through its groups.\<close>

lemma resolve_cases:
  assumes "resolve_query B I q h req = Inr (k, resp, gs, info)"
  obtains (direct) res m fb where "choose_group I h req = (m, fb)"
      "ask_group I (qr_handle_time q) (qr_schedule q) m req (hd_groups h) = Inr (res, gs)"
      "redirect (lb_ranger B) (hd_redirector h) m (map_option hr_msg res) = None"
      "k = m" "resp = map_option hr_msg res"
      "info = no_info\<lparr>hi_matched := Some m, hi_fallback := fb,
         hi_caller := (case res of None \<Rightarrow> [] | Some r \<Rightarrow> hr_caller_name r)\<rparr>"
  | (redirected) res m fb gs' res' where "choose_group I h req = (m, fb)"
      "ask_group I (qr_handle_time q) (qr_schedule q) m req (hd_groups h) = Inr (Some res, gs')"
      "redirect (lb_ranger B) (hd_redirector h) m (Some (hr_msg res)) = Some k"
      "ask_group I (qr_redirect_time q) (qr_redirect_schedule q) k req gs' = Inr (res', gs)"
      "resp = Some (hr_msg (case res' of None \<Rightarrow> res | Some r \<Rightarrow> r))"
      "info = no_info\<lparr>hi_matched := Some m, hi_fallback := fb, hi_redirect := Some k,
         hi_caller := hr_caller_name (case res' of None \<Rightarrow> res | Some r \<Rightarrow> r)\<rparr>"
proof -
  obtain m fb where m: "choose_group I h req = (m, fb)" by fastforce
  with assms obtain res gs' where a:
    "ask_group I (qr_handle_time q) (qr_schedule q) m req (hd_groups h) = Inr (res, gs')"
    by (auto simp: resolve_query_def and_then_Inr)
  show ?thesis
  proof (cases "redirect (lb_ranger B) (hd_redirector h) m (map_option hr_msg res)")
    case None
    have "k = m \<and> resp = map_option hr_msg res \<and> gs = gs' \<and>
      info = no_info\<lparr>hi_matched := Some m, hi_fallback := fb,
        hi_caller := (case res of None \<Rightarrow> [] | Some r \<Rightarrow> hr_caller_name r)\<rparr>"
      using assms by (auto simp: resolve_query_def m a None Let_def no_info_def split: option.splits)
    with m a None show ?thesis by (intro direct) auto
  next
    case (Some k')
    then obtain r where r: "res = Some r" using redirect_dst by fastforce
    with assms Some obtain res' gs'' where b:
      "ask_group I (qr_redirect_time q) (qr_redirect_schedule q) k' req gs' = Inr (res', gs'')"
      by (auto simp: resolve_query_def m a Let_def and_then_Inr)
    have "k = k' \<and> resp = Some (hr_msg (case res' of None \<Rightarrow> r | Some r \<Rightarrow> r)) \<and> gs = gs'' \<and>
      info = no_info\<lparr>hi_matched := Some m, hi_fallback := fb, hi_redirect := Some k',
        hi_caller := hr_caller_name (case res' of None \<Rightarrow> r | Some r \<Rightarrow> r)\<rparr>"
      using assms Some r by (auto simp: resolve_query_def m a b Let_def no_info_def split: option.splits)
    with m a b Some r show ?thesis by (intro redirected) auto
  qed
qed

lemma resolve_keeps: "resolve_query B I q h req = Inr (k, resp, gs, info) \<Longrightarrow> groups_like I (hd_groups h) gs"
  by (erule resolve_cases) (auto dest: ask_keeps intro: groups_like_trans)

lemma resolve_no_panic:
  assumes "handler_inv I h"
  shows "resolve_query B I q h req \<noteq> Inl Handler_Panic"
proof -
  obtain m fb where m: "choose_group I h req = (m, fb)" by fastforce
  then have d: "m \<in> dom (hd_groups h)" using choose_in_list [OF assms, of req] by simp
  show ?thesis
  proof (cases "ask_group I (qr_handle_time q) (qr_schedule q) m req (hd_groups h)")
    case (Inl e)
    with ask_no_panic [OF d] show ?thesis by (auto simp: resolve_query_def m)
  next
    case (Inr p)
    obtain res gs where p: "p = (res, gs)" by (cases p)
    show ?thesis
    proof (cases "redirect (lb_ranger B) (hd_redirector h) m (map_option hr_msg res)")
      case None
      with Inr p show ?thesis by (simp add: resolve_query_def m Let_def)
    next
      case (Some k)
      have "k \<in> dom gs"
        using redirect_dst [OF Some] assms groups_like_dom [OF ask_keeps] Inr p
        by (auto simp: handler_inv_def)
      from ask_no_panic [OF this] have
        "ask_group I (qr_redirect_time q) (qr_redirect_schedule q) k req gs \<noteq> Inl Handler_Panic" .
      with Some Inr p show ?thesis
        by (cases "ask_group I (qr_redirect_time q) (qr_redirect_schedule q) k req gs")
          (auto simp: resolve_query_def m Let_def split: option.splits)
    qed
  qed
qed

lemma handle_keeps_inv:
  assumes "handler_inv I h" "handle B I q h req = Inr (resp, h', info)"
  shows "handler_inv I h'" "groups_like I (hd_groups h) (hd_groups h')"
proof -
  from assms(2) have "\<exists>c gs. groups_like I (hd_groups h) gs \<and> h' = h\<lparr>hd_cache := c, hd_groups := gs\<rparr>"
  proof (cases rule: handle_cases)
    case (cached m c)
    then have "h' = h\<lparr>hd_cache := c, hd_groups := hd_groups h\<rparr>" by simp
    then show ?thesis using groups_like_refl by blast
  next
    case (resolved k gs c c')
    then show ?thesis using groups_like_trans [OF resolve_keeps post_group_keeps] by blast
  next
    case no_question
    then have "h' = h\<lparr>hd_cache := hd_cache h, hd_groups := hd_groups h\<rparr>" by simp
    then show ?thesis using groups_like_refl by blast
  next
    case blocked
    then have "h' = h\<lparr>hd_cache := hd_cache h, hd_groups := hd_groups h\<rparr>" by simp
    then show ?thesis using groups_like_refl by blast
  next
    case (hosts m)
    then have "h' = h\<lparr>hd_cache := hd_cache h, hd_groups := hd_groups h\<rparr>" by simp
    then show ?thesis using groups_like_refl by blast
  qed
  then obtain c gs where gs: "groups_like I (hd_groups h) gs" "h' = h\<lparr>hd_cache := c, hd_groups := gs\<rparr>" by blast
  show "handler_inv I h'" unfolding gs(2) by (rule handler_inv_like [OF assms(1) gs(1)])
  show "groups_like I (hd_groups h) (hd_groups h')" using gs by simp
qed

lemma handle_no_panic:
  assumes "handler_inv I h"
  shows "handle B I q h req \<noteq> Inl Handler_Panic"
proof (cases "msg_question req = []")
  case True
  then show ?thesis by (simp add: handle_def)
next
  case ne: False
  obtain r c where g: "cache_get (lb_store B) (lb_dns B) (qr_draw q) (qr_get_time q) (hd_cache h) req = Some (r, c)"
    using cache_ops_question(1) [OF ne] by fastforce
  show ?thesis
  proof (cases "resolve_query B I q h req")
    case (Inl e)
    with resolve_no_panic [OF assms] have "e \<noteq> Handler_Panic" by metis
    with Inl ne g show ?thesis by (auto simp: handle_def split: option.split)
  next
    case (Inr p)
    obtain k resp gs info where p: "p = (k, resp, gs, info)" by (cases p)
    obtain c' where "cache_set (lb_store B) (qr_set_time q) c req resp = Some c'"
      using cache_ops_question(2) [OF ne] by fastforce
    with Inr p ne g show ?thesis by (auto simp: handle_def split: option.split)
  qed
qed

text \<open>The group that is chosen comes before every other that matches.\<close>

lemma choose_least:
  assumes "handler_inv I h" "choose_group I h req = (k, fb)"
  shows "fb \<longleftrightarrow> (\<forall>k'. \<not> group_matches I (hd_groups h) req k')"
    "fb \<Longrightarrow> k = hd_fallback h"
    "\<not> fb \<Longrightarrow> group_matches I (hd_groups h) req k"
    "\<not> fb \<Longrightarrow> group_matches I (hd_groups h) req k' \<Longrightarrow>
       group_rank I (the (hd_groups h k)) \<le> group_rank I (the (hd_groups h k'))"
proof -
  have dom: "k' \<in> set (hd_group_list h)" if "group_matches I (hd_groups h) req k'" for k'
    using that assms(1) by (auto simp: group_matches_def handler_inv_def split: option.splits)
  show "fb \<longleftrightarrow> (\<forall>k'. \<not> group_matches I (hd_groups h) req k')"
    using assms(2) dom find_SomeD find_None_iff [of "group_matches I (hd_groups h) req" "hd_group_list h"]
    by (fastforce simp: choose_group_def split: option.splits)
  show "fb \<Longrightarrow> k = hd_fallback h" using assms(2) by (auto simp: choose_group_def split: option.splits)
  show m: "\<not> fb \<Longrightarrow> group_matches I (hd_groups h) req k"
    using assms(2) find_SomeD by (fastforce simp: choose_group_def split: option.splits)
  show "\<not> fb \<Longrightarrow> group_matches I (hd_groups h) req k' \<Longrightarrow>
       group_rank I (the (hd_groups h k)) \<le> group_rank I (the (hd_groups h k'))"
    using assms dom find_sorted_least [of "group_matches I (hd_groups h) req" "hd_group_list h" k
        "\<lambda>k. group_rank I (the (hd_groups h k))" k']
    by (auto simp: choose_group_def handler_inv_def split: option.splits)
qed

end

subsection \<open>The groups of the program keep the contract\<close>

lemma group_handle_frame:
  "group_handle L now schedule g req = Some (res, g') \<Longrightarrow> \<exists>pool. g' = g\<lparr>g_pool := pool\<rparr>"
proof -
  assume h: "group_handle L now schedule g req = Some (res, g')"
  have same: "\<exists>pool. g = g\<lparr>g_pool := pool\<rparr>" by (rule exI [of _ "g_pool g"]) simp
  show ?thesis
  proof (cases "prepare_request L g req")
    case None
    with h same show ?thesis by (simp add: group_handle_def)
  next
    case (Some r)
    with h show ?thesis
      by (auto simp: group_handle_def Let_def split: option.splits prod.splits if_splits)
  qed
qed

interpretation go_group: group_contract "group_iface E L" for E :: regexp_engine and L :: dns_lib
proof
  fix now schedule g req res g'
  assume "ig_handle (group_iface E L) now schedule g req = Some (res, g')"
  then obtain pool where "g' = g\<lparr>g_pool := pool\<rparr>"
    using group_handle_frame by (fastforce simp: group_iface_def)
  then show "group_like (group_iface E L) g g'"
    by (simp add: group_like_def group_rank_def group_iface_def has_gfwlist_def group_match_def fun_eq_iff)
next
  fix g resp
  show "group_like (group_iface E L) g (ig_post_process (group_iface E L) resp g)"
    by (cases resp) (simp_all add: group_like_def group_rank_def group_iface_def has_gfwlist_def
        group_match_def post_process_def fun_eq_iff)
qed

subsection \<open>What is built\<close>

lemma last_fallback_snoc [simp]:
  "last_fallback I (visit @ [(k, g)]) = (if ig_is_fallback I g then Some k else last_fallback I visit)"
  by (simp add: last_fallback_def)

lemma last_fallback_Some: "last_fallback I visit = Some k \<Longrightarrow> \<exists>g. (k, g) \<in> set visit \<and> ig_is_fallback I g"
proof (induction visit rule: rev_induct)
  case (snoc x visit)
  then show ?case by (cases x) (auto split: if_splits)
qed (simp add: last_fallback_def)

lemma last_fallback_None: "last_fallback I visit = None \<longleftrightarrow> (\<forall>(k, g) \<in> set visit. \<not> ig_is_fallback I g)"
proof (induction visit rule: rev_induct)
  case (snoc x visit)
  then show ?case by (cases x) auto
qed (simp add: last_fallback_def)

text \<open>A map of groups under their names, with at most one fallback group.\<close>

definition named_groups :: "'g igroup \<Rightarrow> (string \<rightharpoonup> 'g) \<Rightarrow> bool" where
  "named_groups I gs \<longleftrightarrow> finite (dom gs) \<and> (\<forall>k g. gs k = Some g \<longrightarrow> ig_name I g = k) \<and>
     (\<forall>k g k' g'. gs k = Some g \<and> gs k' = Some g' \<and> ig_is_fallback I g \<and> ig_is_fallback I g' \<longrightarrow> k' = k)"

lemma last_fallback_iff:
  assumes "enumerates visit gs" "named_groups I gs"
  shows "last_fallback I visit = Some k \<longleftrightarrow> (\<exists>g. gs k = Some g \<and> ig_is_fallback I g)"
proof
  assume "last_fallback I visit = Some k"
  then show "\<exists>g. gs k = Some g \<and> ig_is_fallback I g"
    using last_fallback_Some enumerates_set [OF assms(1)] by metis
next
  assume "\<exists>g. gs k = Some g \<and> ig_is_fallback I g"
  then obtain g where g: "gs k = Some g" "ig_is_fallback I g" by blast
  then have "(k, g) \<in> set visit" using enumerates_set [OF assms(1)] by simp
  with g(2) have "last_fallback I visit \<noteq> None" by (auto simp: last_fallback_None)
  then obtain k' where k': "last_fallback I visit = Some k'" by blast
  with last_fallback_Some [OF k'] enumerates_set [OF assms(1)] obtain g' where
    "gs k' = Some g'" "ig_is_fallback I g'" by metis
  with g assms(2) have "k' = k" unfolding named_groups_def by blast
  with k' show "last_fallback I visit = Some k" by simp
qed

lemma sort_groups_names:
  assumes "enumerates visit gs" "named_groups I gs"
  shows "sort_groups I visit = map (\<lambda>r. snd (snd r)) (sort (map (\<lambda>(k, g). group_rank I g) visit))"
proof -
  let ?f = "\<lambda>(k, g). group_rank I g"
  have "fst kg = snd (snd (?f kg))" if "kg \<in> set visit" for kg
  proof -
    obtain k g where kg: "kg = (k, g)" by (cases kg)
    with that enumerates_set [OF assms(1)] have "gs k = Some g" by simp
    with assms(2) have "ig_name I g = k" unfolding named_groups_def by blast
    with kg show ?thesis by (simp add: group_rank_def)
  qed
  then have "map fst (sort_key ?f visit) = map (\<lambda>kg. snd (snd (?f kg))) (sort_key ?f visit)" by simp
  also have "\<dots> = map (\<lambda>r. snd (snd r)) (map ?f (sort_key ?f visit))" by (simp add: comp_def)
  also have "map ?f (sort_key ?f visit) = sort (map ?f visit)"
    by (rule sym, rule properties_for_sort) simp_all
  finally show ?thesis by (simp add: sort_groups_def)
qed

lemma sort_groups_unique:
  assumes "enumerates visit gs" "enumerates visit' gs" "named_groups I gs"
  shows "sort_groups I visit = sort_groups I visit'"
proof -
  let ?f = "\<lambda>(k, g). group_rank I g"
  have "mset (map ?f visit) = mset (map ?f visit')"
    using enumerates_mset [OF assms(1,2)] by simp
  then have "sort (map ?f visit) = sort (map ?f visit')"
    by (intro properties_for_sort) simp_all
  then show ?thesis unfolding sort_groups_names [OF assms(1,3)] sort_groups_names [OF assms(2,3)] by simp
qed

lemma sort_groups_list:
  assumes "enumerates visit gs" "named_groups I gs"
  shows "distinct (sort_groups I visit)" "set (sort_groups I visit) = dom gs"
    "sorted (map (\<lambda>k. group_rank I (the (gs k))) (sort_groups I visit))"
proof -
  let ?f = "\<lambda>(k, g). group_rank I g" and ?s = "sort_key (\<lambda>(k, g). group_rank I g) visit"
  have dm: "distinct (map fst visit)" "map_of visit = gs" using assms(1) by (simp_all add: enumerates_def)
  have "mset (map fst ?s) = mset (map fst visit)" by simp
  then show "distinct (sort_groups I visit)" using dm(1) unfolding sort_groups_def by (metis mset_eq_imp_distinct_iff)
  show "set (sort_groups I visit) = dom gs"
    using dm(2) dom_map_of_conv_image_fst [of visit] by (simp add: sort_groups_def)
  have "group_rank I (the (gs (fst kg))) = ?f kg" if "kg \<in> set visit" for kg
  proof -
    obtain k g where kg: "kg = (k, g)" by (cases kg)
    with that enumerates_set [OF assms(1)] have "gs k = Some g" by simp
    with kg show ?thesis by simp
  qed
  then have "map (\<lambda>k. group_rank I (the (gs k))) (map fst ?s) = map ?f ?s" by simp
  moreover have "sorted (map ?f ?s)" by simp
  ultimately show "sorted (map (\<lambda>k. group_rank I (the (gs k))) (sort_groups I visit))"
    unfolding sort_groups_def by metis
qed

text \<open>The environment's visiting orders.\<close>

definition env_orders :: "('s, 'r) handler_env \<Rightarrow> bool" where
  "env_orders env \<longleftrightarrow> range_law (he_range_build env) \<and> range_law (he_range_groups env) \<and>
     range_law (he_range_redirectors env) \<and> range_law (he_range_assign env)"

lemma built_named:
  assumes "build_groups B (he_range_build env cs) = Inr gs" "env_orders env" "finite (dom cs)"
  shows "named_groups (group_iface E L) gs" "dom gs = dom cs"
proof -
  have "enumerates (he_range_build env cs) cs" using assms(2,3) by (simp add: env_orders_def range_law_def)
  note b = build_groups_groups [OF assms(1) this]
  show "dom gs = dom cs" by (rule b(1))
  show "named_groups (group_iface E L) gs"
    unfolding named_groups_def using b(1,2,3) assms(3) by (auto simp: group_iface_def)
qed

lemma new_redirector_dst:
  assumes "new_redirector R fs gs visit visit_groups = Inr table" "table k = Some d"
  shows "cd_dst d \<in> dom gs"
proof -
  have dst: "\<forall>k d. m' k = Some d \<longrightarrow> cd_dst d \<in> dom gs"
    if "fold_r (build_redirector R fs gs) visit Map.empty = Inr m'" for m'
    using that
  proof (rule fold_r_invariant [where P = "\<lambda>m. \<forall>k d. m k = Some d \<longrightarrow> cd_dst d \<in> dom gs"])
    fix nc m m'
    assume "\<forall>k d. m k = Some d \<longrightarrow> cd_dst d \<in> dom gs" "build_redirector R fs gs nc m = Inr m'"
    then show "\<forall>k d. m' k = Some d \<longrightarrow> cd_dst d \<in> dom gs"
      using new_cidr_redirector_built(3,4)
      by (fastforce simp: build_redirector_def and_then_Inr split: prod.splits if_splits)
  qed simp
  from assms(1) obtain rds where rds: "fold_r (build_redirector R fs gs) visit Map.empty = Inr rds"
    "fold_r (assign_redirector rds) visit_groups Map.empty = Inr table"
    by (auto simp: new_redirector_def and_then_Inr)
  have "\<forall>k d. table k = Some d \<longrightarrow> cd_dst d \<in> dom gs"
    using rds(2)
  proof (rule fold_r_invariant [where P = "\<lambda>m. \<forall>k d. m k = Some d \<longrightarrow> cd_dst d \<in> dom gs"])
    fix nc m m'
    assume "\<forall>k d. m k = Some d \<longrightarrow> cd_dst d \<in> dom gs" "assign_redirector rds nc m = Inr m'"
    then show "\<forall>k d. m' k = Some d \<longrightarrow> cd_dst d \<in> dom gs"
      using dst [OF rds(1)] by (fastforce simp: assign_redirector_def split: prod.splits if_splits option.splits)
  qed simp
  with assms(2) show ?thesis by blast
qed

lemma wrap_error_Inr [simp]: "wrap_error f r = Inr x \<longleftrightarrow> r = Inr x"
  by (cases r) (simp_all add: wrap_error_def)

lemma new_handle_parts:
  assumes "new_handle env c = Inr h"
  obtains gs where "build_groups (he_build env) (he_range_build env (cf_groups c)) = Inr gs" "hd_groups h = gs"
    "hd_group_list h = sort_groups (group_iface (be_engine (he_build env)) (be_lib (he_build env))) (he_range_groups env gs)"
    "last_fallback (group_iface (be_engine (he_build env)) (be_lib (he_build env))) (he_range_groups env gs) = Some (hd_fallback h)"
    "new_redirector (he_ranger env) (be_fs (he_build env)) gs (he_range_redirectors env (cf_redirectors c))
       (he_range_assign env (cf_groups c)) = Inr (hd_redirector h)"
    "0 < hd_query_timeout h"
    "new_dns_cache (he_store env) (cf_cache c) = Inr (hd_cache h)"
    "disable_types (be_lib (he_build env)) (cf_disable_ipv6 c) (cf_disable_qtypes c) = Inr (hd_disable_qtypes h)"
proof -
  from assms show ?thesis
    by (auto simp: new_handle_def Let_def and_then_Inr second_def split: option.splits intro!: that)
qed

lemma new_handle_inv:
  assumes "new_handle env c = Inr h" "env_orders env" "finite (dom (cf_groups c))"
  shows "handler_inv (group_iface (be_engine (he_build env)) (be_lib (he_build env))) h"
    "dom (hd_groups h) = dom (cf_groups c)"
proof -
  let ?I = "group_iface (be_engine (he_build env)) (be_lib (he_build env))"
  from new_handle_parts [OF assms(1)] obtain gs where b: "build_groups (he_build env) (he_range_build env (cf_groups c)) = Inr gs"
    "hd_groups h = gs" "hd_group_list h = sort_groups ?I (he_range_groups env gs)"
    "last_fallback ?I (he_range_groups env gs) = Some (hd_fallback h)"
    "new_redirector (he_ranger env) (be_fs (he_build env)) gs (he_range_redirectors env (cf_redirectors c))
       (he_range_assign env (cf_groups c)) = Inr (hd_redirector h)" by metis
  note n = built_named(1) [OF b(1) assms(2,3), of "be_engine (he_build env)" "be_lib (he_build env)"]
    built_named(2) [OF b(1) assms(2,3)]
  have e: "enumerates (he_range_groups env gs) gs"
    using assms(2,3) n(2) by (simp add: env_orders_def range_law_def)
  from b(4) last_fallback_iff [OF e n(1)] obtain g where g: "gs (hd_fallback h) = Some g" "ig_is_fallback ?I g"
    by blast
  have "ig_name ?I g' = k \<and> (ig_is_fallback ?I g' \<longleftrightarrow> k = hd_fallback h)" if "gs k = Some g'" for k g'
    using that g n(1) unfolding named_groups_def by (metis option.inject)
  moreover have "cd_dst d \<in> dom gs" if "hd_redirector h k = Some d" for k d
    by (rule new_redirector_dst [OF b(5) that])
  ultimately show "handler_inv ?I h"
    unfolding handler_inv_def b(2,3) using sort_groups_list [OF e n(1)] g(1) by auto
  show "dom (hd_groups h) = dom (cf_groups c)" using n(2) b(2) by simp
qed

subsection \<open>Many queries\<close>

text \<open>Queries served one after the other, each with what it returned.\<close>

type_synonym served = "query_run \<times> dns_msg \<times> dns_msg option \<times> handle_info"

fun serve_run ::
  "('s, 'r) libraries \<Rightarrow> 'g igroup \<Rightarrow> (query_run \<times> dns_msg) list \<Rightarrow> ('s, 'g, 'r) handler \<Rightarrow>
   no_result + (served list \<times> ('s, 'g, 'r) handler)"
where
  "serve_run B I [] h = Inr ([], h)"
| "serve_run B I ((q, req) # qs) h =
     and_then (handle B I q h req) (\<lambda>(resp, h', info).
       and_then (serve_run B I qs h') (\<lambda>(log, h''). Inr ((q, req, resp, info) # log, h'')))"

text \<open>The operations on the cache a query amounts to.\<close>

fun query_ops :: "served \<Rightarrow> cache_op list" where
  "query_ops (q, req, resp, info) =
     (if hi_hit_cache info then [Op_Get (qr_get_time q) req (qr_draw q)]
      else if hi_matched info \<noteq> None then
        [Op_Get (qr_get_time q) req (qr_draw q), Op_Set (qr_set_time q) req resp]
      else [])"

lemma resolve_info:
  assumes "resolve_query B (group_iface E L) q h req = Inr (k, resp, gs, info)"
  shows "hi_matched info = Some (fst (choose_group (group_iface E L) h req))"
    "hi_fallback info = snd (choose_group (group_iface E L) h req)" "\<not> hi_hit_cache info"
  using assms by (cases rule: go_group.resolve_cases; simp add: no_info_def)+

lemma handle_cache_ops:
  assumes "handle B (group_iface E L) q h req = Inr (resp, h', info)"
  shows "cache_run (lb_store B) (lb_dns B) (query_ops (q, req, resp, info)) (hd_cache h) = Some (hd_cache h')"
  using assms
proof (cases rule: handle_cases)
  case (resolved k gs c c')
  with resolve_info [OF resolved(5)] show ?thesis by simp
qed (simp_all add: no_info_def)

lemma serve_run_cache_ops:
  "serve_run B (group_iface E L) qs h = Inr (log, h') \<Longrightarrow>
   cache_run (lb_store B) (lb_dns B) (concat (map query_ops log)) (hd_cache h) = Some (hd_cache h')"
proof (induction qs arbitrary: h log)
  case (Cons p qs)
  obtain q req where p: "p = (q, req)" by (cases p)
  from Cons.prems obtain resp h1 info log1 where
    "handle B (group_iface E L) q h req = Inr (resp, h1, info)"
    "serve_run B (group_iface E L) qs h1 = Inr (log1, h')" "log = (q, req, resp, info) # log1"
    by (auto simp: p and_then_Inr)
  with Cons.IH handle_cache_ops [of B E L q h req resp h1 info] show ?case
    by (simp add: cache_run_append del: query_ops.simps)
qed simp

subsection \<open>A small handler\<close>

text \<open>
  Two groups, one with a rule and one to fall back to, an empty cache, and a redirection of
  answers in a test network from the first to the second.
\<close>

definition demo_libs :: "(string \<rightharpoonup> cache_item, ip_net list) libraries" where
  "demo_libs = \<lparr>lb_engine = go_regexp, lb_dns = plain_lib, lb_store = map_store, lb_ranger = list_ranger\<rparr>"

abbreviation demo_iface :: "group igroup" where
  "demo_iface \<equiv> group_iface go_regexp plain_lib"

definition demo_group :: "string \<Rightarrow> bool \<Rightarrow> group" where
  "demo_group name fallback = sample_group\<lparr>g_name := name, g_fallback := fallback, g_fastest_ip := False,
     g_matcher := (if fallback then empty_abp else sample_abp ''a.test'' True)\<rparr>"

definition demo_handler :: "(string \<rightharpoonup> cache_item, group, ip_net list) handler" where
  "demo_handler = \<lparr>hd_disable_qtypes = {type_AAAA}, hd_cache = sample_cache,
     hd_hosts = \<lparr>hr_domains = Map.empty, hr_patterns = []\<rparr>,
     hd_groups = [''cn'' \<mapsto> demo_group ''cn'' False, ''all'' \<mapsto> demo_group ''all'' True],
     hd_group_list = [''cn'', ''all''], hd_fallback = ''all'',
     hd_redirector = [''cn'' \<mapsto> \<lparr>cd_name = ''r'',
       cd_ranger = [\<lparr>net_ip = [192, 0, 2, 0], net_ones = 24, net_bits = 32\<rparr>],
       cd_not_in = False, cd_dst = ''all''\<rparr>],
     hd_query_timeout = 5 * second\<rparr>"

text \<open>The first group answers; the group the query is redirected to does not.\<close>

definition demo_run :: "int \<Rightarrow> query_run" where
  "demo_run t = \<lparr>qr_draw = (\<lambda>n. 0), qr_get_time = t * second, qr_handle_time = t * second,
     qr_schedule = [Ev_Finish 0 (Call_Msg race_msg) 6, Ev_Receive 7 7], qr_redirect_time = t * second,
     qr_redirect_schedule = [Ev_Finish 0 Call_Failed 5, Ev_Finish 0 Call_Failed 6, Ev_Receive 7 7, Ev_Receive 8 8],
     qr_set_time = t * second\<rparr>"

lemma demo_inv: "handler_inv demo_iface demo_handler"
  by (auto simp: handler_inv_def demo_handler_def demo_group_def group_iface_def sample_group_def
      group_rank_def has_gfwlist_def less_eq_prod_def split: if_splits)

lemma demo_handle:
  "map_sum (\<lambda>x. x) (\<lambda>(resp, h, info). (map_option msg_answer resp, info))
     (handle demo_libs demo_iface (demo_run 1000) demo_handler race_msg) =
   Inr (Some [race_A 1, race_A 2], no_info\<lparr>hi_matched := Some ''cn'', hi_redirect := Some ''all'',
     hi_caller := ic_name caller0\<rparr>)"
  by code_simp

lemma demo_handle_result:
  "\<exists>h' m. handle demo_libs demo_iface (demo_run 1000) demo_handler race_msg = Inr (Some m, h',
     no_info\<lparr>hi_matched := Some ''cn'', hi_redirect := Some ''all'', hi_caller := ic_name caller0\<rparr>)"
  using demo_handle by (cases "handle demo_libs demo_iface (demo_run 1000) demo_handler race_msg") auto

definition demo_env :: "((string \<rightharpoonup> cache_item), ip_net list) handler_env" where
  "demo_env = \<lparr>he_build = sample_env, he_store = map_store, he_ranger = list_ranger,
     he_range_hosts = (\<lambda>m. []), he_range_patterns = (\<lambda>m. []),
     he_range_build = (\<lambda>m. if m = map_of sample_confs then sample_confs else sorted_range m),
     he_range_groups = sorted_range, he_range_redirectors = sorted_range,
     he_range_assign = (\<lambda>m. if m = map_of sample_confs then sample_confs else sorted_range m)\<rparr>"

definition demo_conf :: conf where
  "demo_conf = \<lparr>cf_hosts_files = [], cf_hosts = Map.empty, cf_cache = sample_conf,
     cf_global = \<lparr>gc_http_timeout = 0, gc_timeout = 0\<rparr>, cf_groups = map_of sample_confs,
     cf_disable_ipv6 = True, cf_disable_qtypes = [], cf_redirectors = Map.empty, cf_listen = '':53'',
     cf_query_timeout = 0, cf_ssl_cert_file = [], cf_ssl_key_file = [], cf_listen_doh_http = 0\<rparr>"

lemma sorted_range_enumerates: "finite (dom m) \<Longrightarrow> enumerates (sorted_range m) m"
  by (rule sorted_range_law [unfolded range_law_def, rule_format])

lemma sorted_range_empty: "sorted_range Map.empty = []"
  by (simp add: sorted_range_def)

lemma demo_env_orders: "env_orders demo_env"
  using sample_enumerates by (simp add: env_orders_def demo_env_def range_law_def sorted_range_enumerates)

lemma demo_builds: "\<exists>h. new_handle demo_env demo_conf = Inr h"
proof -
  obtain gs where gs: "build_groups sample_env sample_confs = Inr gs" using sample_builds by blast
  then have b: "build_groups sample_env (he_range_build demo_env (map_of sample_confs)) = Inr gs"
    by (simp add: demo_env_def)
  have fin: "finite (dom (map_of sample_confs))" by (rule finite_dom_map_of)
  note n = built_named(1) [OF b demo_env_orders fin, of go_regexp plain_lib] built_named(2) [OF b demo_env_orders fin]
  have e: "enumerates (sorted_range gs) gs"
    using n(2) fin by (simp add: sorted_range_enumerates)
  from build_groups_groups [OF gs sample_enumerates] gs have "gs ''all'' \<noteq> None"
    by (auto simp: sample_confs_def)
  then obtain g where g: "gs ''all'' = Some g" by blast
  have "g_fallback g"
  proof -
    have "(case build_groups sample_env sample_confs of Inl e \<Rightarrow> False
      | Inr gs \<Rightarrow> (case gs ''all'' of None \<Rightarrow> False | Some g \<Rightarrow> g_fallback g)) = True" by code_simp
    with gs g show ?thesis by simp
  qed
  with last_fallback_iff [OF e n(1)] g have "last_fallback demo_iface (sorted_range gs) = Some ''all''"
    by (simp add: group_iface_def)
  moreover have "new_redirector list_ranger (be_fs sample_env) gs [] sample_confs = Inr Map.empty"
    by (simp add: new_redirector_def sample_confs_def assign_redirector_def empty_group_conf_def)
  moreover have "be_engine sample_env = go_regexp" "be_lib sample_env = plain_lib"
    by (simp_all add: sample_env_def)
  ultimately show ?thesis using gs
    by (simp add: new_handle_def Let_def demo_env_def demo_conf_def sample_new disable_types_def
        new_dns_hosts_def load_hosts_def wrap_error_def sorted_range_empty wrap64_def)
qed

subsection \<open>Properties\<close>

text \<open>C1: A query to a well-formed handler never panics, whatever it asks for, the upstreams
  answer and the redirectors say, and the handler stays well formed: the order of the
  groups, the one fallback group and the redirections all stay valid.\<close>

theorem serve_never_panics:
  assumes "handler_inv (group_iface E L) h"
  shows "serve_dns B (group_iface E L) q h req \<noteq> Inl Handler_Panic \<and>
    (\<forall>m h'. serve_dns B (group_iface E L) q h req = Inr (m, h') \<longrightarrow> handler_inv (group_iface E L) h')"
proof -
  have "handler_inv (group_iface E L) h'"
    if "serve_dns B (group_iface E L) q h req = Inr (m, h')" for m h'
    using that go_group.handle_keeps_inv(1) [OF assms] by (auto simp: serve_dns_def and_then_Inr)
  moreover have "serve_dns B (group_iface E L) q h req \<noteq> Inl Handler_Panic"
    using go_group.handle_no_panic [OF assms, of B q req]
    by (cases "handle B (group_iface E L) q h req") (auto simp: serve_dns_def)
  ultimately show ?thesis by blast
qed

theorem serve_never_panics_witness:
  "\<exists>m h'. serve_dns demo_libs demo_iface (demo_run 1000) demo_handler race_msg = Inr (m, h') \<and>
     handler_inv demo_iface h'"
proof -
  obtain h' m info where "handle demo_libs demo_iface (demo_run 1000) demo_handler race_msg = Inr (Some m, h', info)"
    using demo_handle_result by blast
  then have "serve_dns demo_libs demo_iface (demo_run 1000) demo_handler race_msg = Inr (m, h')"
    by (simp add: serve_dns_def)
  with serve_never_panics [OF demo_inv, of demo_libs "demo_run 1000" race_msg] show ?thesis by blast
qed

text \<open>C26: A handler that is built is well formed, has exactly the configured groups and a
  positive timeout, and the order in which the map of groups is visited has no influence
  on it: any other order gives the same handler, or the same error.\<close>

theorem new_handle_spec:
  assumes "new_handle env c = Inr h" "env_orders env" "finite (dom (cf_groups c))"
  shows "handler_inv (group_iface (be_engine (he_build env)) (be_lib (he_build env))) h \<and>
    dom (hd_groups h) = dom (cf_groups c) \<and> 0 < hd_query_timeout h \<and>
    (\<forall>r. range_law r \<longrightarrow> new_handle (env\<lparr>he_range_groups := r\<rparr>) c = Inr h)"
proof -
  let ?I = "group_iface (be_engine (he_build env)) (be_lib (he_build env))"
  from new_handle_parts [OF assms(1)] obtain gs where
    b: "build_groups (he_build env) (he_range_build env (cf_groups c)) = Inr gs" by metis
  note n = built_named(1) [OF b assms(2,3), of "be_engine (he_build env)" "be_lib (he_build env)"]
    built_named(2) [OF b assms(2,3)]
  have e: "enumerates (he_range_groups env gs) gs"
    using assms(2,3) n(2) by (simp add: env_orders_def range_law_def)
  have "new_handle (env\<lparr>he_range_groups := r\<rparr>) c = Inr h" if "range_law r" for r
  proof -
    have e': "enumerates (r gs) gs" using that assms(3) n(2) by (simp add: range_law_def)
    have "last_fallback ?I (r gs) = last_fallback ?I (he_range_groups env gs)"
      using last_fallback_iff [OF e n(1)] last_fallback_iff [OF e' n(1)]
      by (metis not_Some_eq)
    moreover have "sort_groups ?I (r gs) = sort_groups ?I (he_range_groups env gs)"
      by (rule sort_groups_unique [OF e' e n(1)])
    moreover have "new_handle (env\<lparr>he_range_groups := r\<rparr>) c = new_handle env c"
      unfolding new_handle_def Let_def using b calculation by (simp cong: option.case_cong add: wrap_error_def)
    ultimately show ?thesis using assms(1) by simp
  qed
  moreover have "0 < hd_query_timeout h" using new_handle_parts [OF assms(1)] by metis
  ultimately show ?thesis using new_handle_inv [OF assms] by blast
qed

theorem new_handle_spec_witness:
  "\<exists>h. new_handle demo_env demo_conf = Inr h \<and> handler_inv demo_iface h \<and>
     dom (hd_groups h) = {''cn'', ''all''} \<and> 0 < hd_query_timeout h"
proof -
  obtain h where h: "new_handle demo_env demo_conf = Inr h" using demo_builds by blast
  have f: "finite (dom (cf_groups demo_conf))" by (simp add: demo_conf_def finite_dom_map_of)
  have i: "group_iface (be_engine (he_build demo_env)) (be_lib (he_build demo_env)) = demo_iface"
    by (simp add: demo_env_def sample_env_def)
  have "dom (cf_groups demo_conf) = {''cn'', ''all''}" by (auto simp: demo_conf_def sample_confs_def)
  with new_handle_spec [OF h demo_env_orders f] h show ?thesis unfolding i by auto
qed



text \<open>C4: A query that is redirected was answered before and stays answered: the group it is
  redirected to is another one, is asked the same question, and replaces the first answer
  only if it has one; the post-processing is done by the group redirected to.\<close>

theorem redirected_query_answered:
  assumes "handle B (group_iface E L) q h req = Inr (resp, h', info)" "hi_redirect info = Some k"
  shows "\<exists>m r1 gs1 r2 gs2. hi_matched info = Some m \<and> m \<noteq> k \<and>
    ask_group (group_iface E L) (qr_handle_time q) (qr_schedule q) m req (hd_groups h) = Inr (Some r1, gs1) \<and>
    ask_group (group_iface E L) (qr_redirect_time q) (qr_redirect_schedule q) k req gs1 = Inr (r2, gs2) \<and>
    resp = Some (hr_msg (case r2 of None \<Rightarrow> r1 | Some r \<Rightarrow> r)) \<and>
    hi_caller info = hr_caller_name (case r2 of None \<Rightarrow> r1 | Some r \<Rightarrow> r) \<and>
    hd_groups h' = post_group (group_iface E L) k resp gs2"
  using assms(1)
proof (cases rule: handle_cases)
  case (resolved k0 gs c c')
  from resolved(5) show ?thesis
  proof (cases rule: go_group.resolve_cases)
    case (redirected res m fb gs' res')
    with assms(2) have k: "k0 = k" by simp
    have "m \<noteq> k0" using redirect_dst [OF redirected(3)] by auto
    then show ?thesis unfolding k [symmetric]
      using redirected(2,4,5,6) resolved(7) by (intro exI [of _ m] exI [of _ res] exI [of _ gs'] exI [of _ res'] exI [of _ gs]) simp
  qed (use assms(2) in \<open>simp add: no_info_def\<close>)
qed (use assms(2) in \<open>simp_all add: no_info_def\<close>)

theorem redirected_query_answered_witness:
  "\<exists>r1 gs1 gs2 r2. ask_group demo_iface (1000 * second) (qr_schedule (demo_run 1000)) ''cn'' race_msg (hd_groups demo_handler) =
       Inr (Some r1, gs1) \<and>
     ask_group demo_iface (1000 * second) (qr_redirect_schedule (demo_run 1000)) ''all'' race_msg gs1 = Inr (r2, gs2)"
proof -
  obtain h' m where h: "handle demo_libs demo_iface (demo_run 1000) demo_handler race_msg = Inr (Some m, h',
     no_info\<lparr>hi_matched := Some ''cn'', hi_redirect := Some ''all'', hi_caller := ic_name caller0\<rparr>)"
    using demo_handle_result by blast
  have t: "qr_handle_time (demo_run 1000) = 1000 * second" "qr_redirect_time (demo_run 1000) = 1000 * second"
    by (simp_all add: demo_run_def)
  from redirected_query_answered [OF h, of "''all''"] show ?thesis unfolding t by (auto simp: no_info_def)
qed



text \<open>C3: What the cache returns is what an upstream answered: in any sequence of queries to a
  handler with a new cache, the answer of a cache hit has exactly the records of the
  response an earlier query with the same cache key got from its group, each record's TTL
  clamped and reduced by the seconds since then, and none of them expired.\<close>

theorem served_from_cache:
  assumes "ristretto_law (lb_store B)" "set_reply_law (lb_dns B)" "conf_fits cc"
    and "new_dns_cache (lb_store B) cc = Inr (hd_cache h0)"
    and "serve_run B (group_iface E L) qs h0 = Inr (log, h)"
    and "handle B (group_iface E L) q h req = Inr (Some r, h', info)" "hi_hit_cache info"
    and "\<forall>n. 0 < n \<longrightarrow> qr_draw q n < n"
  shows "msg_id r = msg_id req \<and> (\<forall>a \<in> set (msg_answer r). 0 < uint (hdr_ttl (hdr a))) \<and>
    (\<exists>q0 req0 resp0 info0. (q0, req0, Some resp0, info0) \<in> set log \<and> hi_matched info0 \<noteq> None \<and>
       cache_key req0 = cache_key req \<and>
       mset (msg_answer r) =
         mset (map (aged cc (max 0 (unix (qr_get_time q) - unix (qr_set_time q0)))) (msg_answer resp0)))"
proof -
  obtain c where g: "cache_get (lb_store B) (lb_dns B) (qr_draw q) (qr_get_time q) (hd_cache h) req = Some (Some r, c)"
    using assms(6,7)
  proof (cases rule: handle_cases)
    case (resolved k gs c c')
    with resolve_info(3) [OF resolved(5)] assms(7) show ?thesis by simp
  qed (use assms(7) that in \<open>auto simp: no_info_def\<close>)
  have dr: "qr_draw q n < n" if "0 < n" for n using assms(8) that by blast
  from cache_hit_spec [OF assms(1,2) dr assms(3,4) serve_run_cache_ops [OF assms(5)] g]
  obtain t0 req0 resp0 where s: "Op_Set t0 req0 (Some resp0) \<in> set (concat (map query_ops log))"
    "cache_key req0 = cache_key req"
    "mset (msg_answer r) = mset (map (aged cc (max 0 (unix (qr_get_time q) - unix t0))) (msg_answer resp0))"
    and id: "msg_id r = msg_id req \<and> (\<forall>a \<in> set (msg_answer r). 0 < uint (hdr_ttl (hdr a)))" by blast
  from s(1) obtain q0 info0 where "(q0, req0, Some resp0, info0) \<in> set log" "hi_matched info0 \<noteq> None"
    "t0 = qr_set_time q0"
    by (auto split: if_splits)
  with s(2,3) id show ?thesis by blast
qed

lemma demo_second_query:
  "(case serve_run demo_libs demo_iface [(demo_run 1000, race_msg)] demo_handler of
      Inl e \<Rightarrow> False
    | Inr (log, h) \<Rightarrow>
        (case handle demo_libs demo_iface (demo_run 1010) h (race_msg\<lparr>msg_id := 9\<rparr>) of
           Inl e \<Rightarrow> False
         | Inr (resp, h', info) \<Rightarrow> resp \<noteq> None \<and> hi_hit_cache info)) = True"
  by code_simp

theorem served_from_cache_witness:
  "\<exists>(r :: dns_msg) (log :: served list). msg_id r = 9 \<and> (\<forall>a \<in> set (msg_answer r). 0 < uint (hdr_ttl (hdr a))) \<and>
     (\<exists>q0 req0 resp0 info0. (q0, req0, Some resp0, info0) \<in> set log \<and> hi_matched info0 \<noteq> None)"
proof -
  obtain log h where s: "serve_run demo_libs demo_iface [(demo_run 1000, race_msg)] demo_handler = Inr (log, h)"
    using demo_second_query
    by (cases "serve_run demo_libs demo_iface [(demo_run 1000, race_msg)] demo_handler") auto
  obtain resp h' info where h: "handle demo_libs demo_iface (demo_run 1010) h (race_msg\<lparr>msg_id := 9\<rparr>) = Inr (resp, h', info)"
    and r: "resp \<noteq> None" "hi_hit_cache info"
    using demo_second_query [unfolded s]
    by (cases "handle demo_libs demo_iface (demo_run 1010) h (race_msg\<lparr>msg_id := 9\<rparr>)") auto
  from r(1) obtain m where m: "resp = Some m" by blast
  have laws: "ristretto_law (lb_store demo_libs)" "set_reply_law (lb_dns demo_libs)"
    by (simp_all add: demo_libs_def map_store_law plain_lib_laws)
  have n: "new_dns_cache (lb_store demo_libs) sample_conf = Inr (hd_cache demo_handler)"
    by (simp add: demo_libs_def demo_handler_def sample_new)
  have d: "\<forall>n. 0 < n \<longrightarrow> qr_draw (demo_run 1010) n < n" by (simp add: demo_run_def)
  have "msg_id (race_msg\<lparr>msg_id := 9\<rparr>) = 9" by simp
  with served_from_cache [OF laws sample_conf_fits n s h [unfolded m] r(2) d] show ?thesis by (simp only: simp_thms) blast
qed

end
