(* ===== verification/Handler_Wrapper.thy ===== *)
theory Handler_Wrapper
  imports Handler_Impl Step_System
begin

section \<open>Reloading and stopping (\<open>handlerWrapper\<close> of \<open>inbound/handler.go\<close>)\<close>

text \<open>
  The wrapper holds the handler in use and replaces it while queries are served. Any number
  of threads call \<open>ReloadConfig\<close>, \<open>ServeDNS\<close> and \<open>Stop\<close>; a thread is where its call stands.
  What a call does between two lock operations is one step: \<open>lifecycleMu\<close> is held by a
  thread, \<open>drainMu\<close> is held for reading by the threads that serve, so a swap waits until none
  does. A handler is named by a number, and what matters of it here is the life of its
  groups, which may be stopped only once.
\<close>

subsection \<open>The life of a handler\<close>

text \<open>
  \<open>start\<close> and \<open>stop\<close> do the same to every group. Starting the cache does nothing, and stopping
  it closes its store, which the library allows at any time.
\<close>

definition handler_start :: "group_life list \<Rightarrow> group_life list" where
  "handler_start = map group_start"

definition handler_stop :: "group_life list \<Rightarrow> group_life list option" where
  "handler_stop ls = those (map group_stop ls)"

definition new_life :: group_life where
  "new_life = \<lparr>gl_started = False, gl_stop_closed = False, gl_callers_running = False\<rparr>"

definition running :: "group_life list \<Rightarrow> bool" where
  "running ls = list_all (\<lambda>l. gl_started l \<and> \<not> gl_stop_closed l) ls"

definition unstarted :: "group_life list \<Rightarrow> bool" where
  "unstarted ls = list_all (\<lambda>l. \<not> gl_started l \<and> \<not> gl_stop_closed l \<and> \<not> gl_callers_running l) ls"

definition quiet :: "group_life list \<Rightarrow> bool" where
  "quiet ls = list_all (\<lambda>l. \<not> gl_callers_running l) ls"

subsection \<open>Threads\<close>

text \<open>
  Where a thread stands: outside; with a handler that is built; with the lock and a handler
  that is started; with a handler that is to be stopped; in \<open>Stop\<close> with the lock; serving a
  query with the handler it loaded, if any.
\<close>

datatype pc =
    Idle
  | Reload_Made nat
  | Reload_Locked nat
  | Retiring nat
  | Stop_Locked
  | Serving "nat option"

record wrapper =
  wr_stopped :: bool
  wr_handler :: "nat option"
  wr_lock :: "nat option"
  wr_lives :: "nat \<Rightarrow> group_life list"
  wr_next :: nat
  wr_pc :: "pc list"
  wr_panicked :: bool

definition new_wrapper :: "nat \<Rightarrow> wrapper" where
  "new_wrapper threads = \<lparr>wr_stopped = False, wr_handler = None, wr_lock = None, wr_lives = (\<lambda>h. []),
     wr_next = 0, wr_pc = replicate threads Idle, wr_panicked = False\<rparr>"

definition at_pc :: "wrapper \<Rightarrow> nat \<Rightarrow> pc \<Rightarrow> bool" where
  "at_pc w t p \<longleftrightarrow> t < length (wr_pc w) \<and> wr_pc w ! t = p"

definition goto :: "nat \<Rightarrow> pc \<Rightarrow> wrapper \<Rightarrow> wrapper" where
  "goto t p w = w\<lparr>wr_pc := (wr_pc w)[t := p]\<rparr>"

definition is_serving :: "pc \<Rightarrow> bool" where
  "is_serving p = (case p of Serving h \<Rightarrow> True | _ \<Rightarrow> False)"

definition drained :: "wrapper \<Rightarrow> bool" where
  "drained w = list_all (\<lambda>p. \<not> is_serving p) (wr_pc w)"

definition retire_old :: "nat option \<Rightarrow> pc" where
  "retire_old old = (case old of None \<Rightarrow> Idle | Some h \<Rightarrow> Retiring h)"

text \<open>
  The steps of the three calls; \<open>None\<close> where a step is not possible. A configuration that is
  refused changes nothing: \<open>ReloadConfig\<close> returns the error and takes no step.
\<close>

datatype wrapper_event =
    Reload_Build nat nat
  | Reload_Lock nat
  | Reload_Swap nat
  | Stop_Lock nat
  | Stop_Swap nat
  | Retire nat
  | Serve_Begin nat
  | Serve_End nat

fun wrapper_step :: "wrapper_event \<Rightarrow> wrapper \<Rightarrow> wrapper option" where
  "wrapper_step (Reload_Build t groups) w =
     (if at_pc w t Idle then
        Some (goto t (Reload_Made (wr_next w))
          (w\<lparr>wr_lives := (wr_lives w)(wr_next w := replicate groups new_life), wr_next := wr_next w + 1\<rparr>))
      else None)"
| "wrapper_step (Reload_Lock t) w =
     (if t < length (wr_pc w) \<and> wr_lock w = None then
        (case wr_pc w ! t of
           Reload_Made h \<Rightarrow>
             if wr_stopped w then Some (goto t (Retiring h) w)
             else Some (goto t (Reload_Locked h)
                    (w\<lparr>wr_lock := Some t, wr_lives := (wr_lives w)(h := handler_start (wr_lives w h))\<rparr>))
         | _ \<Rightarrow> None)
      else None)"
| "wrapper_step (Reload_Swap t) w =
     (if t < length (wr_pc w) \<and> drained w then
        (case wr_pc w ! t of
           Reload_Locked h \<Rightarrow>
             Some (goto t (retire_old (wr_handler w)) (w\<lparr>wr_handler := Some h, wr_lock := None\<rparr>))
         | _ \<Rightarrow> None)
      else None)"
| "wrapper_step (Stop_Lock t) w =
     (if at_pc w t Idle \<and> wr_lock w = None then
        (if wr_stopped w then Some w
         else Some (goto t Stop_Locked (w\<lparr>wr_stopped := True, wr_lock := Some t\<rparr>)))
      else None)"
| "wrapper_step (Stop_Swap t) w =
     (if at_pc w t Stop_Locked \<and> drained w then
        Some (goto t (retire_old (wr_handler w)) (w\<lparr>wr_handler := None, wr_lock := None\<rparr>))
      else None)"
| "wrapper_step (Retire t) w =
     (if t < length (wr_pc w) then
        (case wr_pc w ! t of
           Retiring h \<Rightarrow>
             (case handler_stop (wr_lives w h) of
                None \<Rightarrow> Some (w\<lparr>wr_panicked := True\<rparr>)
              | Some ls \<Rightarrow> Some (goto t Idle (w\<lparr>wr_lives := (wr_lives w)(h := ls)\<rparr>)))
         | _ \<Rightarrow> None)
      else None)"
| "wrapper_step (Serve_Begin t) w =
     (if at_pc w t Idle then Some (goto t (Serving (wr_handler w)) w) else None)"
| "wrapper_step (Serve_End t) w =
     (if t < length (wr_pc w) \<and> is_serving (wr_pc w ! t) then Some (goto t Idle w) else None)"

inductive wrapper_reach :: "nat \<Rightarrow> wrapper \<Rightarrow> bool" for threads where
  reach_new: "wrapper_reach threads (new_wrapper threads)"
| reach_step: "wrapper_reach threads w \<Longrightarrow> wrapper_step ev w = Some w' \<Longrightarrow> wrapper_reach threads w'"

subsection \<open>Ownership\<close>

text \<open>
  The handler a thread is responsible for. Every handler has at most one owner: the
  wrapper, while it is in use, or a thread.
\<close>

fun owned :: "pc \<Rightarrow> nat option" where
  "owned (Reload_Made h) = Some h"
| "owned (Reload_Locked h) = Some h"
| "owned (Retiring h) = Some h"
| "owned _ = None"

definition opt_mset :: "'a option \<Rightarrow> 'a multiset" where
  "opt_mset x = (case x of None \<Rightarrow> {#} | Some y \<Rightarrow> {#y#})"

lemma count_opt_mset [simp]: "count (opt_mset x) y = (if x = Some y then 1 else 0)"
  by (cases x) (simp_all add: opt_mset_def)

fun holding :: "pc list \<Rightarrow> nat multiset" where
  "holding [] = {#}"
| "holding (p # ps) = opt_mset (owned p) + holding ps"

definition owner_inv :: "wrapper \<Rightarrow> bool" where
  "owner_inv w \<longleftrightarrow>
     (\<forall>h. count (holding (wr_pc w) + opt_mset (wr_handler w)) h \<le> (if h < wr_next w then 1 else 0))"

lemma holding_update:
  "t < length ps \<Longrightarrow>
   count (holding (ps[t := p])) h + count (opt_mset (owned (ps ! t))) h = count (holding ps) h + count (opt_mset (owned p)) h"
proof (induction ps arbitrary: t)
  case (Cons q ps)
  then show ?case by (cases t) (simp, fastforce)
qed simp

lemma holding_member: "t < length ps \<Longrightarrow> owned (ps ! t) = Some h \<Longrightarrow> 1 \<le> count (holding ps) h"
proof -
  assume "t < length ps" "owned (ps ! t) = Some h"
  with holding_update [of t ps Idle h] have "count (holding (ps[t := Idle])) h + 1 = count (holding ps) h" by simp
  then show ?thesis by linarith
qed

lemma holding_zero: "count (holding ps) h = 0 \<longleftrightarrow> (\<forall>t < length ps. owned (ps ! t) \<noteq> Some h)"
proof (induction ps)
  case (Cons p ps)
  then show ?case by (auto simp: less_Suc_eq_0_disj)
qed simp

lemma owner_facts:
  assumes "owner_inv w" "t < length (wr_pc w)" "owned (wr_pc w ! t) = Some h"
  shows "h < wr_next w" "wr_handler w \<noteq> Some h"
    "t' < length (wr_pc w) \<Longrightarrow> owned (wr_pc w ! t') = Some h \<Longrightarrow> t' = t"
proof -
  have c: "count (holding (wr_pc w)) h + (if wr_handler w = Some h then 1 else 0) \<le> (if h < wr_next w then 1 else 0)"
    using assms(1) by (simp add: owner_inv_def)
  have m: "1 \<le> count (holding (wr_pc w)) h" by (rule holding_member [OF assms(2,3)])
  have "h < wr_next w \<and> wr_handler w \<noteq> Some h"
  proof (rule ccontr)
    assume "\<not> (h < wr_next w \<and> wr_handler w \<noteq> Some h)"
    with c have "count (holding (wr_pc w)) h \<le> 0" by (cases "h < wr_next w") simp_all
    with m show False by linarith
  qed
  then show "h < wr_next w" "wr_handler w \<noteq> Some h" by blast+
  show "t' = t" if t': "t' < length (wr_pc w)" "owned (wr_pc w ! t') = Some h"
  proof (rule ccontr)
    assume n: "t' \<noteq> t"
    have "count (holding ((wr_pc w)[t := Idle])) h + 1 = count (holding (wr_pc w)) h"
      using holding_update [OF assms(2), of Idle h] assms(3) by simp
    moreover have "1 \<le> count (holding ((wr_pc w)[t := Idle])) h"
      by (rule holding_member [of t']) (use n t' in simp_all)
    moreover have "count (holding (wr_pc w)) h \<le> 1"
    proof -
      have "(if h < wr_next w then 1 else 0) \<le> (1 :: nat)" by simp
      with c show ?thesis by linarith
    qed
    ultimately show False by linarith
  qed
qed

lemma owner_handler: "owner_inv w \<Longrightarrow> wr_handler w = Some h \<Longrightarrow> h < wr_next w"
proof -
  assume "owner_inv w" "wr_handler w = Some h"
  moreover from this have "count (holding (wr_pc w) + opt_mset (wr_handler w)) h \<le> (if h < wr_next w then 1 else 0)"
    unfolding owner_inv_def by blast
  ultimately show ?thesis by (simp split: if_splits)
qed

definition is_holder :: "pc \<Rightarrow> bool" where
  "is_holder p = (case p of Stop_Locked \<Rightarrow> True | Reload_Locked h \<Rightarrow> True | _ \<Rightarrow> False)"

definition pc_ok :: "wrapper \<Rightarrow> nat \<Rightarrow> pc \<Rightarrow> bool" where
  "pc_ok w t p =
     (case p of
        Idle \<Rightarrow> True
      | Reload_Made h \<Rightarrow> unstarted (wr_lives w h)
      | Reload_Locked h \<Rightarrow> running (wr_lives w h) \<and> wr_lock w = Some t \<and> \<not> wr_stopped w
      | Retiring h \<Rightarrow> running (wr_lives w h) \<or> unstarted (wr_lives w h)
      | Stop_Locked \<Rightarrow> wr_lock w = Some t \<and> wr_stopped w
      | Serving h \<Rightarrow> h = None \<or> wr_handler w = h)"

definition life_inv :: "wrapper \<Rightarrow> bool" where
  "life_inv w \<longleftrightarrow>
     (\<forall>t < length (wr_pc w). pc_ok w t (wr_pc w ! t)) \<and>
     (\<forall>h. wr_handler w = Some h \<longrightarrow> running (wr_lives w h)) \<and>
     (\<forall>h < wr_next w. wr_handler w \<noteq> Some h \<and> (\<forall>t < length (wr_pc w). owned (wr_pc w ! t) \<noteq> Some h) \<longrightarrow>
        quiet (wr_lives w h)) \<and>
     (\<forall>t. wr_lock w = Some t \<longrightarrow> t < length (wr_pc w) \<and>
        is_holder (wr_pc w ! t)) \<and>
     (wr_stopped w \<and> wr_lock w = None \<longrightarrow> wr_handler w = None) \<and>
     \<not> wr_panicked w"

lemma handler_stop_running: "running ls \<Longrightarrow> \<exists>ls'. handler_stop ls = Some ls' \<and> quiet ls'"
  by (induction ls) (auto simp: running_def handler_stop_def quiet_def group_stop_def)

lemma handler_stop_unstarted: "unstarted ls \<Longrightarrow> \<exists>ls'. handler_stop ls = Some ls' \<and> quiet ls'"
  by (induction ls) (auto simp: unstarted_def handler_stop_def quiet_def group_stop_def)

lemma unstarted_new: "unstarted (replicate n new_life)"
  by (simp add: unstarted_def new_life_def list_all_iff)

lemma running_start: "unstarted ls \<Longrightarrow> running (handler_start ls)"
  by (auto simp: unstarted_def running_def handler_start_def group_start_def list_all_iff)

lemma quiet_unstarted: "unstarted ls \<Longrightarrow> quiet ls"
  by (auto simp: unstarted_def quiet_def list_all_iff)

lemma goto_simps [simp]:
  "wr_stopped (goto t p w) = wr_stopped w" "wr_handler (goto t p w) = wr_handler w"
  "wr_lock (goto t p w) = wr_lock w" "wr_lives (goto t p w) = wr_lives w"
  "wr_next (goto t p w) = wr_next w" "wr_panicked (goto t p w) = wr_panicked w"
  "wr_pc (goto t p w) = (wr_pc w)[t := p]"
  by (simp_all add: goto_def)

lemma owned_retire [simp]: "owned (retire_old old) = old"
  by (cases old) (simp_all add: retire_old_def)

lemma not_serving_owned: "is_serving p \<Longrightarrow> owned p = None"
  by (auto simp: is_serving_def split: pc.splits)

text \<open>
  The possible steps, one by one: what a thread was doing, what it does next.
\<close>

lemma wrapper_step_cases:
  assumes "wrapper_step ev w = Some w'"
  obtains
    (build) t n where "ev = Reload_Build t n" "t < length (wr_pc w)" "wr_pc w ! t = Idle"
      "w' = goto t (Reload_Made (wr_next w))
        (w\<lparr>wr_lives := (wr_lives w)(wr_next w := replicate n new_life), wr_next := wr_next w + 1\<rparr>)"
  | (refused) t h where "ev = Reload_Lock t" "t < length (wr_pc w)" "wr_pc w ! t = Reload_Made h"
      "wr_lock w = None" "wr_stopped w" "w' = goto t (Retiring h) w"
  | (started) t h where "ev = Reload_Lock t" "t < length (wr_pc w)" "wr_pc w ! t = Reload_Made h"
      "wr_lock w = None" "\<not> wr_stopped w"
      "w' = goto t (Reload_Locked h)
        (w\<lparr>wr_lock := Some t, wr_lives := (wr_lives w)(h := handler_start (wr_lives w h))\<rparr>)"
  | (swapped) t h where "ev = Reload_Swap t" "t < length (wr_pc w)" "wr_pc w ! t = Reload_Locked h" "drained w"
      "w' = goto t (retire_old (wr_handler w)) (w\<lparr>wr_handler := Some h, wr_lock := None\<rparr>)"
  | (stop_again) t where "ev = Stop_Lock t" "w' = w"
  | (stop) t where "ev = Stop_Lock t" "t < length (wr_pc w)" "wr_pc w ! t = Idle" "wr_lock w = None" "\<not> wr_stopped w"
      "w' = goto t Stop_Locked (w\<lparr>wr_stopped := True, wr_lock := Some t\<rparr>)"
  | (stopped) t where "ev = Stop_Swap t" "t < length (wr_pc w)" "wr_pc w ! t = Stop_Locked" "drained w"
      "w' = goto t (retire_old (wr_handler w)) (w\<lparr>wr_handler := None, wr_lock := None\<rparr>)"
  | (panicked) t h where "ev = Retire t" "t < length (wr_pc w)" "wr_pc w ! t = Retiring h"
      "handler_stop (wr_lives w h) = None" "w' = w\<lparr>wr_panicked := True\<rparr>"
  | (retired) t h ls where "ev = Retire t" "t < length (wr_pc w)" "wr_pc w ! t = Retiring h"
      "handler_stop (wr_lives w h) = Some ls"
      "w' = goto t Idle (w\<lparr>wr_lives := (wr_lives w)(h := ls)\<rparr>)"
  | (serve) t where "ev = Serve_Begin t" "t < length (wr_pc w)" "wr_pc w ! t = Idle"
      "w' = goto t (Serving (wr_handler w)) w"
  | (served) t where "ev = Serve_End t" "t < length (wr_pc w)" "is_serving (wr_pc w ! t)" "w' = goto t Idle w"
  using assms
proof (cases ev)
  case (Reload_Lock t)
  with assms obtain h where "t < length (wr_pc w)" "wr_lock w = None" "wr_pc w ! t = Reload_Made h"
    by (auto split: if_splits pc.splits)
  with assms Reload_Lock refused started show ?thesis by (cases "wr_stopped w") auto
next
  case (Stop_Lock t)
  with assms stop stop_again show ?thesis by (cases "wr_stopped w") (auto simp: at_pc_def split: if_splits)
next
  case (Retire t)
  with assms obtain h where "t < length (wr_pc w)" "wr_pc w ! t = Retiring h"
    by (auto split: if_splits pc.splits)
  with assms Retire panicked retired show ?thesis by (cases "handler_stop (wr_lives w h)") auto
next
  case (Reload_Build t n)
  with assms show ?thesis by (intro build) (auto simp: at_pc_def split: if_splits)
next
  case (Reload_Swap t)
  with assms obtain h where "t < length (wr_pc w)" "drained w" "wr_pc w ! t = Reload_Locked h"
    by (auto split: if_splits pc.splits)
  with assms Reload_Swap show ?thesis by (intro swapped) auto
next
  case (Stop_Swap t)
  with assms show ?thesis by (intro stopped) (auto simp: at_pc_def split: if_splits)
next
  case (Serve_Begin t)
  with assms show ?thesis by (intro serve) (auto simp: at_pc_def split: if_splits)
next
  case (Serve_End t)
  with assms show ?thesis by (intro served) (auto split: if_splits)
qed

lemma owner_inv_step:
  assumes "owner_inv w" "wrapper_step ev w = Some w'"
  shows "owner_inv w'"
proof -
  have c: "count (holding (wr_pc w)) h + (if wr_handler w = Some h then 1 else 0) \<le> (if h < wr_next w then 1 else 0)" for h
    using assms(1) by (simp add: owner_inv_def)
  have upd: "count (holding ((wr_pc w)[t := p])) h + count (opt_mset (owned (wr_pc w ! t))) h =
      count (holding (wr_pc w)) h + count (opt_mset (owned p)) h" if "t < length (wr_pc w)" for t p h
    by (rule holding_update [OF that])
  have keep: ?thesis
    if "t < length (wr_pc w)" "wr_pc w' = (wr_pc w)[t := p]" "owned p = owned (wr_pc w ! t)"
      "wr_handler w' = wr_handler w" "wr_next w' = wr_next w" for t p
    unfolding owner_inv_def using c upd [OF that(1), of p] that(2-5) by simp
  from assms(2) show ?thesis
  proof (cases rule: wrapper_step_cases)
    case (build t n)
    show ?thesis unfolding owner_inv_def
    proof
      fix h
      from upd [OF build(2), of "Reload_Made (wr_next w)" h] build(3) c [of h]
      show "count (holding (wr_pc w') + opt_mset (wr_handler w')) h \<le> (if h < wr_next w' then 1 else 0)"
        by (auto simp: build(4) less_Suc_eq split: if_splits)
    qed
  next
    case (swapped t h0)
    show ?thesis unfolding owner_inv_def
    proof
      fix h
      from upd [OF swapped(2), of "retire_old (wr_handler w)" h] swapped(3) c [of h]
      show "count (holding (wr_pc w') + opt_mset (wr_handler w')) h \<le> (if h < wr_next w' then 1 else 0)"
        by (auto simp: swapped(5) split: if_splits)
    qed
  next
    case (stopped t)
    show ?thesis unfolding owner_inv_def
    proof
      fix h
      from upd [OF stopped(2), of "retire_old (wr_handler w)" h] stopped(3) c [of h]
      show "count (holding (wr_pc w') + opt_mset (wr_handler w')) h \<le> (if h < wr_next w' then 1 else 0)"
        by (auto simp: stopped(5) split: if_splits)
    qed
  next
    case (retired t h0 ls)
    show ?thesis unfolding owner_inv_def
    proof
      fix h
      from upd [OF retired(2), of Idle h] retired(3) c [of h]
      show "count (holding (wr_pc w') + opt_mset (wr_handler w')) h \<le> (if h < wr_next w' then 1 else 0)"
        by (auto simp: retired(5) split: if_splits)
    qed
  next
    case (refused t h)
    then show ?thesis by (intro keep [of t "Retiring h"]) simp_all
  next
    case (started t h)
    then show ?thesis by (intro keep [of t "Reload_Locked h"]) simp_all
  next
    case (stop t)
    then show ?thesis by (intro keep [of t Stop_Locked]) simp_all
  next
    case (serve t)
    then show ?thesis by (intro keep [of t "Serving (wr_handler w)"]) simp_all
  next
    case (served t)
    then show ?thesis by (intro keep [of t Idle]) (simp_all add: not_serving_owned)
  next
    case (panicked t h)
    with assms(1) show ?thesis by (simp add: owner_inv_def)
  next
    case (stop_again t)
    with assms(1) show ?thesis by simp
  qed
qed

subsection \<open>The lives\<close>

lemma pc_ok_other:
  assumes "pc_ok w t p" "\<And>h. owned p = Some h \<Longrightarrow> wr_lives w' h = wr_lives w h"
    and "is_holder p \<Longrightarrow> wr_lock w' = Some t \<and> wr_stopped w' = wr_stopped w"
    and "is_serving p \<Longrightarrow> wr_handler w' = wr_handler w"
  shows "pc_ok w' t p"
  using assms by (cases p) (auto simp: pc_ok_def is_holder_def is_serving_def)

lemma holder_lock: "life_inv w \<Longrightarrow> t < length (wr_pc w) \<Longrightarrow> is_holder (wr_pc w ! t) \<Longrightarrow> wr_lock w = Some t"
proof -
  assume "life_inv w" "t < length (wr_pc w)" and h: "is_holder (wr_pc w ! t)"
  then have "pc_ok w t (wr_pc w ! t)" by (simp add: life_inv_def)
  with h show ?thesis by (cases "wr_pc w ! t") (simp_all add: pc_ok_def is_holder_def)
qed

text \<open>A step of one thread: what has to be shown of the others.\<close>

lemma life_inv_goto:
  assumes "life_inv w" "t < length (wr_pc w)" "wr_pc w' = (wr_pc w)[t := p]" "pc_ok w' t p"
    and others: "\<And>t'. t' < length (wr_pc w) \<Longrightarrow> t' \<noteq> t \<Longrightarrow>
      (is_holder (wr_pc w ! t') \<longrightarrow> wr_lock w' = Some t' \<and> wr_stopped w' = wr_stopped w) \<and>
      (\<forall>h. owned (wr_pc w ! t') = Some h \<longrightarrow> wr_lives w' h = wr_lives w h) \<and>
      (is_serving (wr_pc w ! t') \<longrightarrow> wr_handler w' = wr_handler w)"
    and handler: "\<And>h. wr_handler w' = Some h \<Longrightarrow> running (wr_lives w' h)"
    and quiet: "\<And>h. h < wr_next w' \<Longrightarrow> wr_handler w' \<noteq> Some h \<Longrightarrow>
      \<forall>t' < length (wr_pc w'). owned (wr_pc w' ! t') \<noteq> Some h \<Longrightarrow> quiet (wr_lives w' h)"
    and lock: "\<And>t'. wr_lock w' = Some t' \<Longrightarrow> t' < length (wr_pc w) \<and> is_holder (wr_pc w' ! t')"
    and stopped: "wr_stopped w' \<Longrightarrow> wr_lock w' = None \<Longrightarrow> wr_handler w' = None"
    and "\<not> wr_panicked w'"
  shows "life_inv w'"
proof -
  have "pc_ok w' t' (wr_pc w' ! t')" if "t' < length (wr_pc w')" for t'
  proof (cases "t' = t")
    case True
    with assms(2,3,4) show ?thesis by simp
  next
    case False
    with that assms(3) have t': "t' < length (wr_pc w)" "wr_pc w' ! t' = wr_pc w ! t'" by simp_all
    have "pc_ok w t' (wr_pc w ! t')" using assms(1) t'(1) by (simp add: life_inv_def)
    from pc_ok_other [OF this] others [OF t'(1) False] show ?thesis unfolding t'(2) by blast
  qed
  then show ?thesis unfolding life_inv_def
    using handler quiet lock stopped assms(3,10) by simp
qed

lemma life_inv_step:
  assumes "life_inv w" "owner_inv w" "wrapper_step ev w = Some w'"
  shows "life_inv w'"
proof -
  have pc: "pc_ok w t (wr_pc w ! t)" if "t < length (wr_pc w)" for t
    using that assms(1) by (simp add: life_inv_def)
  have hd: "running (wr_lives w h)" if "wr_handler w = Some h" for h
    using that assms(1) by (simp add: life_inv_def)
  have qu: "quiet (wr_lives w h)" if "h < wr_next w" "wr_handler w \<noteq> Some h"
    "\<forall>t < length (wr_pc w). owned (wr_pc w ! t) \<noteq> Some h" for h
    using that assms(1) by (simp add: life_inv_def)
  have lk: "t < length (wr_pc w) \<and> is_holder (wr_pc w ! t)" if "wr_lock w = Some t" for t
    using that assms(1) by (simp add: life_inv_def)
  have st: "wr_handler w = None" if "wr_stopped w" "wr_lock w = None"
    using that assms(1) by (simp add: life_inv_def)
  have np: "\<not> wr_panicked w" using assms(1) by (simp add: life_inv_def)
  note hl = holder_lock [OF assms(1)]
  note own = owner_facts [OF assms(2)] and oh = owner_handler [OF assms(2)]
  have unheld: "\<forall>t' < length (wr_pc w). owned (wr_pc w ! t') \<noteq> Some h"
    if "\<forall>t' < length ((wr_pc w)[t := p]). owned ((wr_pc w)[t := p] ! t') \<noteq> Some h"
      "t < length (wr_pc w)" "owned (wr_pc w ! t) \<noteq> Some h" for t p h
    using that by (metis length_list_update nth_list_update_neq)
  have oth: "(is_holder (wr_pc w ! t') \<longrightarrow> wr_lock w' = Some t' \<and> wr_stopped w' = wr_stopped w) \<and>
      (\<forall>h. owned (wr_pc w ! t') = Some h \<longrightarrow> wr_lives w' h = wr_lives w h) \<and>
      (is_serving (wr_pc w ! t') \<longrightarrow> wr_handler w' = wr_handler w)"
    if "t' < length (wr_pc w)" "wr_handler w' = wr_handler w"
      "wr_lock w = None \<or> wr_lock w' = wr_lock w \<and> wr_stopped w' = wr_stopped w"
      "\<And>h. owned (wr_pc w ! t') = Some h \<Longrightarrow> wr_lives w' h = wr_lives w h" for t'
    using hl [OF that(1)] that(2-4) by fastforce
  have lkp: "t' < length (wr_pc w) \<and> is_holder ((wr_pc w)[t := p] ! t')"
    if "wr_lock w = Some t'" "\<not> is_holder (wr_pc w ! t)" for t t' p
    using lk [OF that(1)] that(2) by (cases "t' = t") simp_all
  have nolock: False if "wr_lock w = None" "t < length (wr_pc w)" "is_holder (wr_pc w ! t)" for t
    using hl [OF that(2,3)] that(1) by simp
  from assms(3) show ?thesis
  proof (cases rule: wrapper_step_cases)
    case (build t n)
    show ?thesis
    proof (rule life_inv_goto [OF assms(1) build(2), where p = "Reload_Made (wr_next w)"])
      fix h
      assume h: "h < wr_next w'" "wr_handler w' \<noteq> Some h" "\<forall>t' < length (wr_pc w'). owned (wr_pc w' ! t') \<noteq> Some h"
      have "h \<noteq> wr_next w" using h(3) build(2,4) by auto
      moreover have "\<forall>t' < length (wr_pc w). owned (wr_pc w ! t') \<noteq> Some h"
        by (rule unheld [of t "Reload_Made (wr_next w)"]) (use h(3) build in simp_all)
      ultimately show "quiet (wr_lives w' h)" using h(1,2) qu [of h] build(4) by simp
    next
      fix t'
      assume t': "t' < length (wr_pc w)"
      show "(is_holder (wr_pc w ! t') \<longrightarrow> wr_lock w' = Some t' \<and> wr_stopped w' = wr_stopped w) \<and>
        (\<forall>h. owned (wr_pc w ! t') = Some h \<longrightarrow> wr_lives w' h = wr_lives w h) \<and>
        (is_serving (wr_pc w ! t') \<longrightarrow> wr_handler w' = wr_handler w)"
        by (rule oth [OF t']) (use own(1) [OF t'] build(4) in \<open>fastforce+\<close>)
    next
      fix t'
      assume "wr_lock w' = Some t'"
      then show "t' < length (wr_pc w) \<and> is_holder (wr_pc w' ! t')"
        using lkp [of t' t] build(3,4) by (simp add: is_holder_def)
    qed (use build oh hd st np in \<open>auto simp: pc_ok_def unstarted_new dest: less_imp_neq\<close>)
  next
    case (refused t h0)
    show ?thesis
    proof (rule life_inv_goto [OF assms(1) refused(2), where p = "Retiring h0"])
      fix h
      assume h: "h < wr_next w'" "wr_handler w' \<noteq> Some h" "\<forall>t' < length (wr_pc w'). owned (wr_pc w' ! t') \<noteq> Some h"
      have "\<forall>t' < length (wr_pc w). owned (wr_pc w ! t') \<noteq> Some h"
        using h(3) refused by (metis goto_simps(7) length_list_update nth_list_update owned.simps(1,3))
      then show "quiet (wr_lives w' h)" using h(1,2) qu [of h] refused(6) by simp
    next
      fix t'
      assume t': "t' < length (wr_pc w)"
      show "(is_holder (wr_pc w ! t') \<longrightarrow> wr_lock w' = Some t' \<and> wr_stopped w' = wr_stopped w) \<and>
        (\<forall>h. owned (wr_pc w ! t') = Some h \<longrightarrow> wr_lives w' h = wr_lives w h) \<and>
        (is_serving (wr_pc w ! t') \<longrightarrow> wr_handler w' = wr_handler w)"
        by (rule oth [OF t']) (simp_all add: refused(6))
    qed (use refused pc [OF refused(2)] hd st np in \<open>auto simp: pc_ok_def\<close>)
  next
    case (started t h0)
    have ow: "owned (wr_pc w ! t) = Some h0" using started(3) by simp
    note f = own [OF started(2) ow]
    show ?thesis
    proof (rule life_inv_goto [OF assms(1) started(2), where p = "Reload_Locked h0"])
      fix h
      assume h: "h < wr_next w'" "wr_handler w' \<noteq> Some h" "\<forall>t' < length (wr_pc w'). owned (wr_pc w' ! t') \<noteq> Some h"
      have n: "h \<noteq> h0" using h(3) started(2,6) by auto
      have "\<forall>t' < length (wr_pc w). owned (wr_pc w ! t') \<noteq> Some h"
        by (rule unheld [of t "Reload_Locked h0"]) (use h(3) started n in simp_all)
      then show "quiet (wr_lives w' h)" using h(1,2) n qu [of h] started(6) by simp
    next
      fix t'
      assume t': "t' < length (wr_pc w)" "t' \<noteq> t"
      have "h \<noteq> h0" if "owned (wr_pc w ! t') = Some h" for h
        using f(3) [OF t'(1)] that t'(2) by auto
      then show "(is_holder (wr_pc w ! t') \<longrightarrow> wr_lock w' = Some t' \<and> wr_stopped w' = wr_stopped w) \<and>
        (\<forall>h. owned (wr_pc w ! t') = Some h \<longrightarrow> wr_lives w' h = wr_lives w h) \<and>
        (is_serving (wr_pc w ! t') \<longrightarrow> wr_handler w' = wr_handler w)"
        using started(4,6) by (intro oth [OF t'(1)]) auto
    next
      fix h
      assume "wr_handler w' = Some h"
      then show "running (wr_lives w' h)" using hd [of h] f(2) started(6) by auto
    next
      show "pc_ok w' t (Reload_Locked h0)"
        using pc [OF started(2)] started(3,5,6) running_start by (simp add: pc_ok_def)
    qed (use started np in \<open>auto simp: is_holder_def\<close>)
  next
    case (swapped t h0)
    have ow: "owned (wr_pc w ! t) = Some h0" using swapped(3) by simp
    note f = own [OF swapped(2) ow]
    have lock: "wr_lock w = Some t" "running (wr_lives w h0)" "\<not> wr_stopped w"
      using pc [OF swapped(2)] swapped(3) by (simp_all add: pc_ok_def)
    have dr: "\<not> is_serving (wr_pc w ! t')" if "t' < length (wr_pc w)" for t'
      using that swapped(4) by (simp add: drained_def list_all_length)
    have ret: "pc_ok w' t (retire_old (wr_handler w))"
      using hd swapped(5) by (cases "wr_handler w") (simp_all add: retire_old_def pc_ok_def)
    show ?thesis
    proof (rule life_inv_goto [OF assms(1) swapped(2) _ ret])
      fix h
      assume h: "h < wr_next w'" "wr_handler w' \<noteq> Some h" "\<forall>t' < length (wr_pc w'). owned (wr_pc w' ! t') \<noteq> Some h"
      have n: "h \<noteq> h0" using h(2) swapped(5) by simp
      have o: "wr_handler w \<noteq> Some h" using h(3) swapped(2,5) by auto
      have "\<forall>t' < length (wr_pc w). owned (wr_pc w ! t') \<noteq> Some h"
        by (rule unheld [of t "retire_old (wr_handler w)"]) (use h(3) swapped n in simp_all)
      then show "quiet (wr_lives w' h)" using h(1) o qu [of h] swapped(5) by simp
    next
      fix t'
      assume t': "t' < length (wr_pc w)" "t' \<noteq> t"
      with hl lock(1) have "\<not> is_holder (wr_pc w ! t')" by fastforce
      with dr [OF t'(1)] show "(is_holder (wr_pc w ! t') \<longrightarrow> wr_lock w' = Some t' \<and> wr_stopped w' = wr_stopped w) \<and>
        (\<forall>h. owned (wr_pc w ! t') = Some h \<longrightarrow> wr_lives w' h = wr_lives w h) \<and>
        (is_serving (wr_pc w ! t') \<longrightarrow> wr_handler w' = wr_handler w)" by (simp add: swapped(5))
    qed (use swapped(5) lock np in simp_all)
  next
    case (stop t)
    have nh: "\<not> is_holder (wr_pc w ! t')" if "t' < length (wr_pc w)" for t'
      using hl [OF that] stop(4) by auto
    show ?thesis
    proof (rule life_inv_goto [OF assms(1) stop(2), where p = Stop_Locked])
      fix h
      assume h: "h < wr_next w'" "wr_handler w' \<noteq> Some h" "\<forall>t' < length (wr_pc w'). owned (wr_pc w' ! t') \<noteq> Some h"
      have "\<forall>t' < length (wr_pc w). owned (wr_pc w ! t') \<noteq> Some h"
        by (rule unheld [of t Stop_Locked]) (use h(3) stop in simp_all)
      then show "quiet (wr_lives w' h)" using h(1,2) qu [of h] stop(6) by simp
    qed (use stop nh hd np in \<open>auto simp: pc_ok_def is_holder_def\<close>)
  next
    case (stopped t)
    have lock: "wr_lock w = Some t" using pc [OF stopped(2)] stopped(3) by (simp add: pc_ok_def)
    have dr: "\<not> is_serving (wr_pc w ! t')" if "t' < length (wr_pc w)" for t'
      using that stopped(4) by (simp add: drained_def list_all_length)
    have ret: "pc_ok w' t (retire_old (wr_handler w))"
      using hd stopped(5) by (cases "wr_handler w") (simp_all add: retire_old_def pc_ok_def)
    show ?thesis
    proof (rule life_inv_goto [OF assms(1) stopped(2) _ ret])
      fix h
      assume h: "h < wr_next w'" "wr_handler w' \<noteq> Some h" "\<forall>t' < length (wr_pc w'). owned (wr_pc w' ! t') \<noteq> Some h"
      have o: "wr_handler w \<noteq> Some h" using h(3) stopped(2,5) by auto
      have "\<forall>t' < length (wr_pc w). owned (wr_pc w ! t') \<noteq> Some h"
        by (rule unheld [of t "retire_old (wr_handler w)"]) (use h(3) stopped in simp_all)
      then show "quiet (wr_lives w' h)" using h(1) o qu [of h] stopped(5) by simp
    next
      fix t'
      assume t': "t' < length (wr_pc w)" "t' \<noteq> t"
      with hl lock have "\<not> is_holder (wr_pc w ! t')" by fastforce
      with dr [OF t'(1)] show "(is_holder (wr_pc w ! t') \<longrightarrow> wr_lock w' = Some t' \<and> wr_stopped w' = wr_stopped w) \<and>
        (\<forall>h. owned (wr_pc w ! t') = Some h \<longrightarrow> wr_lives w' h = wr_lives w h) \<and>
        (is_serving (wr_pc w ! t') \<longrightarrow> wr_handler w' = wr_handler w)" by (simp add: stopped(5))
    qed (use stopped(5) np in simp_all)
  next
    case (panicked t h0)
    with pc [OF panicked(2)] handler_stop_running handler_stop_unstarted show ?thesis
      by (fastforce simp: pc_ok_def)
  next
    case (retired t h0 ls)
    have ow: "owned (wr_pc w ! t) = Some h0" using retired(3) by simp
    note f = own [OF retired(2) ow]
    have ql: "quiet ls"
      using pc [OF retired(2)] retired(3,4) handler_stop_running handler_stop_unstarted by (fastforce simp: pc_ok_def)
    show ?thesis
    proof (rule life_inv_goto [OF assms(1) retired(2), where p = Idle])
      fix h
      assume h: "h < wr_next w'" "wr_handler w' \<noteq> Some h" "\<forall>t' < length (wr_pc w'). owned (wr_pc w' ! t') \<noteq> Some h"
      show "quiet (wr_lives w' h)"
      proof (cases "h = h0")
        case True
        with ql retired(5) show ?thesis by simp
      next
        case False
        have "\<forall>t' < length (wr_pc w). owned (wr_pc w ! t') \<noteq> Some h"
          by (rule unheld [of t Idle]) (use h(3) retired False in simp_all)
        then show ?thesis using h(1,2) False qu [of h] retired(5) by simp
      qed
    next
      fix t'
      assume t': "t' < length (wr_pc w)" "t' \<noteq> t"
      have "h \<noteq> h0" if "owned (wr_pc w ! t') = Some h" for h
        using f(3) [OF t'(1)] that t'(2) by auto
      then show "(is_holder (wr_pc w ! t') \<longrightarrow> wr_lock w' = Some t' \<and> wr_stopped w' = wr_stopped w) \<and>
        (\<forall>h. owned (wr_pc w ! t') = Some h \<longrightarrow> wr_lives w' h = wr_lives w h) \<and>
        (is_serving (wr_pc w ! t') \<longrightarrow> wr_handler w' = wr_handler w)"
        using retired(5) by (intro oth [OF t'(1)]) auto
    next
      fix h
      assume "wr_handler w' = Some h"
      then show "running (wr_lives w' h)" using hd [of h] f(2) retired(5) by auto
    next
      fix t'
      assume "wr_lock w' = Some t'"
      then show "t' < length (wr_pc w) \<and> is_holder (wr_pc w' ! t')"
        using lkp [of t' t] retired(3,5) by (simp add: is_holder_def)
    qed (use retired st np in \<open>auto simp: pc_ok_def\<close>)
  next
    case (serve t)
    show ?thesis
    proof (rule life_inv_goto [OF assms(1) serve(2), where p = "Serving (wr_handler w)"])
      fix h
      assume h: "h < wr_next w'" "wr_handler w' \<noteq> Some h" "\<forall>t' < length (wr_pc w'). owned (wr_pc w' ! t') \<noteq> Some h"
      have "\<forall>t' < length (wr_pc w). owned (wr_pc w ! t') \<noteq> Some h"
        by (rule unheld [of t "Serving (wr_handler w)"]) (use h(3) serve in simp_all)
      then show "quiet (wr_lives w' h)" using h(1,2) qu [of h] serve(4) by simp
    next
      fix t'
      assume t': "t' < length (wr_pc w)"
      show "(is_holder (wr_pc w ! t') \<longrightarrow> wr_lock w' = Some t' \<and> wr_stopped w' = wr_stopped w) \<and>
        (\<forall>h. owned (wr_pc w ! t') = Some h \<longrightarrow> wr_lives w' h = wr_lives w h) \<and>
        (is_serving (wr_pc w ! t') \<longrightarrow> wr_handler w' = wr_handler w)"
        by (rule oth [OF t']) (simp_all add: serve(4))
    next
      fix t'
      assume "wr_lock w' = Some t'"
      then show "t' < length (wr_pc w) \<and> is_holder (wr_pc w' ! t')"
        using lkp [of t' t] serve(3,4) by (simp add: is_holder_def)
    qed (use serve hd st np in \<open>auto simp: pc_ok_def\<close>)
  next
    case (served t)
    show ?thesis
    proof (rule life_inv_goto [OF assms(1) served(2), where p = Idle])
      fix h
      assume h: "h < wr_next w'" "wr_handler w' \<noteq> Some h" "\<forall>t' < length (wr_pc w'). owned (wr_pc w' ! t') \<noteq> Some h"
      have "\<forall>t' < length (wr_pc w). owned (wr_pc w ! t') \<noteq> Some h"
        by (rule unheld [of t Idle]) (use h(3) served not_serving_owned in simp_all)
      then show "quiet (wr_lives w' h)" using h(1,2) qu [of h] served(4) by simp
    next
      fix t'
      assume t': "t' < length (wr_pc w)"
      show "(is_holder (wr_pc w ! t') \<longrightarrow> wr_lock w' = Some t' \<and> wr_stopped w' = wr_stopped w) \<and>
        (\<forall>h. owned (wr_pc w ! t') = Some h \<longrightarrow> wr_lives w' h = wr_lives w h) \<and>
        (is_serving (wr_pc w ! t') \<longrightarrow> wr_handler w' = wr_handler w)"
        by (rule oth [OF t']) (simp_all add: served(4))
    next
      fix t'
      assume "wr_lock w' = Some t'"
      moreover have "\<not> is_holder (wr_pc w ! t)"
        using served(3) by (cases "wr_pc w ! t") (simp_all add: is_holder_def is_serving_def)
      ultimately show "t' < length (wr_pc w) \<and> is_holder (wr_pc w' ! t')"
        using lkp [of t' t] served(4) by simp
    qed (use served hd st np in \<open>auto simp: pc_ok_def\<close>)
  next
    case (stop_again t)
    with assms(1) show ?thesis by simp
  qed
qed

subsection \<open>Every state that is reached\<close>

lemma holding_idle [simp]: "holding (replicate n Idle) = {#}"
  by (induction n) (simp_all add: opt_mset_def)

lemma owner_inv_new: "owner_inv (new_wrapper n)"
  by (simp add: owner_inv_def new_wrapper_def)

lemma life_inv_new: "life_inv (new_wrapper n)"
  by (simp add: life_inv_def new_wrapper_def pc_ok_def)

lemma wrapper_step_length: "wrapper_step ev w = Some w' \<Longrightarrow> length (wr_pc w') = length (wr_pc w)"
  by (cases ev) (auto split: if_splits pc.splits option.splits)

lemma wrapper_reach_inv:
  "wrapper_reach n w \<Longrightarrow> owner_inv w \<and> life_inv w \<and> length (wr_pc w) = n"
proof (induction rule: wrapper_reach.induct)
  case reach_new
  show ?case by (simp add: owner_inv_new life_inv_new) (simp add: new_wrapper_def)
next
  case (reach_step w ev w')
  then show ?case using owner_inv_step life_inv_step wrapper_step_length by metis
qed

lemma life_invD:
  assumes "life_inv w"
  shows "t < length (wr_pc w) \<Longrightarrow> pc_ok w t (wr_pc w ! t)"
    "wr_handler w = Some h \<Longrightarrow> running (wr_lives w h)"
    "wr_lock w = Some t \<Longrightarrow> t < length (wr_pc w) \<and> is_holder (wr_pc w ! t)"
    "wr_stopped w \<Longrightarrow> wr_lock w = None \<Longrightarrow> wr_handler w = None" "\<not> wr_panicked w"
  using assms by (simp_all add: life_inv_def)

lemma life_inv_quiet:
  "life_inv w \<Longrightarrow> h < wr_next w \<Longrightarrow> wr_handler w \<noteq> Some h \<Longrightarrow>
   \<forall>t < length (wr_pc w). owned (wr_pc w ! t) \<noteq> Some h \<Longrightarrow> quiet (wr_lives w h)"
  by (simp add: life_inv_def)

subsection \<open>Calls come to an end\<close>

text \<open>
  The steps that begin a call are \<open>Reload_Build\<close>, \<open>Stop_Lock\<close> and \<open>Serve_Begin\<close>; the others
  continue one. The work that is left of a call is the number of steps it still takes.
\<close>

fun continues :: "wrapper_event \<Rightarrow> bool" where
  "continues (Reload_Build _ _) = False"
| "continues (Stop_Lock _) = False"
| "continues (Serve_Begin _) = False"
| "continues _ = True"

fun work :: "pc \<Rightarrow> nat" where
  "work Idle = 0"
| "work (Reload_Made _) = 3"
| "work (Reload_Locked _) = 2"
| "work (Retiring _) = 1"
| "work Stop_Locked = 2"
| "work (Serving _) = 1"

definition work_left :: "wrapper \<Rightarrow> nat" where
  "work_left w = sum_list (map work (wr_pc w))"

lemma work_retire: "work (retire_old old) \<le> 1"
  by (cases old) (simp_all add: retire_old_def)

lemma sum_list_update_less:
  "t < length ps \<Longrightarrow> work p < work (ps ! t) \<Longrightarrow> sum_list (map work (ps[t := p])) < sum_list (map work ps)"
proof (induction ps arbitrary: t)
  case (Cons q ps)
  then show ?case by (cases t) simp_all
qed simp

lemma work_left_goto:
  "t < length (wr_pc w) \<Longrightarrow> wr_pc w' = (wr_pc w)[t := p] \<Longrightarrow> work p < work (wr_pc w ! t) \<Longrightarrow>
   work_left w' < work_left w"
  by (simp add: work_left_def sum_list_update_less)

lemma continuing_step_works:
  assumes "life_inv w" "wrapper_step ev w = Some w'" "continues ev"
  shows "work_left w' < work_left w"
proof -
  have r: "work (retire_old (wr_handler w)) < 2" using work_retire [of "wr_handler w"] by linarith
  have stop: "\<exists>ls. handler_stop (wr_lives w h) = Some ls"
    if "t < length (wr_pc w)" "wr_pc w ! t = Retiring h" for t h
    using life_invD(1) [OF assms(1) that(1)] that(2) handler_stop_running handler_stop_unstarted
    by (fastforce simp: pc_ok_def)
  show ?thesis
  proof (cases ev)
    case (Reload_Lock t)
    with assms(2) show ?thesis
      by (auto split: if_splits pc.splits intro!: work_left_goto)
  next
    case (Reload_Swap t)
    with assms(2) r show ?thesis
      by (auto split: if_splits pc.splits intro!: work_left_goto)
  next
    case (Stop_Swap t)
    with assms(2) r show ?thesis
      by (auto simp: at_pc_def split: if_splits pc.splits intro!: work_left_goto)
  next
    case (Retire t)
    with assms(2) stop show ?thesis
      by (fastforce split: if_splits pc.splits option.splits intro!: work_left_goto)
  next
    case (Serve_End t)
    with assms(2) show ?thesis
      by (auto simp: is_serving_def split: if_splits pc.splits intro!: work_left_goto)
  qed (use assms(3) in simp_all)
qed

lemma goes_on: "continues ev \<Longrightarrow> wrapper_step ev w \<noteq> None \<Longrightarrow> \<exists>ev w'. continues ev \<and> wrapper_step ev w = Some w'"
  by blast

lemma busy_thread_goes_on:
  assumes "life_inv w" "t < length (wr_pc w)" "wr_pc w ! t \<noteq> Idle"
  shows "\<exists>ev w'. continues ev \<and> wrapper_step ev w = Some w'"
proof (cases "drained w")
  case False
  then obtain t' where "t' < length (wr_pc w)" "is_serving (wr_pc w ! t')" by (auto simp: drained_def list_all_length)
  then show ?thesis by (intro goes_on [of "Serve_End t'"]) simp_all
next
  case dr: True
  show ?thesis
  proof (cases "wr_lock w")
    case (Some l)
    with life_invD(3) [OF assms(1)] have l: "l < length (wr_pc w)" "is_holder (wr_pc w ! l)" by auto
    show ?thesis
    proof (cases "wr_pc w ! l")
      case (Reload_Locked h)
      with l dr show ?thesis by (intro goes_on [of "Reload_Swap l"]) (simp_all)
    next
      case Stop_Locked
      with l dr show ?thesis by (intro goes_on [of "Stop_Swap l"]) (simp_all add: at_pc_def)
    qed (use l(2) in \<open>simp_all add: is_holder_def\<close>)
  next
    case None
    show ?thesis
    proof (cases "wr_pc w ! t")
      case (Reload_Made h)
      with None assms(2) show ?thesis by (intro goes_on [of "Reload_Lock t"]) (simp_all)
    next
      case (Retiring h)
      with assms(2) show ?thesis by (intro goes_on [of "Retire t"]) (simp_all split: option.split)
    next
      case (Serving x)
      with dr assms(2) show ?thesis by (auto simp: drained_def list_all_length is_serving_def)
    next
      case (Reload_Locked h)
      with life_invD(1) [OF assms(1,2)] None show ?thesis by (simp add: pc_ok_def)
    next
      case Stop_Locked
      with life_invD(1) [OF assms(1,2)] None show ?thesis by (simp add: pc_ok_def)
    qed (use assms(3) in simp_all)
  qed
qed

text \<open>A run: the events in order.\<close>

abbreviation wrapper_run :: "wrapper_event list \<Rightarrow> wrapper \<Rightarrow> wrapper option" where
  "wrapper_run \<equiv> run_steps wrapper_step"

lemma reach_run: "wrapper_reach n w \<Longrightarrow> wrapper_run evs w = Some w' \<Longrightarrow> wrapper_reach n w'"
  by (induction evs arbitrary: w) (auto simp: bind_eq_Some_conv intro: wrapper_reach.reach_step)

lemma work_left_zero: "work_left w = 0 \<longleftrightarrow> (\<forall>t < length (wr_pc w). wr_pc w ! t = Idle)"
proof -
  have "work p = 0 \<longleftrightarrow> p = Idle" for p by (cases p) simp_all
  then show ?thesis by (simp add: work_left_def all_set_conv_all_nth)
qed

interpretation wr: finishing_steps wrapper_step continues "\<lambda>w. owner_inv w \<and> life_inv w" work_left "\<lambda>w. work_left w = 0"
proof
  show "\<exists>ev w'. continues ev \<and> wrapper_step ev w = Some w'" if "owner_inv w \<and> life_inv w" "work_left w \<noteq> 0" for w
    using that busy_thread_goes_on by (auto simp: work_left_zero)
qed (auto intro: owner_inv_step life_inv_step continuing_step_works)

subsection \<open>Serving through the wrapper\<close>

text \<open>\<open>ServeDNS\<close> of the wrapper with the handler it loaded.\<close>

definition wrapper_serve ::
  "('s, 'r) libraries \<Rightarrow> 'g igroup \<Rightarrow> query_run \<Rightarrow> ('s, 'g, 'r) handler option \<Rightarrow> dns_msg \<Rightarrow>
   no_result + (dns_msg \<times> ('s, 'g, 'r) handler option)"
where
  "wrapper_serve B I q h req =
     (case h of
        None \<Rightarrow> Inr (lib_set_rcode (lb_dns B) new_msg req rcode_server_failure, None)
      | Some impl \<Rightarrow> and_then (serve_dns B I q impl req) (\<lambda>(m, impl'). Inr (m, Some impl')))"

subsection \<open>Properties\<close>

text \<open>Two threads: the first has put a handler in use and is replacing it, the second serves a query.\<close>

definition demo_events :: "wrapper_event list" where
  "demo_events = [Reload_Build 0 1, Reload_Lock 0, Reload_Swap 0, Serve_Begin 1, Reload_Build 0 2, Reload_Lock 0]"

definition demo_wrapper :: wrapper where
  "demo_wrapper = the (wrapper_run demo_events (new_wrapper 2))"

lemma demo_wrapper_run: "wrapper_run demo_events (new_wrapper 2) = Some demo_wrapper"
proof -
  have "wrapper_run demo_events (new_wrapper 2) \<noteq> None" by code_simp
  then show ?thesis by (auto simp: demo_wrapper_def)
qed

lemma demo_wrapper_reach: "wrapper_reach 2 demo_wrapper"
  by (rule reach_run [OF wrapper_reach.reach_new demo_wrapper_run])



text \<open>C7: Nothing is left running: once \<open>Stop\<close> has released its lock no handler is in use, not even
  when reloads were under way, and once all calls have returned every handler that was built
  has stopped its callers, except the one in use.\<close>

theorem stop_is_final:
  assumes "wrapper_reach n w"
  shows "(wr_stopped w \<and> wr_lock w = None \<longrightarrow> wr_handler w = None \<and>
           (\<forall>ev w'. wrapper_step ev w = Some w' \<longrightarrow> wr_stopped w' \<and> wr_lock w' = None \<and> wr_handler w' = None)) \<and>
    ((\<forall>t < n. wr_pc w ! t = Idle) \<longrightarrow>
       (\<forall>h < wr_next w. wr_handler w \<noteq> Some h \<longrightarrow> quiet (wr_lives w h)))"
proof -
  from wrapper_reach_inv [OF assms] have i: "life_inv w" "owner_inv w" "length (wr_pc w) = n" by simp_all
  have nh: "\<not> is_holder (wr_pc w ! t)" if "t < n" "wr_lock w = None" for t
    using life_invD(1) [OF i(1), of t] that i(3) by (auto simp: pc_ok_def is_holder_def split: pc.splits)
  have 1: "wr_stopped w' \<and> wr_lock w' = None \<and> wr_handler w' = None"
    if a: "wr_stopped w" "wr_lock w = None" and s: "wrapper_step ev w = Some w'" for ev w'
    using s
  proof (cases rule: wrapper_step_cases)
    case (swapped t h0)
    with nh [of t] a i(3) show ?thesis by (simp add: is_holder_def)
  next
    case (stopped t)
    with nh [of t] a i(3) show ?thesis by (simp add: is_holder_def)
  qed (use a life_invD(4) [OF i(1)] in simp_all)
  have 2: "quiet (wr_lives w h)"
    if "\<forall>t < n. wr_pc w ! t = Idle" "h < wr_next w" "wr_handler w \<noteq> Some h" for h
    by (intro life_inv_quiet [OF i(1)]) (use that i(3) in auto)
  from 1 2 life_invD(4) [OF i(1)] show ?thesis by blast
qed

text \<open>A stop while another thread is building a handler: the new handler is stopped at once.\<close>

definition demo_stop_events :: "wrapper_event list" where
  "demo_stop_events = [Reload_Build 0 1, Reload_Lock 0, Reload_Swap 0, Reload_Build 1 1, Stop_Lock 0, Stop_Swap 0,
     Reload_Lock 1, Retire 1, Retire 0]"

definition demo_stopped :: wrapper where
  "demo_stopped = the (wrapper_run demo_stop_events (new_wrapper 2))"

lemma demo_stopped_reach: "wrapper_reach 2 demo_stopped"
proof -
  have "wrapper_run demo_stop_events (new_wrapper 2) \<noteq> None" by code_simp
  then have "wrapper_run demo_stop_events (new_wrapper 2) = Some demo_stopped" by (auto simp: demo_stopped_def)
  then show ?thesis by (rule reach_run [OF wrapper_reach.reach_new])
qed

theorem stop_is_final_witness:
  "wr_handler demo_stopped = None \<and> quiet (wr_lives demo_stopped 0) \<and> quiet (wr_lives demo_stopped 1)"
proof -
  have "wr_stopped demo_stopped \<and> wr_lock demo_stopped = None" "wr_next demo_stopped = 2"
    "wr_pc demo_stopped = [Idle, Idle]" by code_simp+
  with stop_is_final [OF demo_stopped_reach] show ?thesis by (auto simp: less_2_cases_iff nth_Cons')
qed

text \<open>C8: No deadlock: in every state that is reached, while a call is under way some call can go on;
  the calls under way take at most \<open>3n\<close> steps in all while no new one begins; and
  they can all be brought to an end.\<close>

theorem calls_return:
  assumes "wrapper_reach n w"
  shows "((\<exists>t < n. wr_pc w ! t \<noteq> Idle) \<longrightarrow> (\<exists>ev w'. continues ev \<and> wrapper_step ev w = Some w')) \<and>
    (\<forall>evs w'. wrapper_run evs w = Some w' \<and> list_all continues evs \<longrightarrow> length evs \<le> 3 * n) \<and>
    (\<exists>evs w'. wrapper_run evs w = Some w' \<and> list_all continues evs \<and> (\<forall>t < n. wr_pc w' ! t = Idle))"
proof -
  from wrapper_reach_inv [OF assms] have i: "life_inv w" "owner_inv w" "length (wr_pc w) = n" by simp_all
  have "work p \<le> 3" for p by (cases p) simp_all
  then have "sum_list (map work ps) \<le> 3 * length ps" for ps by (induction ps) (simp_all add: add_mono)
  from this [of "wr_pc w"] have "work_left w \<le> 3 * n" using i(3) by (simp add: work_left_def)
  then have 2: "length evs \<le> 3 * n" if "wrapper_run evs w = Some w'" "list_all continues evs" for evs w'
    using wr.run_bound [OF that(2) _ that(1)] i(1,2) by linarith
  obtain evs w' where 3: "list_all continues evs" "wrapper_run evs w = Some w'" "work_left w' = 0"
    using wr.can_finish [of w] i(1,2) by blast
  have "length (wr_pc w') = n" using wrapper_reach_inv [OF reach_run [OF assms 3(2)]] by simp
  with 3 have "\<exists>evs w'. wrapper_run evs w = Some w' \<and> list_all continues evs \<and> (\<forall>t < n. wr_pc w' ! t = Idle)"
    by (auto simp: work_left_zero)
  with 2 busy_thread_goes_on [OF i(1)] i(3) show ?thesis by blast
qed

theorem calls_return_witness: "\<exists>ev w'. continues ev \<and> wrapper_step ev demo_wrapper = Some w'"
proof -
  have "wr_pc demo_wrapper ! 1 \<noteq> Idle" by code_simp
  moreover have "1 < (2 :: nat)" by simp
  ultimately show ?thesis using calls_return [OF demo_wrapper_reach] by blast
qed

text \<open>A query to the wrapper is always answered: by the handler in use, or with SERVFAIL and the
  id of the request when there is none.\<close>

theorem wrapper_always_answers:
  assumes "set_rcode_law (lb_dns B)"
  shows "(h = None \<longrightarrow> (\<exists>m. wrapper_serve B I q h req = Inr (m, None) \<and> msg_rcode m = 2 \<and>
           msg_id m = msg_id req \<and> msg_answer m = [])) \<and>
    (h = Some impl \<and> serve_dns B I q impl req = Inr (m, impl') \<longrightarrow>
       wrapper_serve B I q h req = Inr (m, Some impl'))"
  using assms by (auto simp: wrapper_serve_def set_rcode_law_def dns_consts new_msg_def)

theorem wrapper_always_answers_witness:
  "\<exists>m. wrapper_serve demo_libs demo_iface (demo_run 1) None (aaaa_msg\<lparr>msg_id := 7\<rparr>) = Inr (m, None) \<and> msg_id m = 7"
proof -
  have "set_rcode_law (lb_dns demo_libs)" using plain_lib_laws by (simp add: demo_libs_def)
  from wrapper_always_answers [OF this, of None] show ?thesis by fastforce
qed

end
