(* ===== verification/Request_Log.thy ===== *)
theory Request_Log
  imports Handler_Wrapper
begin

section \<open>Response writers and the request log\<close>

text \<open>
  \<open>utils/resp_writer.go\<close> and \<open>utils/request_info.go\<close>: the writer that keeps the message it is
  given, used where a query does not come over a DNS connection; and the line that \<open>handle\<close>
  of \<open>inbound/handler.go\<close> logs of every query of a client.
\<close>

subsection \<open>Writers\<close>

record net_addr =
  na_network :: string
  na_string :: string

record fake_writer =
  fw_msg :: "dns_msg option"
  fw_bytes :: string
  fw_remote :: "net_addr option"
  fw_local :: "net_addr option"
  fw_proto :: string
  fw_internal :: bool

definition new_fake_writer :: fake_writer where
  "new_fake_writer = \<lparr>fw_msg = None, fw_bytes = [], fw_remote = None, fw_local = None, fw_proto = [],
     fw_internal = False\<rparr>"

definition set_remote :: "net_addr \<Rightarrow> fake_writer \<Rightarrow> fake_writer" where
  "set_remote a w = w\<lparr>fw_remote := Some a\<rparr>"

definition set_proto :: "string \<Rightarrow> fake_writer \<Rightarrow> fake_writer" where
  "set_proto p w = w\<lparr>fw_proto := p\<rparr>"

definition set_internal :: "fake_writer \<Rightarrow> fake_writer" where
  "set_internal w = w\<lparr>fw_internal := True\<rparr>"

definition loopback_addr :: net_addr where
  "loopback_addr = \<lparr>na_network = ''ip'', na_string = ''127.0.0.1''\<rparr>"

definition fake_local_addr :: "fake_writer \<Rightarrow> net_addr" where
  "fake_local_addr w = (case fw_local w of None \<Rightarrow> loopback_addr | Some a \<Rightarrow> a)"

definition fake_remote_addr :: "fake_writer \<Rightarrow> net_addr" where
  "fake_remote_addr w = (case fw_remote w of None \<Rightarrow> loopback_addr | Some a \<Rightarrow> a)"

definition fake_write_msg :: "dns_msg \<Rightarrow> fake_writer \<Rightarrow> fake_writer" where
  "fake_write_msg m w = w\<lparr>fw_msg := Some m\<rparr>"

definition fake_write :: "string \<Rightarrow> fake_writer \<Rightarrow> nat \<times> fake_writer" where
  "fake_write bytes w = (length bytes, w\<lparr>fw_bytes := bytes\<rparr>)"

text \<open>
  What \<open>handle\<close> is given: a writer of a DNS connection, which is not a \<open>RequestMeta\<close>, or a fake
  one, which is.
\<close>

datatype resp_writer = Conn_Writer net_addr | Fake_Writer fake_writer

definition remote_addr :: "resp_writer \<Rightarrow> net_addr" where
  "remote_addr w = (case w of Conn_Writer a \<Rightarrow> a | Fake_Writer f \<Rightarrow> fake_remote_addr f)"

definition request_meta :: "resp_writer \<Rightarrow> (string \<times> bool) option" where
  "request_meta w = (case w of Conn_Writer a \<Rightarrow> None | Fake_Writer f \<Rightarrow> Some (fw_proto f, fw_internal f))"

definition skip_log :: "resp_writer \<Rightarrow> bool" where
  "skip_log w = (case request_meta w of None \<Rightarrow> False | Some (p, internal) \<Rightarrow> internal)"

definition remote_host :: "net_addr \<Rightarrow> string" where
  "remote_host a = (case split_host_port (na_string a) of None \<Rightarrow> na_string a | Some (h, p) \<Rightarrow> h)"

definition log_proto :: "resp_writer \<Rightarrow> string" where
  "log_proto w =
     (case request_meta w of
        None \<Rightarrow> na_network (remote_addr w)
      | Some (p, internal) \<Rightarrow> if p \<noteq> [] then p else na_network (remote_addr w))"

subsection \<open>The fields of a log line\<close>

record log_answer =
  la_name :: string
  la_type :: string
  la_ttl :: u32
  la_data :: string
  la_value :: string

datatype log_value = L_Text string | L_True | L_Count nat | L_Answers "log_answer list"

text \<open>The text of a record; no text for types that are not listed.\<close>

fun answer_text :: "rr \<Rightarrow> string" where
  "answer_text (RR_A _ a) = ip_string a"
| "answer_text (RR_AAAA _ a) = ip_string a"
| "answer_text (RR_CNAME _ t) = t"
| "answer_text (RR_PTR _ t) = t"
| "answer_text (RR_TXT _ ts) = join '' '' ts"
| "answer_text _ = []"

definition log_answer_of :: "(u16 \<Rightarrow> string) \<Rightarrow> rr \<Rightarrow> log_answer" where
  "log_answer_of type_string r =
     \<lparr>la_name = hdr_name (hdr r), la_type = type_string (hdr_rrtype (hdr r)), la_ttl = hdr_ttl (hdr r),
      la_data = answer_text r, la_value = answer_text r\<rparr>"

definition decision_fields :: "(string \<Rightarrow> string) \<Rightarrow> handle_info \<Rightarrow> (string \<rightharpoonup> log_value) \<Rightarrow> (string \<rightharpoonup> log_value)" where
  "decision_fields name_of info f =
     (let f = (if hi_blocked info then f(''blocked'' \<mapsto> L_True) else f);
          f = (if hi_hit_hosts info then f(''hit'' \<mapsto> L_Text ''hosts'')
               else if hi_hit_cache info then f(''hit'' \<mapsto> L_Text ''cache'') else f);
          f = (case hi_matched info of
                 None \<Rightarrow> f
               | Some k \<Rightarrow> f(''group'' \<mapsto> L_Text (if hi_fallback info then ''_'' @ name_of k else name_of k)));
          f = (case hi_redirect info of None \<Rightarrow> f | Some k \<Rightarrow> f(''redir'' \<mapsto> L_Text (name_of k)))
      in if hi_caller info \<noteq> [] then f(''caller'' \<mapsto> L_Text (hi_caller info)) else f)"

definition question_fields ::
  "(u16 \<Rightarrow> string) \<Rightarrow> dns_msg \<Rightarrow> (string \<rightharpoonup> log_value) \<Rightarrow> (string \<rightharpoonup> log_value)" where
  "question_fields type_string req f =
     (case msg_question req of
        [] \<Rightarrow> f
      | q # _ \<Rightarrow> f(''question'' \<mapsto> L_Text (q_name q), ''q_type'' \<mapsto> L_Text (type_string (q_type q))))"

text \<open>\<open>answer_hosts\<close> are the addresses of the answer section; they are listed in debug mode only.\<close>

definition answer_fields ::
  "(u16 \<Rightarrow> string) \<Rightarrow> bool \<Rightarrow> dns_msg option \<Rightarrow> (string \<rightharpoonup> log_value) \<Rightarrow> (string \<rightharpoonup> log_value)" where
  "answer_fields type_string debug resp f =
     (case resp of
        None \<Rightarrow> f(''answer'' \<mapsto> L_Count 0)
      | Some m \<Rightarrow>
          let f = f(''answer'' \<mapsto> L_Count (length (msg_answer m)));
              ips = answer_hosts (msg_answer m)
          in if debug then
               (if ips \<noteq> [] then f(''resolved_ips'' \<mapsto> L_Text (join '', '' ips)) else f)
                 (''answers'' \<mapsto> L_Answers (map (log_answer_of type_string) (msg_answer m)))
             else f)"

text \<open>
  The whole line, or none: the name of a type is the DNS library's (\<open>type_string\<close>), the cost is
  in milliseconds, and \<open>name_of\<close> is the name of the group with a key.
\<close>

definition log_line ::
  "(u16 \<Rightarrow> string) \<Rightarrow> bool \<Rightarrow> int \<Rightarrow> (string \<Rightarrow> string) \<Rightarrow> resp_writer \<Rightarrow> handle_info \<Rightarrow> dns_msg \<Rightarrow> dns_msg option \<Rightarrow>
   (string \<rightharpoonup> log_value) option"
where
  "log_line type_string debug cost name_of w info req resp =
     (if skip_log w then None
      else
        let f = [''cost'' \<mapsto> L_Text (dec_int cost @ ''ms''), ''remote'' \<mapsto> L_Text (remote_host (remote_addr w)),
                 ''proto'' \<mapsto> L_Text (log_proto w)]
        in Some (answer_fields type_string debug resp
             (decision_fields name_of info (question_fields type_string req f))))"

subsection \<open>Lemmas\<close>

lemma decision_fields_other:
  "k \<notin> {''blocked'', ''hit'', ''group'', ''redir'', ''caller''} \<Longrightarrow> decision_fields n info f k = f k"
  by (auto simp: decision_fields_def Let_def split: option.split)

lemma decision_fields_values:
  assumes "f ''blocked'' = None" "f ''hit'' = None" "f ''group'' = None" "f ''redir'' = None" "f ''caller'' = None"
  shows "decision_fields n info f ''blocked'' = (if hi_blocked info then Some L_True else None)"
    "decision_fields n info f ''hit'' =
      (if hi_hit_hosts info then Some (L_Text ''hosts'') else if hi_hit_cache info then Some (L_Text ''cache'') else None)"
    "decision_fields n info f ''group'' =
      map_option (\<lambda>k. L_Text (if hi_fallback info then ''_'' @ n k else n k)) (hi_matched info)"
    "decision_fields n info f ''redir'' = map_option (\<lambda>k. L_Text (n k)) (hi_redirect info)"
    "decision_fields n info f ''caller'' = (if hi_caller info \<noteq> [] then Some (L_Text (hi_caller info)) else None)"
  using assms by (simp_all add: decision_fields_def Let_def split: option.split)

lemma question_fields_other:
  "k \<notin> {''question'', ''q_type''} \<Longrightarrow> question_fields t req f k = f k"
  by (auto simp: question_fields_def split: list.split)

lemma answer_fields_other:
  "k \<notin> {''answer'', ''answers'', ''resolved_ips''} \<Longrightarrow> answer_fields t d resp f k = f k"
  by (auto simp: answer_fields_def Let_def split: option.split)

lemma log_line_decision:
  assumes "log_line t d c n w info req resp = Some f"
  shows "f ''blocked'' = (if hi_blocked info then Some L_True else None)"
    "f ''hit'' =
      (if hi_hit_hosts info then Some (L_Text ''hosts'') else if hi_hit_cache info then Some (L_Text ''cache'') else None)"
    "f ''group'' = map_option (\<lambda>k. L_Text (if hi_fallback info then ''_'' @ n k else n k)) (hi_matched info)"
    "f ''redir'' = map_option (\<lambda>k. L_Text (n k)) (hi_redirect info)"
    "f ''caller'' = (if hi_caller info \<noteq> [] then Some (L_Text (hi_caller info)) else None)"
    "f ''remote'' = Some (L_Text (remote_host (remote_addr w)))" "f ''proto'' = Some (L_Text (log_proto w))"
proof -
  let ?f = "question_fields t req [''cost'' \<mapsto> L_Text (dec_int c @ ''ms''),
    ''remote'' \<mapsto> L_Text (remote_host (remote_addr w)), ''proto'' \<mapsto> L_Text (log_proto w)]"
  have f: "f = answer_fields t d resp (decision_fields n info ?f)"
    using assms by (simp only: log_line_def Let_def split: if_splits) simp_all
  have none: "?f ''blocked'' = None" "?f ''hit'' = None" "?f ''group'' = None" "?f ''redir'' = None" "?f ''caller'' = None"
    by (simp_all add: question_fields_other)
  note v = decision_fields_values [where f = ?f, OF none]
  show "f ''blocked'' = (if hi_blocked info then Some L_True else None)"
    by (simp add: f answer_fields_other v(1))
  show "f ''hit'' =
      (if hi_hit_hosts info then Some (L_Text ''hosts'') else if hi_hit_cache info then Some (L_Text ''cache'') else None)"
    by (simp add: f answer_fields_other v(2))
  show "f ''group'' = map_option (\<lambda>k. L_Text (if hi_fallback info then ''_'' @ n k else n k)) (hi_matched info)"
    by (simp add: f answer_fields_other v(3))
  show "f ''redir'' = map_option (\<lambda>k. L_Text (n k)) (hi_redirect info)"
    by (simp add: f answer_fields_other v(4))
  show "f ''caller'' = (if hi_caller info \<noteq> [] then Some (L_Text (hi_caller info)) else None)"
    by (simp add: f answer_fields_other v(5))
  show "f ''remote'' = Some (L_Text (remote_host (remote_addr w)))" "f ''proto'' = Some (L_Text (log_proto w))"
    by (simp_all add: f answer_fields_other decision_fields_other question_fields_other)
qed

lemma resolve_query_info:
  assumes "resolve_query B (group_iface E L) q h req = Inr (k, resp, gs, info)"
  shows "\<not> hi_blocked info \<and> \<not> hi_hit_hosts info \<and> \<not> hi_hit_cache info \<and>
    hi_matched info = Some (fst (choose_group (group_iface E L) h req)) \<and>
    hi_fallback info = snd (choose_group (group_iface E L) h req)"
  using assms by (cases rule: go_group.resolve_cases) (simp_all add: no_info_def)

subsection \<open>Properties\<close>



text \<open>Whose query a log line is: nothing is logged of a request the program makes itself; the
  line of a client's request has the host and the network of its address, where a writer
  that is given a protocol shows that one instead, and shows the loopback address when it
  is not told the client's.\<close>

theorem log_client:
  "log_line t d c n (Fake_Writer (set_internal fw)) info req resp = None \<and>
   (\<exists>f. log_line t d c n (Conn_Writer a) info req resp = Some f \<and>
      f ''remote'' = Some (L_Text (remote_host a)) \<and> f ''proto'' = Some (L_Text (na_network a))) \<and>
   (\<exists>f. log_line t d c n (Fake_Writer (set_proto p (set_remote a new_fake_writer))) info req resp = Some f \<and>
      f ''remote'' = Some (L_Text (remote_host a)) \<and>
      f ''proto'' = Some (L_Text (if p = [] then na_network a else p))) \<and>
   (\<exists>f. log_line t d c n (Fake_Writer (set_proto p new_fake_writer)) info req resp = Some f \<and>
      f ''remote'' = Some (L_Text ''127.0.0.1''))"
proof (intro conjI)
  have l: "\<exists>f. log_line t d c n w info req resp = Some f \<and> f ''remote'' = Some (L_Text (remote_host (remote_addr w))) \<and>
      f ''proto'' = Some (L_Text (log_proto w))" if "\<not> skip_log w" for w
  proof -
    from that obtain f where f: "log_line t d c n w info req resp = Some f" by (simp add: log_line_def Let_def)
    with log_line_decision(6,7) [OF f] show ?thesis by blast
  qed
  show "log_line t d c n (Fake_Writer (set_internal fw)) info req resp = None"
    by (simp add: log_line_def skip_log_def request_meta_def set_internal_def)
  show "\<exists>f. log_line t d c n (Conn_Writer a) info req resp = Some f \<and>
      f ''remote'' = Some (L_Text (remote_host a)) \<and> f ''proto'' = Some (L_Text (na_network a))"
    using l [of "Conn_Writer a"] by (simp add: skip_log_def request_meta_def remote_addr_def log_proto_def)
  let ?w = "Fake_Writer (set_proto p (set_remote a new_fake_writer))"
  have w: "\<not> skip_log ?w" "remote_addr ?w = a" "log_proto ?w = (if p = [] then na_network a else p)"
    by (simp_all add: skip_log_def request_meta_def remote_addr_def log_proto_def set_proto_def set_remote_def
        new_fake_writer_def fake_remote_addr_def)
  show "\<exists>f. log_line t d c n ?w info req resp = Some f \<and>
      f ''remote'' = Some (L_Text (remote_host a)) \<and> f ''proto'' = Some (L_Text (if p = [] then na_network a else p))"
    using l [OF w(1)] unfolding w(2,3) .
  let ?v = "Fake_Writer (set_proto p new_fake_writer)"
  have v: "\<not> skip_log ?v" "remote_addr ?v = loopback_addr"
    by (simp_all add: skip_log_def request_meta_def remote_addr_def set_proto_def new_fake_writer_def fake_remote_addr_def)
  have "remote_host loopback_addr = ''127.0.0.1''" by code_simp
  with l [OF v(1)] show "\<exists>f. log_line t d c n ?v info req resp = Some f \<and> f ''remote'' = Some (L_Text ''127.0.0.1'')"
    unfolding v(2) by auto
qed

end
