(* ===== verification/Doh_Inbound.thy ===== *)
theory Doh_Inbound
  imports Request_Log
begin

section \<open>DNS over HTTPS (\<open>inbound/doh.go\<close>)\<close>

text \<open>
  A request of HTTP to a message, to the handler, and back. Of a request the model has what
  the code reads: a parameter or a header that is absent is the empty text, as \<open>Get\<close> returns
  it, and a body is its bytes and whether reading it ends in an error. Packing and unpacking
  messages is the DNS library's.
\<close>

subsection \<open>Requests and responses\<close>

record http_request =
  rq_path :: string
  rq_method :: string
  rq_dns :: string
  rq_content_type :: string
  rq_body :: string
  rq_body_broken :: bool
  rq_remote_addr :: string
  rq_tls :: bool
  rq_forwarded_for :: string
  rq_forwarded_proto :: string

record http_response =
  rs_status :: nat
  rs_content_type :: string
  rs_cache_control :: "string option"
  rs_body :: string

text \<open>\<open>http.Error\<close>: plain text and a line break.\<close>

definition http_error :: "string \<Rightarrow> nat \<Rightarrow> http_response" where
  "http_error text code = \<lparr>rs_status = code, rs_content_type = ''text/plain; charset=utf-8'',
     rs_cache_control = None, rs_body = text @ [newline]\<rparr>"

definition dns_message_type :: string where
  "dns_message_type = ''application/dns-message''"

definition body_limit :: nat where
  "body_limit = 65536"

text \<open>Reading at most the limit: an error that comes after it is not seen.\<close>

definition read_limited :: "http_request \<Rightarrow> string option" where
  "read_limited r =
     (if rq_body_broken r \<and> length (rq_body r) < body_limit then None else Some (take body_limit (rq_body r)))"

subsection \<open>The query of a request\<close>

definition doh_query :: "http_request \<Rightarrow> http_response + string" where
  "doh_query r =
     (if rq_path r \<noteq> ''/dns-query'' then Inl (http_error ''not found'' 404)
      else if rq_method r = ''GET'' then
        (case b64url_decode (trim_right (\<lambda>c. c = CHR ''='') (rq_dns r)) of
           None \<Rightarrow> Inl (http_error ''invalid dns query'' 400)
         | Some query \<Rightarrow> Inr query)
      else if rq_method r = ''POST'' then
        (if rq_content_type r \<noteq> dns_message_type then Inl (http_error ''unsupported media type'' 415)
         else case read_limited r of
             None \<Rightarrow> Inl (http_error ''failed to read request body'' 400)
           | Some query \<Rightarrow> Inr query)
      else Inl (http_error ''method not allowed'' 405))"

subsection \<open>The client's address\<close>

text \<open>An entry of the list without its port, and the last entry that is an address.\<close>

definition xff_host :: "string \<Rightarrow> string" where
  "xff_host part =
     (let ip = trim_space part in (case split_host_port ip of None \<Rightarrow> ip | Some (host, p) \<Rightarrow> host))"

definition xff_client_ip :: "string \<Rightarrow> string" where
  "xff_client_ip xff =
     (case find (\<lambda>ip. parse_ip ip \<noteq> None) (map xff_host (rev (split_on CHR '','' xff))) of
        None \<Rightarrow> []
      | Some ip \<Rightarrow> ip)"

definition replace_host :: "string \<Rightarrow> string \<Rightarrow> string" where
  "replace_host addr ip =
     (case split_host_port addr of None \<Rightarrow> ip | Some (h, port) \<Rightarrow> join_host_port ip port)"

definition client_addr :: "bool \<Rightarrow> http_request \<Rightarrow> string" where
  "client_addr trust r =
     (if trust \<and> rq_forwarded_for r \<noteq> [] \<and> xff_client_ip (rq_forwarded_for r) \<noteq> []
      then replace_host (rq_remote_addr r) (xff_client_ip (rq_forwarded_for r))
      else rq_remote_addr r)"

definition client_proto :: "bool \<Rightarrow> http_request \<Rightarrow> string" where
  "client_proto trust r =
     (if trust \<and> rq_forwarded_proto r \<noteq> [] then to_lower (trim_space (rq_forwarded_proto r))
      else if rq_tls r then ''https'' else ''http'')"

text \<open>
  \<open>net.ResolveTCPAddr\<close>: an address and a decimal port are taken as they are; what else there
  may be (names, zones) is the system's.
\<close>

definition parse_port :: "string \<Rightarrow> nat option" where
  "parse_port p = (if p \<noteq> [] \<and> list_all is_digit p \<and> val_dec 0 p < 65536 then Some (val_dec 0 p) else None)"

definition resolve_tcp_addr :: "(string \<Rightarrow> net_addr option) \<Rightarrow> string \<Rightarrow> net_addr option" where
  "resolve_tcp_addr other addr =
     (case split_host_port addr of
        None \<Rightarrow> None
      | Some (h, p) \<Rightarrow>
          (case (parse_ip h, parse_port p) of
             (Some a, Some n) \<Rightarrow> Some \<lparr>na_network = ''tcp'', na_string = join_host_port (ip_string a) (dec_nat n)\<rparr>
           | _ \<Rightarrow> other addr))"

definition doh_writer :: "(string \<Rightarrow> net_addr option) \<Rightarrow> bool \<Rightarrow> http_request \<Rightarrow> fake_writer" where
  "doh_writer other trust r =
     (let w = (case resolve_tcp_addr other (client_addr trust r) of
                 None \<Rightarrow> new_fake_writer
               | Some a \<Rightarrow> set_remote a new_fake_writer)
      in set_proto (client_proto trust r) w)"

subsection \<open>A request\<close>

definition doh_response :: "wire_lib \<Rightarrow> fake_writer \<Rightarrow> http_response" where
  "doh_response W w =
     (case fw_msg w of
        None \<Rightarrow> http_error ''dns query failed'' 500
      | Some m \<Rightarrow>
          (case wl_pack W m of
             None \<Rightarrow> http_error ''failed to pack dns response'' 500
           | Some bytes \<Rightarrow>
               let ttl = get_min_ttl (Some m)
               in \<lparr>rs_status = 200, rs_content_type = dns_message_type,
                   rs_cache_control = (if 0 < ttl then Some (''max-age='' @ dec_nat (unat ttl)) else None),
                   rs_body = bytes\<rparr>))"

record ('s, 'g, 'r) doh_handler =
  dd_handler :: "('s, 'g, 'r) handler option"
  dd_trust_forwarded :: bool

definition new_doh_handler :: "('s, 'g, 'r) handler option \<Rightarrow> bool \<Rightarrow> ('s, 'g, 'r) doh_handler" where
  "new_doh_handler h trust = \<lparr>dd_handler = h, dd_trust_forwarded = trust\<rparr>"

text \<open>The response, and the writer the handler was given when it was asked.\<close>

definition serve_http ::
  "wire_lib \<Rightarrow> (string \<Rightarrow> net_addr option) \<Rightarrow> ('s, 'r) libraries \<Rightarrow> 'g igroup \<Rightarrow> query_run \<Rightarrow>
   ('s, 'g, 'r) doh_handler \<Rightarrow> http_request \<Rightarrow>
   no_result + (http_response \<times> fake_writer option \<times> ('s, 'g, 'r) doh_handler)"
where
  "serve_http W other B I q d r =
     (case doh_query r of
        Inl e \<Rightarrow> Inr (e, None, d)
      | Inr query \<Rightarrow>
          (case wl_unpack W query of
             None \<Rightarrow> Inr (http_error ''failed to unpack dns query'' 400, None, d)
           | Some req \<Rightarrow>
               and_then (wrapper_serve B I q (dd_handler d) req) (\<lambda>(m, h).
                 let w = fake_write_msg m (doh_writer other (dd_trust_forwarded d) r)
                 in Inr (doh_response W w, Some w, d\<lparr>dd_handler := h\<rparr>))))"

subsection \<open>Lemmas\<close>

lemma length_parse_v4: "parse_v4 s = Some a \<Longrightarrow> length a = 4"
  by (auto simp: parse_v4_def split: list.splits option.splits)

lemma length_parse_v6: "parse_v6 s = Some a \<Longrightarrow> length a = 16"
  by (auto simp: parse_v6_def split: if_splits option.splits)

lemma length_parse_ip: "parse_ip s = Some a \<Longrightarrow> length a = 16"
  by (auto simp: parse_ip_def v4_prefix_def length_parse_v6 dest: length_parse_v4 split: option.splits if_splits)

lemma no_brackets_digits: "list_all is_digit s \<Longrightarrow> no_brackets s \<and> CHR '':'' \<notin> set s"
  by (auto simp: no_brackets_def list_all_iff is_digit_def)

lemma no_brackets_ip_string:
  assumes "length a = 16"
  shows "no_brackets (ip_string a)"
proof (cases "to4 a")
  case (Some b)
  then have "length b = 4" using assms by (auto simp: to4_def split: if_splits)
  then obtain o1 o2 o3 o4 where o: "v4_string b = o1 @ CHR ''.'' # o2 @ CHR ''.'' # o3 @ CHR ''.'' # o4"
    "list_all is_digit o1" "list_all is_digit o2" "list_all is_digit o3" "list_all is_digit o4"
    by (rule v4_string_parts)
  have "no_brackets (v4_string b)"
    unfolding o(1) using o(2-5)[THEN no_brackets_digits] by (auto simp: no_brackets_def)
  then show ?thesis using Some assms by (auto simp: ip_string_def)
next
  case None
  have "no_brackets (v6_string a)"
    using v6_string_chars(1) [OF assms] by (auto simp: no_brackets_def hex_chars_def)
  then show ?thesis using None assms by (auto simp: ip_string_def)
qed

lemma parse_port_dec: "n < 65536 \<Longrightarrow> parse_port (dec_nat n) = Some n"
  by (simp add: parse_port_def val_dec_nat dec_nat_digits list_all_iff)

lemma split_join_port:
  "no_brackets h \<Longrightarrow> split_host_port (join_host_port h (dec_nat n)) = Some (h, dec_nat n)"
proof -
  assume h: "no_brackets h"
  have "list_all is_digit (dec_nat n)" by (simp add: list_all_iff dec_nat_digits)
  from no_brackets_digits [OF this] h show ?thesis by (simp add: split_join_host_port)
qed

lemma resolve_tcp_literal:
  assumes "parse_ip h = Some a" "no_brackets h" "n < 65536"
  shows "resolve_tcp_addr other (join_host_port h (dec_nat n)) =
    Some \<lparr>na_network = ''tcp'', na_string = join_host_port (ip_string a) (dec_nat n)\<rparr>"
  using assms by (simp add: resolve_tcp_addr_def split_join_port parse_port_dec)

lemma remote_host_literal:
  "length a = 16 \<Longrightarrow> remote_host \<lparr>na_network = t, na_string = join_host_port (ip_string a) (dec_nat n)\<rparr> = ip_string a"
  by (simp add: remote_host_def split_join_port no_brackets_ip_string)

lemma find_rev_split:
  "find P (rev xs) = Some x \<longleftrightarrow> (\<exists>ys zs. xs = ys @ x # zs \<and> P x \<and> (\<forall>z \<in> set zs. \<not> P z))"
proof (induction xs rule: rev_induct)
  case (snoc y xs)
  show ?case
  proof
    assume f: "find P (rev (xs @ [y])) = Some x"
    show "\<exists>ys zs. xs @ [y] = ys @ x # zs \<and> P x \<and> (\<forall>z \<in> set zs. \<not> P z)"
    proof (cases "P y")
      case True
      with f show ?thesis by (intro exI [of _ xs] exI [of _ "[]"]) simp
    next
      case False
      with f snoc.IH obtain ys zs where "xs = ys @ x # zs" "P x" "\<forall>z \<in> set zs. \<not> P z" by auto
      with False show ?thesis by (intro exI [of _ ys] exI [of _ "zs @ [y]"]) simp
    qed
  next
    assume "\<exists>ys zs. xs @ [y] = ys @ x # zs \<and> P x \<and> (\<forall>z \<in> set zs. \<not> P z)"
    then obtain ys zs where e: "xs @ [y] = ys @ x # zs" "P x" "\<forall>z \<in> set zs. \<not> P z" by blast
    show "find P (rev (xs @ [y])) = Some x"
    proof (cases zs rule: rev_cases)
      case Nil
      with e show ?thesis by simp
    next
      case (snoc zs' z)
      with e have "xs = ys @ x # zs'" "\<not> P y" by auto
      with e(2,3) snoc snoc.IH show ?thesis by auto
    qed
  qed
qed simp

lemma xff_client_ip_Nil: "xff_client_ip x = [] \<longleftrightarrow> (\<forall>part \<in> set (split_on CHR '','' x). parse_ip (xff_host part) = None)"
proof -
  have e: "parse_ip [] = None" by (simp add: parse_ip_def)
  show ?thesis
    by (auto simp: xff_client_ip_def find_None_iff e dest!: find_SomeD split: option.split)
qed

subsection \<open>Properties\<close>

lemma doh_query_status:
  "doh_query r = Inl e \<Longrightarrow> rs_cache_control e = None \<and> rs_status e =
     (if rq_path r \<noteq> ''/dns-query'' then 404 else if rq_method r \<notin> {''GET'', ''POST''} then 405
      else if rq_method r = ''POST'' \<and> rq_content_type r \<noteq> dns_message_type then 415 else 400)"
  by (auto simp: doh_query_def http_error_def split: if_splits option.splits)

lemma doh_query_method:
  "doh_query r = Inr query \<Longrightarrow> rq_path r = ''/dns-query'' \<and>
     (rq_method r = ''GET'' \<or> rq_method r = ''POST'' \<and> rq_content_type r = dns_message_type)"
  by (auto simp: doh_query_def split: if_splits)


text \<open>C17: The two ways to send a query are the same: a GET with the bytes of a message in base64url,
  with or without padding, gets the same response from the same handler as a POST of the
  bytes.\<close>

theorem doh_get_is_post:
  assumes "length bytes \<le> 65536"
  shows "serve_http W other B I q d
      (r\<lparr>rq_method := ''GET'', rq_dns := b64url_encode bytes @ replicate k CHR ''=''\<rparr>) =
    serve_http W other B I q d
      (r\<lparr>rq_method := ''POST'', rq_content_type := ''application/dns-message'', rq_body := bytes,
         rq_body_broken := False\<rparr>)"
proof -
  have n: "CHR ''='' \<notin> set (b64url_encode bytes)" using b64url_encode_alphabet b64url_alphabet_facts(3) by blast
  then have "b64url_encode bytes = [] \<or> \<not> last (b64url_encode bytes) = CHR ''=''" by (metis last_in_set)
  then have "trim_right (\<lambda>c. c = CHR ''='') (b64url_encode bytes) = b64url_encode bytes" by (rule trim_right_id)
  moreover have "trim_right (\<lambda>c. c = CHR ''='') (b64url_encode bytes @ replicate k CHR ''='') =
    trim_right (\<lambda>c. c = CHR ''='') (b64url_encode bytes)"
  proof -
    have "dropWhile (\<lambda>c. c = CHR ''='') (replicate k CHR ''='' @ xs) = dropWhile (\<lambda>c. c = CHR ''='') xs" for xs
      by (induction k) simp_all
    then show ?thesis by (simp add: trim_right_def)
  qed
  ultimately have "trim_right (\<lambda>c. c = CHR ''='') (b64url_encode bytes @ replicate k CHR ''='') = b64url_encode bytes"
    by simp
  then have "doh_query (r\<lparr>rq_method := ''GET'', rq_dns := b64url_encode bytes @ replicate k CHR ''=''\<rparr>) =
    doh_query (r\<lparr>rq_method := ''POST'', rq_content_type := ''application/dns-message'', rq_body := bytes,
      rq_body_broken := False\<rparr>)"
    using assms by (simp add: doh_query_def b64url_decode_encode read_limited_def body_limit_def dns_message_type_def)
  moreover have "doh_writer other t (r\<lparr>rq_method := ''GET'', rq_dns := b64url_encode bytes @ replicate k CHR ''=''\<rparr>) =
    doh_writer other t (r\<lparr>rq_method := ''POST'', rq_content_type := ''application/dns-message'', rq_body := bytes,
      rq_body_broken := False\<rparr>)" for t
    by (simp add: doh_writer_def client_addr_def client_proto_def cong: if_cong)
  ultimately show ?thesis by (simp only: serve_http_def)
qed

text \<open>C18: Whose query it is: the writer has the address of the other side of the connection, however
  the headers are forged, unless the server is behind a proxy it trusts; then it has the
  last entry of the list of forwarded addresses that is an address, if there is one.\<close>

theorem doh_client_spec:
  assumes "rq_remote_addr r = join_host_port peer (dec_nat port)" "parse_ip peer = Some a" "no_brackets peer"
    and "port < 65536"
  shows "remote_host (fake_remote_addr (doh_writer other False r)) = ip_string a \<and>
    ((\<forall>part \<in> set (split_on CHR '','' (rq_forwarded_for r)). parse_ip (xff_host part) = None) \<longrightarrow>
       remote_host (fake_remote_addr (doh_writer other True r)) = ip_string a) \<and>
    (\<forall>ps part qs b. split_on CHR '','' (rq_forwarded_for r) = ps @ part # qs \<and> parse_ip (xff_host part) = Some b \<and>
         no_brackets (xff_host part) \<and> (\<forall>p \<in> set qs. parse_ip (xff_host p) = None) \<longrightarrow>
       remote_host (fake_remote_addr (doh_writer other True r)) = ip_string b)"
proof -
  have w: "remote_host (fake_remote_addr (doh_writer other t r)) = ip_string x"
    if "client_addr t r = join_host_port h (dec_nat port)" "parse_ip h = Some x" "no_brackets h" for t h x
    using that assms(4)
    by (simp add: doh_writer_def resolve_tcp_literal set_proto_def set_remote_def fake_remote_addr_def Let_def
        remote_host_literal length_parse_ip)
  have peer: "client_addr t r = join_host_port peer (dec_nat port)"
    if "t \<longrightarrow> xff_client_ip (rq_forwarded_for r) = []" for t
    using that assms(1) by (auto simp: client_addr_def)
  have fwd: "client_addr True r = join_host_port (xff_host part) (dec_nat port)"
    if s: "split_on CHR '','' (rq_forwarded_for r) = ps @ part # qs" and v: "parse_ip (xff_host part) = Some b"
      and q: "\<forall>p \<in> set qs. parse_ip (xff_host p) = None" for ps part qs b
  proof -
    have "find (\<lambda>ip. parse_ip ip \<noteq> None) (rev (map xff_host (split_on CHR '','' (rq_forwarded_for r)))) = Some (xff_host part)"
      unfolding find_rev_split s using v q by (intro exI [of _ "map xff_host ps"] exI [of _ "map xff_host qs"]) simp
    then have x: "xff_client_ip (rq_forwarded_for r) = xff_host part" by (simp add: xff_client_ip_def rev_map)
    have "xff_host part \<noteq> []" using v by (auto simp: parse_ip_def)
    moreover have "rq_forwarded_for r \<noteq> []"
      using v s by (cases "rq_forwarded_for r") (auto simp: Cons_eq_append_conv xff_host_def parse_ip_def
          trim_space_def trim_def trim_left_def trim_right_def split_host_port_def)
    ultimately show ?thesis
      using x assms(1,3) by (simp add: client_addr_def replace_host_def split_join_port)
  qed
  show ?thesis
    using w [OF peer assms(2,3), of False] w [OF peer assms(2,3), of True] w [OF fwd] xff_client_ip_Nil
    by blast
qed

text \<open>The last entry is the one the proxy saw, and the only one that cannot be forged; but where
  the code cannot read it, as an IPv6 address in brackets without a port, it goes on to the
  entries the client wrote.\<close>

theorem xff_last_entry_skipped:
  assumes "CHR '','' \<notin> set forged" "trim_space forged = forged" "split_host_port forged = None"
    and "parse_ip forged \<noteq> None"
  shows "xff_client_ip (forged @ '', [2001:db8::7]'') = forged"
proof -
  have "xff_host '' [2001:db8::7]'' = ''[2001:db8::7]''" "parse_ip ''[2001:db8::7]'' = None" by code_simp+
  moreover have "split_on CHR '','' (forged @ '', [2001:db8::7]'') = [forged, '' [2001:db8::7]'']"
    using split_on_append [of "CHR '',''" forged "'' [2001:db8::7]''"] assms(1) by (simp add: split_on_id)
  ultimately show ?thesis using assms by (simp add: xff_client_ip_def xff_host_def)
qed

theorem xff_last_entry_skipped_witness: "xff_client_ip ''198.51.100.1, [2001:db8::7]'' = ''198.51.100.1''"
proof -
  have a: "CHR '','' \<notin> set ''198.51.100.1''" by simp
  have b: "trim_space ''198.51.100.1'' = ''198.51.100.1''" by code_simp
  have c: "split_host_port ''198.51.100.1'' = None" by code_simp
  have d: "parse_ip ''198.51.100.1'' \<noteq> None" by code_simp
  show ?thesis using xff_last_entry_skipped [OF a b c d] by simp
qed

subsection \<open>Samples\<close>

definition sample_wire :: wire_lib where
  "sample_wire = \<lparr>wl_unpack = (\<lambda>s. if s = [] then None else Some (race_msg\<lparr>msg_id := of_char (hd s)\<rparr>)),
     wl_pack = (\<lambda>m. Some [char_of (unat (msg_id m))])\<rparr>"

definition sample_request :: http_request where
  "sample_request = \<lparr>rq_path = ''/dns-query'', rq_method = ''GET'', rq_dns = ''QQ'', rq_content_type = [], rq_body = [],
     rq_body_broken = False, rq_remote_addr = ''127.0.0.1:42'', rq_tls = False,
     rq_forwarded_for = ''203.0.113.9, 198.51.100.1:99, unknown'', rq_forwarded_proto = [] \<rparr>"


theorem doh_get_is_post_witness:
  "serve_http sample_wire (\<lambda>s. None) demo_libs demo_iface (demo_run 1) (new_doh_handler (Some demo_handler) True)
     (sample_request\<lparr>rq_method := ''GET'', rq_dns := ''QUI=''\<rparr>) =
   serve_http sample_wire (\<lambda>s. None) demo_libs demo_iface (demo_run 1) (new_doh_handler (Some demo_handler) True)
     (sample_request\<lparr>rq_method := ''POST'', rq_content_type := ''application/dns-message'', rq_body := ''AB'',
        rq_body_broken := False\<rparr>)"
proof -
  have e: "b64url_encode ''AB'' @ replicate 1 CHR ''='' = ''QUI=''" by code_simp
  have "length ''AB'' = 2" by simp
  then have l: "length ''AB'' \<le> 65536" by linarith
  show ?thesis by (rule doh_get_is_post [OF l, where k = 1, unfolded e])
qed

theorem doh_client_spec_witness:
  "\<exists>b. parse_ip ''198.51.100.1'' = Some b \<and>
     remote_host (fake_remote_addr (doh_writer (\<lambda>s. None) True sample_request)) = ip_string b"
proof -
  have p: "rq_remote_addr sample_request = join_host_port ''127.0.0.1'' (dec_nat 42)" by code_simp
  obtain a b where a: "parse_ip ''127.0.0.1'' = Some a" and b: "parse_ip ''198.51.100.1'' = Some b"
  proof -
    have "parse_ip ''127.0.0.1'' \<noteq> None" "parse_ip ''198.51.100.1'' \<noteq> None" by code_simp+
    then show thesis using that by blast
  qed
  have n: "no_brackets ''127.0.0.1''" "(42 :: nat) < 65536" by (simp_all add: no_brackets_def)
  have s: "split_on CHR '','' (rq_forwarded_for sample_request) = [''203.0.113.9''] @ '' 198.51.100.1:99'' # ['' unknown'']"
    by code_simp
  have x: "xff_host '' 198.51.100.1:99'' = ''198.51.100.1''" "parse_ip (xff_host '' unknown'') = None" by code_simp+
  note spec = doh_client_spec [OF p a n, of "\<lambda>s. None", THEN conjunct2, THEN conjunct2, rule_format,
      of "[''203.0.113.9'']" "'' 198.51.100.1:99''" "['' unknown'']" b]
  have "remote_host (fake_remote_addr (doh_writer (\<lambda>s. None) True sample_request)) = ip_string b"
    by (rule spec) (use s x b in \<open>simp add: no_brackets_def\<close>)
  with b show ?thesis by blast
qed

end
