(* ===== verification/Doh_Client.thy ===== *)
theory Doh_Client
  imports Callers Step_System
begin

section \<open>Getting a client of a DoH caller (\<open>outbound/caller.go\<close>)\<close>

text \<open>
  The calls of \<open>getClient\<close> and the background goroutine \<open>run\<close>, which talk over two channels of
  capacity one: a call that finds no client asks for the server's name to be resolved and
  waits for a notification. Any number of calls run at the same time; what a thread does
  between two channel operations is one step. A context that is done is a step that is always
  possible, the answers of a lookup are part of the step that ends it.
\<close>

subsection \<open>State\<close>

text \<open>
  Where a call of \<open>getClient\<close> stands: outside, before the first \<open>select\<close>, before the second,
  after it, returned. Where the goroutine stands: not started, before its \<open>select\<close>, resolving
  for the ticker, resolving for a request, before the inner \<open>select\<close>, returned.
\<close>

datatype get_pc = G_Out | G_Require dns_msg | G_Wait | G_Check | G_Done "string option"

datatype worker_pc = W_New | W_Idle | W_Tick | W_Resolve dns_msg | W_Notify | W_End

record doh_life =
  dl_caller :: doh_caller
  dl_require :: "dns_msg list"
  dl_satisfy :: nat
  dl_cancelled :: bool
  dl_worker :: worker_pc
  dl_calls :: "get_pc list"

definition require_cap :: nat where "require_cap = 1"
definition satisfy_cap :: nat where "satisfy_cap = 1"

definition new_doh_life :: "doh_caller \<Rightarrow> nat \<Rightarrow> doh_life" where
  "new_doh_life c calls = \<lparr>dl_caller = c, dl_require = [], dl_satisfy = 0, dl_cancelled = False, dl_worker = W_New,
     dl_calls = replicate calls G_Out\<rparr>"

definition set_call :: "nat \<Rightarrow> get_pc \<Rightarrow> doh_life \<Rightarrow> doh_life" where
  "set_call t p s = s\<lparr>dl_calls := (dl_calls s)[t := p]\<rparr>"

subsection \<open>Steps\<close>

datatype doh_event =
    Doh_Start
  | Doh_Tick
  | Doh_Ticked "dns_msg option list"
  | Doh_Take
  | Doh_Resolved "dns_msg option list"
  | Doh_Notify
  | Doh_Quit
  | Doh_Exit
  | Get_Begin nat dns_msg "nat \<Rightarrow> nat"
  | Get_Require nat
  | Get_Satisfied nat
  | Get_Pick nat "nat \<Rightarrow> nat"
  | Get_Cancel nat
  | Get_Expire nat

text \<open>The goroutine, \<open>Start\<close> and \<open>Exit\<close>.\<close>

definition doh_start :: "doh_life \<Rightarrow> doh_life" where
  "doh_start s = (if dl_worker s = W_New then s\<lparr>dl_worker := W_Idle\<rparr> else s)"

definition doh_exit :: "doh_life \<Rightarrow> doh_life" where
  "doh_exit s = s\<lparr>dl_cancelled := True\<rparr>"

fun run_step :: "doh_event \<Rightarrow> doh_life \<Rightarrow> doh_life option" where
  "run_step Doh_Tick s = (if dl_worker s = W_Idle then Some (s\<lparr>dl_worker := W_Tick\<rparr>) else None)"
| "run_step (Doh_Ticked msgs) s =
     (if dl_worker s = W_Tick
      then Some (s\<lparr>dl_caller := doh_resolve None msgs (dl_caller s), dl_worker := W_Idle\<rparr>) else None)"
| "run_step Doh_Take s =
     (case (dl_worker s, dl_require s) of
        (W_Idle, req # reqs) \<Rightarrow>
          Some (s\<lparr>dl_require := reqs,
                  dl_worker := (if dh_clients (dl_caller s) \<noteq> [] then W_Notify else W_Resolve req)\<rparr>)
      | _ \<Rightarrow> None)"
| "run_step (Doh_Resolved msgs) s =
     (case dl_worker s of
        W_Resolve req \<Rightarrow> Some (s\<lparr>dl_caller := doh_resolve (Some req) msgs (dl_caller s), dl_worker := W_Notify\<rparr>)
      | _ \<Rightarrow> None)"
| "run_step Doh_Notify s =
     (if dl_worker s = W_Notify \<and> dl_satisfy s < satisfy_cap
      then Some (s\<lparr>dl_satisfy := dl_satisfy s + 1, dl_worker := W_Idle\<rparr>) else None)"
| "run_step Doh_Quit s =
     (if dl_cancelled s then
        (case dl_worker s of
           W_Notify \<Rightarrow> Some (s\<lparr>dl_worker := W_Idle\<rparr>)
         | W_Idle \<Rightarrow> Some (s\<lparr>dl_worker := W_End\<rparr>)
         | _ \<Rightarrow> None)
      else None)"
| "run_step _ s = None"

text \<open>A call of \<open>getClient\<close>.\<close>

definition call_at :: "doh_life \<Rightarrow> nat \<Rightarrow> get_pc \<Rightarrow> bool" where
  "call_at s t p \<longleftrightarrow> t < length (dl_calls s) \<and> dl_calls s ! t = p"

definition call_waits :: "doh_life \<Rightarrow> nat \<Rightarrow> bool" where
  "call_waits s t \<longleftrightarrow> t < length (dl_calls s) \<and>
     (case dl_calls s ! t of G_Require _ \<Rightarrow> True | G_Wait \<Rightarrow> True | _ \<Rightarrow> False)"

definition call_free :: "doh_life \<Rightarrow> nat \<Rightarrow> bool" where
  "call_free s t \<longleftrightarrow> t < length (dl_calls s) \<and>
     (case dl_calls s ! t of G_Out \<Rightarrow> True | G_Done _ \<Rightarrow> True | _ \<Rightarrow> False)"

fun get_client_step :: "doh_event \<Rightarrow> doh_life \<Rightarrow> doh_life option" where
  "get_client_step (Get_Begin t req draw) s =
     (if call_free s t then
        Some (set_call t (if dh_clients (dl_caller s) \<noteq> [] then G_Done (pick_client draw (dl_caller s))
                          else G_Require req) s)
      else None)"
| "get_client_step (Get_Require t) s =
     (if t < length (dl_calls s) \<and> length (dl_require s) < require_cap then
        (case dl_calls s ! t of
           G_Require req \<Rightarrow> Some (set_call t G_Wait (s\<lparr>dl_require := dl_require s @ [req]\<rparr>))
         | _ \<Rightarrow> None)
      else None)"
| "get_client_step (Get_Satisfied t) s =
     (if call_at s t G_Wait \<and> 0 < dl_satisfy s
      then Some (set_call t G_Check (s\<lparr>dl_satisfy := dl_satisfy s - 1\<rparr>)) else None)"
| "get_client_step (Get_Pick t draw) s =
     (if call_at s t G_Check then Some (set_call t (G_Done (pick_client draw (dl_caller s))) s) else None)"
| "get_client_step (Get_Cancel t) s =
     (if call_waits s t \<and> dl_cancelled s then Some (set_call t (G_Done None) s) else None)"
| "get_client_step (Get_Expire t) s =
     (if call_waits s t then Some (set_call t (G_Done None) s) else None)"
| "get_client_step _ s = None"

fun doh_step :: "doh_event \<Rightarrow> doh_life \<Rightarrow> doh_life option" where
  "doh_step Doh_Start s = Some (doh_start s)"
| "doh_step Doh_Exit s = Some (doh_exit s)"
| "doh_step ev s = (case run_step ev s of Some s' \<Rightarrow> Some s' | None \<Rightarrow> get_client_step ev s)"

text \<open>The draws are those of \<open>fastrand\<close>: below their bound.\<close>

fun fair_event :: "doh_event \<Rightarrow> bool" where
  "fair_event (Get_Begin _ _ draw) = (\<forall>n. 0 < n \<longrightarrow> draw n < n)"
| "fair_event (Get_Pick _ draw) = (\<forall>n. 0 < n \<longrightarrow> draw n < n)"
| "fair_event _ = True"

inductive doh_life_reach :: "doh_caller \<Rightarrow> nat \<Rightarrow> doh_life \<Rightarrow> bool" for c0 n where
  life_new: "doh_life_reach c0 n (new_doh_life c0 n)"
| life_step: "doh_life_reach c0 n s \<Longrightarrow> fair_event ev \<Longrightarrow> doh_step ev s = Some s' \<Longrightarrow> doh_life_reach c0 n s'"

lemma doh_step_cases:
  assumes "doh_step ev s = Some s'"
  obtains (start) "ev = Doh_Start" "s' = doh_start s"
  | (exit) "ev = Doh_Exit" "s' = doh_exit s"
  | (tick) "ev = Doh_Tick" "dl_worker s = W_Idle" "s' = s\<lparr>dl_worker := W_Tick\<rparr>"
  | (ticked) msgs where "ev = Doh_Ticked msgs" "dl_worker s = W_Tick"
      "s' = s\<lparr>dl_caller := doh_resolve None msgs (dl_caller s), dl_worker := W_Idle\<rparr>"
  | (take) req reqs where "ev = Doh_Take" "dl_worker s = W_Idle" "dl_require s = req # reqs"
      "s' = s\<lparr>dl_require := reqs, dl_worker := (if dh_clients (dl_caller s) \<noteq> [] then W_Notify else W_Resolve req)\<rparr>"
  | (resolved) msgs req where "ev = Doh_Resolved msgs" "dl_worker s = W_Resolve req"
      "s' = s\<lparr>dl_caller := doh_resolve (Some req) msgs (dl_caller s), dl_worker := W_Notify\<rparr>"
  | (notify) "ev = Doh_Notify" "dl_worker s = W_Notify" "dl_satisfy s = 0"
      "s' = s\<lparr>dl_satisfy := 1, dl_worker := W_Idle\<rparr>"
  | (quit) w where "ev = Doh_Quit" "dl_cancelled s" "dl_worker s = W_Notify \<and> w = W_Idle \<or> dl_worker s = W_Idle \<and> w = W_End"
      "s' = s\<lparr>dl_worker := w\<rparr>"
  | (hit) t req draw where "ev = Get_Begin t req draw" "call_free s t" "dh_clients (dl_caller s) \<noteq> []"
      "s' = set_call t (G_Done (pick_client draw (dl_caller s))) s"
  | (miss) t req draw where "ev = Get_Begin t req draw" "call_free s t" "dh_clients (dl_caller s) = []"
      "s' = set_call t (G_Require req) s"
  | (require) t req where "ev = Get_Require t" "t < length (dl_calls s)" "dl_calls s ! t = G_Require req"
      "dl_require s = []" "s' = set_call t G_Wait (s\<lparr>dl_require := [req]\<rparr>)"
  | (satisfied) t where "ev = Get_Satisfied t" "t < length (dl_calls s)" "dl_calls s ! t = G_Wait" "0 < dl_satisfy s"
      "s' = set_call t G_Check (s\<lparr>dl_satisfy := dl_satisfy s - 1\<rparr>)"
  | (pick) t draw where "ev = Get_Pick t draw" "t < length (dl_calls s)" "dl_calls s ! t = G_Check"
      "s' = set_call t (G_Done (pick_client draw (dl_caller s))) s"
  | (left) t where "ev = Get_Cancel t \<and> dl_cancelled s \<or> ev = Get_Expire t" "call_waits s t"
      "s' = set_call t (G_Done None) s"
proof (cases ev)
  case (Get_Require t)
  then show ?thesis using assms require
    by (auto simp: require_cap_def split: if_splits get_pc.splits)
qed (use assms that in \<open>auto simp: satisfy_cap_def call_at_def split: if_splits worker_pc.splits list.splits\<close>)

subsection \<open>Invariants\<close>

definition busy :: "doh_life \<Rightarrow> nat" where
  "busy s = (case dl_worker s of W_Resolve _ \<Rightarrow> 1 | W_Notify \<Rightarrow> 1 | _ \<Rightarrow> 0)"

definition waiting :: "doh_life \<Rightarrow> nat" where
  "waiting s = count_list (dl_calls s) G_Wait"

text \<open>Every call that waits has a notification to come: one that is there, or a request that is
  served, or one in the channel.\<close>

definition wake_inv :: "doh_life \<Rightarrow> bool" where
  "wake_inv s \<longleftrightarrow> length (dl_require s) \<le> 1 \<and> dl_satisfy s \<le> 1 \<and>
     (\<not> dl_cancelled s \<longrightarrow> dl_worker s \<noteq> W_End \<and> waiting s \<le> length (dl_require s) + busy s + dl_satisfy s)"

definition client_inv :: "doh_caller \<Rightarrow> doh_life \<Rightarrow> bool" where
  "client_inv c0 s \<longleftrightarrow> doh_reach c0 (dl_caller s) \<and>
     (\<forall>x. G_Done (Some x) \<in> set (dl_calls s) \<longrightarrow> (\<exists>c. doh_reach c0 c \<and> x \<in> set (dh_clients c)))"

lemma set_call_simps [simp]:
  "dl_caller (set_call t p s) = dl_caller s" "dl_require (set_call t p s) = dl_require s"
  "dl_satisfy (set_call t p s) = dl_satisfy s" "dl_cancelled (set_call t p s) = dl_cancelled s"
  "dl_worker (set_call t p s) = dl_worker s" "dl_calls (set_call t p s) = (dl_calls s)[t := p]"
  by (simp_all add: set_call_def)

lemma count_list_update:
  "t < length xs \<Longrightarrow> count_list (xs[t := y]) x + (if xs ! t = x then 1 else 0) = count_list xs x + (if y = x then 1 else 0)"
proof (induction xs arbitrary: t)
  case (Cons z xs)
  then show ?case by (cases t) (simp, fastforce)
qed simp

lemma waiting_set_call:
  assumes "t < length (dl_calls s)" "dl_calls s' = (dl_calls s)[t := p]"
  shows "waiting s' + (if dl_calls s ! t = G_Wait then 1 else 0) = waiting s + (if p = G_Wait then 1 else 0)"
  unfolding waiting_def assms(2) by (rule count_list_update [OF assms(1)])

lemma waiting_pos: "call_at s t G_Wait \<Longrightarrow> 0 < waiting s"
  unfolding waiting_def call_at_def by (metis count_list_0_iff gr0I nth_mem)

lemma pick_client_member: "\<forall>n. 0 < n \<longrightarrow> draw n < n \<Longrightarrow> pick_client draw c = Some x \<Longrightarrow> x \<in> set (dh_clients c)"
  by (auto simp: pick_client_def split: if_splits)

lemma wake_inv_new: "wake_inv (new_doh_life c n)"
proof -
  have "count_list (replicate n G_Out) G_Wait = 0" by (simp add: count_list_0_iff)
  then show ?thesis by (simp add: wake_inv_def new_doh_life_def waiting_def busy_def)
qed

lemma wake_inv_step:
  assumes "wake_inv s" "doh_step ev s = Some s'"
  shows "wake_inv s'"
  using assms(2)
proof (cases rule: doh_step_cases)
  case (hit t req draw)
  with waiting_set_call [of t s s' "G_Done (pick_client draw (dl_caller s))"] assms(1) show ?thesis
    by (auto simp: wake_inv_def busy_def call_free_def split: get_pc.splits)
next
  case (miss t req draw)
  with waiting_set_call [of t s s' "G_Require req"] assms(1) show ?thesis
    by (auto simp: wake_inv_def busy_def call_free_def split: get_pc.splits)
next
  case (require t req)
  with waiting_set_call [of t s s' G_Wait] assms(1) show ?thesis by (auto simp: wake_inv_def busy_def)
next
  case (satisfied t)
  with waiting_set_call [of t s s' G_Check] assms(1) show ?thesis by (auto simp: wake_inv_def busy_def)
next
  case (pick t draw)
  with waiting_set_call [of t s s' "G_Done (pick_client draw (dl_caller s))"] assms(1) show ?thesis
    by (auto simp: wake_inv_def busy_def)
next
  case (left t)
  with waiting_set_call [of t s s' "G_Done None"] assms(1) show ?thesis
    by (auto simp: wake_inv_def busy_def call_waits_def split: get_pc.splits if_splits)
qed (use assms(1) in \<open>auto simp: wake_inv_def busy_def waiting_def doh_start_def doh_exit_def\<close>)

lemma client_inv_step:
  assumes "client_inv c0 s" "fair_event ev" "doh_step ev s = Some s'"
  shows "client_inv c0 s'"
proof -
  have call: "client_inv c0 (set_call t p v)"
    if "dl_caller v = dl_caller s" "dl_calls v = dl_calls s" "\<forall>x. p = G_Done (Some x) \<longrightarrow> x \<in> set (dh_clients (dl_caller s))"
    for t p v
    using assms(1) that set_update_subset_insert [of "dl_calls s" t p] by (fastforce simp: client_inv_def)
  show ?thesis
    using assms(3)
  proof (cases rule: doh_step_cases)
    case (hit t req draw)
    with assms(2) show ?thesis by (auto intro!: call dest: pick_client_member)
  next
    case (pick t draw)
    with assms(2) show ?thesis by (auto intro!: call dest: pick_client_member)
  next
    case (ticked msgs)
    with assms(1) show ?thesis by (auto simp: client_inv_def intro: doh_tick)
  next
    case (resolved msgs req)
    have r: "doh_resolve (Some req) msgs (dl_caller s) = dl_caller s \<or>
      doh_resolve (Some req) msgs (dl_caller s) = doh_resolve None msgs (dl_caller s)"
      by (auto simp: doh_resolve_def is_own_name_def split: option.split)
    with resolved assms(1) show ?thesis by (auto simp: client_inv_def intro: doh_tick)
  next
    case (satisfied t)
    then show ?thesis by (auto intro!: call)
  next
    case (miss t req draw)
    then show ?thesis by (auto intro!: call)
  next
    case (require t req)
    then show ?thesis by (auto intro!: call)
  next
    case (left t)
    then show ?thesis by (auto intro!: call)
  qed (use assms(1) in \<open>auto simp: client_inv_def doh_start_def doh_exit_def\<close>)
qed

lemma doh_step_calls: "doh_step ev s = Some s' \<Longrightarrow> length (dl_calls s') = length (dl_calls s)"
  by (cases rule: doh_step_cases) (auto simp: doh_start_def doh_exit_def)

lemma doh_life_inv:
  "doh_life_reach c0 n s \<Longrightarrow> wake_inv s \<and> client_inv c0 s \<and> length (dl_calls s) = n"
proof (induction rule: doh_life_reach.induct)
  case life_new
  show ?case by (simp add: wake_inv_new) (simp add: client_inv_def new_doh_life_def doh_init)
next
  case (life_step s ev s')
  then show ?case using wake_inv_step client_inv_step doh_step_calls by metis
qed

subsection \<open>Runs\<close>

abbreviation doh_run :: "doh_event list \<Rightarrow> doh_life \<Rightarrow> doh_life option" where
  "doh_run \<equiv> run_steps doh_step"

lemma doh_life_run:
  "doh_life_reach c0 n s \<Longrightarrow> list_all fair_event evs \<Longrightarrow> doh_run evs s = Some s' \<Longrightarrow> doh_life_reach c0 n s'"
  by (induction evs arbitrary: s) (auto simp: bind_eq_Some_conv intro: doh_life_reach.life_step)

interpretation calls: step_system doh_step "\<lambda>ev. True" "\<lambda>s. length (dl_calls s) = n" for n
  by unfold_locales (simp add: doh_step_calls)

text \<open>The steps of the goroutine and those of one call that neither end it early nor begin it.\<close>

fun serves :: "nat \<Rightarrow> doh_event \<Rightarrow> bool" where
  "serves t (Doh_Ticked _) = True"
| "serves t Doh_Take = True"
| "serves t (Doh_Resolved _) = True"
| "serves t Doh_Notify = True"
| "serves t (Get_Satisfied u) = (u = t)"
| "serves t (Get_Pick u _) = (u = t)"
| "serves t _ = False"

definition returns_in :: "nat \<Rightarrow> nat \<Rightarrow> doh_life \<Rightarrow> bool" where
  "returns_in k t s \<longleftrightarrow> (\<exists>evs s' y. length evs \<le> k \<and> list_all (serves t) evs \<and> doh_run evs s = Some s' \<and>
     call_at s' t (G_Done y))"

lemma returns_step:
  assumes "serves t ev" "doh_step ev s = Some s1" "returns_in k t s1"
  shows "returns_in (Suc k) t s"
proof -
  from assms(3) obtain evs s' y where "length evs \<le> k" "list_all (serves t) evs" "doh_run evs s1 = Some s'"
    "call_at s' t (G_Done y)" by (auto simp: returns_in_def)
  with assms(1,2) have "length (ev # evs) \<le> Suc k \<and> list_all (serves t) (ev # evs) \<and> doh_run (ev # evs) s = Some s' \<and>
    call_at s' t (G_Done y)" by simp
  then show ?thesis unfolding returns_in_def by blast
qed

lemma returns_mono: "returns_in k t s \<Longrightarrow> k \<le> k' \<Longrightarrow> returns_in k' t s"
  unfolding returns_in_def using le_trans by blast

lemma satisfied_returns:
  assumes "call_at s t G_Wait" "0 < dl_satisfy s"
  shows "returns_in 2 t s"
proof -
  let ?s1 = "set_call t G_Check (s\<lparr>dl_satisfy := dl_satisfy s - 1\<rparr>)"
  let ?d = "\<lambda>n :: nat. 0 :: nat"
  let ?s2 = "set_call t (G_Done (pick_client ?d (dl_caller ?s1))) ?s1"
  have 0: "returns_in 0 t ?s2"
    unfolding returns_in_def using assms(1)
    by (intro exI [of _ "[]"] exI [of _ ?s2] exI) (simp add: call_at_def)
  have 1: "doh_step (Get_Pick t ?d) ?s1 = Some ?s2" using assms(1) by (simp add: call_at_def)
  have 2: "doh_step (Get_Satisfied t) s = Some ?s1" using assms by simp
  have "returns_in (Suc (Suc 0)) t s"
    by (rule returns_step [OF _ 2 returns_step [OF _ 1 0]]) simp_all
  then show ?thesis by (simp add: numeral_2_eq_2)
qed

lemma notify_returns:
  assumes "call_at s t G_Wait" "dl_satisfy s = 0" "dl_worker s = W_Notify"
  shows "returns_in 3 t s"
proof -
  have "doh_step Doh_Notify s = Some (s\<lparr>dl_satisfy := 1, dl_worker := W_Idle\<rparr>)"
    using assms(2,3) by (simp add: satisfy_cap_def)
  moreover have "returns_in 2 t (s\<lparr>dl_satisfy := 1, dl_worker := W_Idle\<rparr>)"
    by (rule satisfied_returns) (use assms(1) in \<open>simp_all add: call_at_def\<close>)
  ultimately have "returns_in (Suc 2) t s" by (intro returns_step [of t Doh_Notify]) simp_all
  then show ?thesis by simp
qed

lemma resolve_returns:
  assumes "call_at s t G_Wait" "dl_satisfy s = 0" "dl_worker s = W_Resolve req"
  shows "returns_in 4 t s"
proof -
  let ?s = "s\<lparr>dl_caller := doh_resolve (Some req) [] (dl_caller s), dl_worker := W_Notify\<rparr>"
  have "doh_step (Doh_Resolved []) s = Some ?s" using assms(3) by simp
  moreover have "returns_in 3 t ?s" by (rule notify_returns) (use assms in \<open>simp_all add: call_at_def\<close>)
  ultimately have "returns_in (Suc 3) t s" by (intro returns_step [of t "Doh_Resolved []"]) simp_all
  then show ?thesis by simp
qed

lemma take_returns:
  assumes "call_at s t G_Wait" "dl_satisfy s = 0" "dl_worker s = W_Idle" "dl_require s \<noteq> []"
  shows "returns_in 5 t s"
proof -
  obtain req reqs where r: "dl_require s = req # reqs" using assms(4) by (cases "dl_require s") simp_all
  let ?s = "s\<lparr>dl_require := reqs, dl_worker := (if dh_clients (dl_caller s) \<noteq> [] then W_Notify else W_Resolve req)\<rparr>"
  have "doh_step Doh_Take s = Some ?s" using assms(3) r by simp
  moreover have "returns_in 4 t ?s"
  proof (cases "dh_clients (dl_caller s) = []")
    case True
    then show ?thesis by (intro resolve_returns [of _ _ req]) (use assms in \<open>simp_all add: call_at_def\<close>)
  next
    case False
    then have "returns_in 3 t ?s" by (intro notify_returns) (use assms in \<open>simp_all add: call_at_def\<close>)
    then show ?thesis by (rule returns_mono) simp
  qed
  ultimately have "returns_in (Suc 4) t s" by (intro returns_step [of t Doh_Take]) simp_all
  then show ?thesis by simp
qed

lemma waiting_returns:
  assumes "wake_inv s" "\<not> dl_cancelled s" "dl_worker s \<noteq> W_New" "call_at s t G_Wait"
  shows "returns_in 6 t s"
proof (cases "dl_satisfy s = 0")
  case False
  then show ?thesis using satisfied_returns [OF assms(4)] returns_mono by simp
next
  case True
  have n: "dl_worker s \<noteq> W_End" "0 < length (dl_require s) + busy s"
    using assms(1,2) waiting_pos [OF assms(4)] True by (auto simp: wake_inv_def)
  show ?thesis
  proof (cases "dl_worker s")
    case W_Idle
    with n have "dl_require s \<noteq> []" by (auto simp: busy_def)
    from take_returns [OF assms(4) True W_Idle this] show ?thesis by (rule returns_mono) simp
  next
    case W_Tick
    let ?s = "s\<lparr>dl_caller := doh_resolve None [] (dl_caller s), dl_worker := W_Idle\<rparr>"
    have "doh_step (Doh_Ticked []) s = Some ?s" using W_Tick by simp
    moreover have "returns_in 5 t ?s"
      by (rule take_returns) (use assms(4) True W_Tick n in \<open>auto simp: call_at_def busy_def\<close>)
    ultimately have "returns_in (Suc 5) t s" by (intro returns_step [of t "Doh_Ticked []"]) simp_all
    then show ?thesis by simp
  next
    case (W_Resolve req)
    from resolve_returns [OF assms(4) True this] show ?thesis by (rule returns_mono) simp
  next
    case W_Notify
    from notify_returns [OF assms(4) True this] show ?thesis by (rule returns_mono) simp
  qed (use assms(3) n in simp_all)
qed

subsection \<open>A caller that is stuck\<close>

definition stuck :: "doh_life \<Rightarrow> bool" where
  "stuck s \<longleftrightarrow> \<not> dl_cancelled s \<and> dh_clients (dl_caller s) = [] \<and> length (dl_require s) = require_cap \<and>
     dl_satisfy s = satisfy_cap \<and> dl_worker s = W_Notify \<and>
     (\<forall>p \<in> set (dl_calls s). case p of G_Wait \<Rightarrow> False | G_Check \<Rightarrow> False | G_Done (Some x) \<Rightarrow> False | _ \<Rightarrow> True)"

lemma stuck_step:
  assumes "stuck s" "doh_step ev s = Some s'" "ev \<noteq> Doh_Exit"
  shows "stuck s'"
proof -
  have call: "stuck (set_call t p s)" if "p = G_Done None \<or> (\<exists>r. p = G_Require r)" for t p
    using assms(1) that set_update_subset_insert [of "dl_calls s" t p]
    by (auto simp: stuck_def dest!: subsetD)
  have at: "dl_calls s ! t \<noteq> G_Wait" "dl_calls s ! t \<noteq> G_Check" if "t < length (dl_calls s)" for t
    using assms(1) nth_mem [OF that] by (auto simp: stuck_def dest!: bspec split: get_pc.splits)
  show ?thesis
    using assms(2)
  proof (cases rule: doh_step_cases)
    case (satisfied t)
    with at show ?thesis by blast
  next
    case (pick t draw)
    with at show ?thesis by blast
  next
    case (left t)
    then show ?thesis using call by simp
  next
    case (miss t req draw)
    then show ?thesis using call by simp
  qed (use assms(1,3) in \<open>auto simp: stuck_def doh_start_def require_cap_def satisfy_cap_def\<close>)
qed

interpretation stuck: step_system doh_step "\<lambda>ev. ev \<noteq> Doh_Exit" stuck
  by unfold_locales (rule stuck_step)

lemma stuck_run: "stuck s \<Longrightarrow> doh_run evs s = Some s' \<Longrightarrow> Doh_Exit \<notin> set evs \<Longrightarrow> stuck s'"
  by (rule stuck.inv_run [of evs s]) (auto simp: list_all_iff)

text \<open>
  The way there: three requests whose contexts end before they take a notification, the last
  of them when one is already there.
\<close>

definition stuck_events :: "doh_event list" where
  "stuck_events =
     (let ask = [Get_Begin 0 new_msg (\<lambda>n. 0), Get_Require 0, Get_Expire 0]
      in Doh_Start # ask @ [Doh_Take] @ ask @ [Doh_Resolved [None, None], Doh_Notify, Doh_Take,
         Doh_Resolved [None, None]] @ ask)"

lemma stuck_reached:
  assumes "dh_clients c = []" "parse_ip (dh_host c) = None" "0 < n"
  shows "\<exists>s. doh_life_reach c n s \<and> stuck s"
proof -
  have r: "doh_resolve (Some m) [None, None] c = c" for m
    using assms(2) by (simp add: doh_resolve_def)
  have b: "\<forall>p \<in> set ((replicate n G_Out)[0 := G_Done None]).
      case p of G_Wait \<Rightarrow> False | G_Check \<Rightarrow> False | G_Done (Some x) \<Rightarrow> False | _ \<Rightarrow> True"
    by (auto dest!: subsetD [OF set_update_subset_insert])
  obtain s where s: "doh_run stuck_events (new_doh_life c n) = Some s" "stuck s"
    using assms r b
    by (simp add: stuck_events_def new_doh_life_def call_free_def call_waits_def set_call_def doh_start_def
        require_cap_def satisfy_cap_def stuck_def Let_def)
  have "list_all fair_event stuck_events" by (simp add: stuck_events_def Let_def)
  from doh_life_run [OF life_new this s(1)] s(2) show ?thesis by blast
qed

subsection \<open>Properties\<close>

text \<open>What \<open>getClient\<close> returns, in every interleaving of calls, lookups, \<open>Start\<close> and \<open>Exit\<close>: a
  client it returns dials an address the caller had at some time, from its URL or from a
  lookup of its name, and the caller only ever changes by such lookups; the two channels
  never hold more than one element.\<close>

theorem get_client_returns_resolved:
  assumes "doh_life_reach c0 n s"
  shows "doh_reach c0 (dl_caller s) \<and> length (dl_require s) \<le> 1 \<and> dl_satisfy s \<le> 1 \<and>
    (\<forall>t x. t < n \<and> dl_calls s ! t = G_Done (Some x) \<longrightarrow> (\<exists>c. doh_reach c0 c \<and> x \<in> set (dh_clients c)))"
proof -
  from doh_life_inv [OF assms] have i: "wake_inv s" "client_inv c0 s" "length (dl_calls s) = n" by simp_all
  have "G_Done (Some x) \<in> set (dl_calls s)" if "t < n" "dl_calls s ! t = G_Done (Some x)" for t x
    using that i(3) nth_mem [of t "dl_calls s"] by simp
  with i(1,2) show ?thesis by (fastforce simp: wake_inv_def client_inv_def)
qed

definition sample_doh :: "string list \<Rightarrow> doh_caller" where
  "sample_doh clients = \<lparr>dh_host = ''dns.test'', dh_port = ''443'', dh_url = ''https://dns.test/'', dh_clients = clients,
     dh_dialer = None\<rparr>"

text \<open>A call asks, the name is resolved, the call is notified and picks the address found.\<close>

definition sample_answer :: dns_msg where
  "sample_answer = new_msg\<lparr>msg_answer := [RR_A \<lparr>hdr_name = ''dns.test.'', hdr_rrtype = type_A, hdr_class = class_INET,
     hdr_ttl = 60\<rparr> [192, 0, 2, 53]]\<rparr>"

definition sample_get_events :: "doh_event list" where
  "sample_get_events = [Doh_Start, Get_Begin 0 new_msg (\<lambda>n. 0), Get_Require 0, Doh_Take,
     Doh_Resolved [Some sample_answer, None], Doh_Notify, Get_Satisfied 0, Get_Pick 0 (\<lambda>n. 0)]"

lemma sample_get_run:
  "map_option (\<lambda>s. dl_calls s) (doh_run sample_get_events (new_doh_life (sample_doh []) 1)) =
     Some [G_Done (Some ''192.0.2.53'')]"
  by code_simp

theorem get_client_returns_resolved_witness:
  "\<exists>s c. doh_life_reach (sample_doh []) 1 s \<and> dl_calls s = [G_Done (Some ''192.0.2.53'')] \<and>
     doh_reach (sample_doh []) c \<and> ''192.0.2.53'' \<in> set (dh_clients c)"
proof -
  obtain s where s: "doh_run sample_get_events (new_doh_life (sample_doh []) 1) = Some s"
    "dl_calls s = [G_Done (Some ''192.0.2.53'')]" using sample_get_run by auto
  have "list_all fair_event sample_get_events" by (simp add: sample_get_events_def)
  then have r: "doh_life_reach (sample_doh []) 1 s" using doh_life_run [OF life_new _ s(1)] by blast
  have "(0 :: nat) < 1 \<and> dl_calls s ! 0 = G_Done (Some ''192.0.2.53'')" using s(2) by simp
  with get_client_returns_resolved [OF r] have "\<exists>c. doh_reach (sample_doh []) c \<and> ''192.0.2.53'' \<in> set (dh_clients c)"
    by blast
  with r s(2) show ?thesis by blast
qed

text \<open>C14: No wake-up is lost: a call that waits for its notification can return within six steps of the
  goroutine and its own, without its context ending, as long as the caller is started and not
  stopped; and once it is stopped every call that waits can return at once.\<close>

theorem get_client_wakes:
  assumes "doh_life_reach c0 n s"
  shows "(\<not> dl_cancelled s \<and> dl_worker s \<noteq> W_New \<and> call_at s t G_Wait \<longrightarrow> returns_in 6 t s) \<and>
    (dl_cancelled s \<and> call_waits s t \<longrightarrow> doh_step (Get_Cancel t) s = Some (set_call t (G_Done None) s))"
  using doh_life_inv [OF assms] waiting_returns by auto

theorem get_client_wakes_witness:
  "\<exists>s. doh_life_reach (sample_doh []) 1 s \<and> call_at s 0 G_Wait \<and> returns_in 6 0 s"
proof -
  let ?s = "set_call 0 G_Wait ((new_doh_life (sample_doh []) 1)\<lparr>dl_worker := W_Idle, dl_require := [new_msg]\<rparr>)"
  have s: "doh_run (take 3 sample_get_events) (new_doh_life (sample_doh []) 1) = Some ?s"
    by (simp add: sample_get_events_def new_doh_life_def sample_doh_def doh_start_def call_free_def set_call_def
        require_cap_def numeral_3_eq_3)
  have "list_all fair_event (take 3 sample_get_events)" by (simp add: sample_get_events_def numeral_3_eq_3)
  from doh_life_run [OF life_new this s] have r: "doh_life_reach (sample_doh []) 1 ?s" .
  have c: "\<not> dl_cancelled ?s \<and> dl_worker ?s \<noteq> W_New \<and> call_at ?s 0 G_Wait"
    by (simp add: new_doh_life_def call_at_def)
  with get_client_wakes [OF r, of 0] have "returns_in 6 0 ?s" by blast
  with r c show ?thesis by blast
qed

text \<open>C15: But the caller can get stuck: requests whose contexts end while they wait leave their
  notifications behind, and when one is in the channel, one is being sent and one more
  request is queued, the goroutine waits for a reader and every new request waits for the
  goroutine. Until the program stops the caller no call of \<open>getClient\<close> gets a client any
  more, and the server's name is never resolved again, not by the ticker either.\<close>

theorem get_client_stuck:
  assumes "dh_clients c = []" "parse_ip (dh_host c) = None" "0 < n"
  shows "\<exists>s. doh_life_reach c n s \<and> \<not> dl_cancelled s \<and>
    (\<forall>evs s'. doh_run evs s = Some s' \<and> Doh_Exit \<notin> set evs \<longrightarrow>
       dl_worker s' = W_Notify \<and> dh_clients (dl_caller s') = [] \<and>
       (\<forall>t x. t < n \<longrightarrow> dl_calls s' ! t \<noteq> G_Done (Some x)))"
proof -
  obtain s where s: "doh_life_reach c n s" "stuck s" using stuck_reached [OF assms] by blast
  have len: "length (dl_calls s') = n" if "doh_run evs s = Some s'" for evs s'
    by (rule calls.inv_run [where es = evs and s = s]) (use that doh_life_inv [OF s(1)] in \<open>simp_all add: list_all_iff\<close>)
  have "dl_worker s' = W_Notify \<and> dh_clients (dl_caller s') = [] \<and> (\<forall>t x. t < n \<longrightarrow> dl_calls s' ! t \<noteq> G_Done (Some x))"
    if "doh_run evs s = Some s'" "Doh_Exit \<notin> set evs" for evs s'
  proof -
    from stuck_run [OF s(2) that] have k: "stuck s'" .
    have "dl_calls s' ! t \<noteq> G_Done (Some x)" if "t < n" for t x
    proof
      assume "dl_calls s' ! t = G_Done (Some x)"
      then have "G_Done (Some x) \<in> set (dl_calls s')" using that len [OF \<open>doh_run evs s = Some s'\<close>] by (metis nth_mem)
      with k show False by (auto simp: stuck_def)
    qed
    with k show ?thesis by (simp add: stuck_def)
  qed
  moreover have "\<not> dl_cancelled s" using s(2) by (simp add: stuck_def)
  ultimately show ?thesis using s(1) by blast
qed

theorem get_client_stuck_witness: "\<exists>s. doh_life_reach (sample_doh []) 3 s \<and> dl_worker s = W_Notify"
proof -
  have "parse_ip (dh_host (sample_doh [])) = None" by code_simp
  then obtain s where s: "doh_life_reach (sample_doh []) 3 s"
    "\<forall>evs s'. doh_run evs s = Some s' \<and> Doh_Exit \<notin> set evs \<longrightarrow> dl_worker s' = W_Notify"
    using get_client_stuck [of "sample_doh []" 3] by (auto simp: sample_doh_def)
  from s(2) [rule_format, of "[]" s] s(1) show ?thesis by auto
qed

end
