(* ===== verification/Network_Calls.thy ===== *)
theory Network_Calls
  imports Callers
begin

section \<open>Sending queries and pinging (\<open>outbound/caller.go\<close>, \<open>utils/ping.go\<close>)\<close>

text \<open>
  What the callers do with the network: the operations they perform, in order, given how each
  of them turns out. A query returns an answer or an error (\<open>None\<close>), and the operations it
  performed are listed beside it.
\<close>

subsection \<open>DNS and DNS over TLS\<close>

text \<open>
  One exchange of the DNS library over UDP; or a connection, dialled directly or through the
  proxy, then TLS if it is configured, and reading and writing with deadlines.
\<close>

datatype net_op =
    Exchange_Udp string
  | Dial string string
  | Dial_Proxy string string
  | Start_Tls string
  | Set_Write_Deadline time
  | Write_Msg dns_msg
  | Set_Read_Deadline time
  | Read_Msg
  | Close_Conn

record call_env =
  ce_ctx_deadline :: "time option"
  ce_exchange :: "dns_msg option"
  ce_dial_ok :: bool
  ce_write_deadline_ok :: bool
  ce_write_ok :: bool
  ce_read_deadline_ok :: bool
  ce_read :: "dns_msg option"
  ce_write_now :: time
  ce_read_now :: time

definition client_timeout :: duration where
  "client_timeout = 5 * second"

definition call_deadline :: "call_env \<Rightarrow> time \<Rightarrow> time" where
  "call_deadline e now =
     (let deadline = now + client_timeout
      in case ce_ctx_deadline e of
           None \<Rightarrow> deadline
         | Some d \<Rightarrow> if d < deadline then d else deadline)"

text \<open>\<open>getConn\<close>: the network of the dialler is the part of the caller's before the hyphen.\<close>

definition get_conn :: "dns_caller \<Rightarrow> net_op list" where
  "get_conn c =
     (case dc_proxy c of
        None \<Rightarrow> [Dial (hd (split_on CHR ''-'' (dc_net c))) (dc_server c)]
      | Some p \<Rightarrow> [Dial_Proxy p (dc_server c)])"

definition conn_tls :: "dns_caller \<Rightarrow> net_op list" where
  "conn_tls c = (case dc_server_name c of None \<Rightarrow> [] | Some name \<Rightarrow> [Start_Tls name])"

definition dns_call :: "call_env \<Rightarrow> dns_caller \<Rightarrow> dns_msg \<Rightarrow> dns_msg option \<times> net_op list" where
  "dns_call e c request =
     (if dc_net c = ''udp'' \<and> dc_proxy c = None then (ce_exchange e, [Exchange_Udp (dc_server c)])
      else if \<not> ce_dial_ok e then (None, get_conn c)
      else
        let ops = get_conn c @ conn_tls c @ [Set_Write_Deadline (call_deadline e (ce_write_now e))]
        in if \<not> ce_write_deadline_ok e then (None, ops @ [Close_Conn])
           else
             let ops = ops @ [Write_Msg request]
             in if \<not> ce_write_ok e then (None, ops @ [Close_Conn])
                else
                  let ops = ops @ [Set_Read_Deadline (call_deadline e (ce_read_now e))]
                  in if \<not> ce_read_deadline_ok e then (None, ops @ [Close_Conn])
                     else (ce_read e, ops @ [Read_Msg, Close_Conn]))"

subsection \<open>DNS over HTTPS\<close>

text \<open>
  \<open>newClient\<close>: a client dials the address it was made for at the caller's port, through the
  caller's dialler, whatever host the request names. \<open>client.Do\<close> fails or gives a response,
  whose body may be read or not.
\<close>

datatype http_op =
    Http_Dial "string option" string
  | Http_Post string string string
  | Close_Body

record http_env =
  ho_request_ok :: bool
  ho_response_ok :: bool
  ho_body :: "string option"

definition doh_call :: "wire_lib \<Rightarrow> http_env \<Rightarrow> doh_caller \<Rightarrow> string option \<Rightarrow> dns_msg \<Rightarrow> dns_msg option \<times> http_op list"
where
  "doh_call W e c client request =
     (case client of
        None \<Rightarrow> (None, [])
      | Some dial_host \<Rightarrow>
          (case wl_pack W request of
             None \<Rightarrow> (None, [])
           | Some buf \<Rightarrow>
               if \<not> ho_request_ok e then (None, [])
               else
                 let ops = [Http_Dial (dh_dialer c) (join_host_port dial_host (dh_port c)),
                            Http_Post (dh_url c) ''application/dns-message'' buf]
                 in if \<not> ho_response_ok e then (None, ops)
                    else (Option.bind (ho_body e) (wl_unpack W), ops @ [Close_Body])))"

subsection \<open>Pings\<close>

text \<open>
  One ping, over TCP where a port is configured: whether the connection, the pinger or the
  packet comes off is the network's. \<open>FastestPingIP\<close> takes what comes first on the channel of
  those that answered or on the timer.
\<close>

record ping_env =
  pe_tcp :: "string \<Rightarrow> bool"
  pe_pinger :: "string \<Rightarrow> bool"
  pe_packets :: "string \<Rightarrow> nat"

definition ping_ip :: "ping_env \<Rightarrow> string \<Rightarrow> int \<Rightarrow> bool" where
  "ping_ip e addr port =
     (if 0 < port then pe_tcp e (join_host_port addr (dec_int port))
      else pe_pinger e addr \<and> 1 \<le> pe_packets e addr)"

datatype ping_event = Pinged string | Ping_Timer

text \<open>The events with their times since the begin, in the order they come.\<close>

fun fastest_ping_ip :: "ping_env \<Rightarrow> int \<Rightarrow> (ping_event \<times> duration) list \<Rightarrow> (string \<times> int) option" where
  "fastest_ping_ip e port [] = None"
| "fastest_ping_ip e port ((Ping_Timer, t) # evs) = None"
| "fastest_ping_ip e port ((Pinged addr, t) # evs) =
     (if ping_ip e addr port then (if addr = [] then None else Some (addr, t div (10 ^ 6)))
      else fastest_ping_ip e port evs)"

text \<open>The events of a run: one for each address that is pinged, and the timer.\<close>

definition ping_run :: "string list \<Rightarrow> duration \<Rightarrow> (ping_event \<times> duration) list \<Rightarrow> bool" where
  "ping_run ips timeout evs \<longleftrightarrow> sorted (map snd evs) \<and> (Ping_Timer, timeout) \<in> set evs \<and>
     (\<forall>a t. (Pinged a, t) \<in> set evs \<longrightarrow> a \<in> set ips \<and> 0 \<le> t) \<and>
     (\<forall>a \<in> set ips. \<exists>t. (Pinged a, t) \<in> set evs) \<and> (\<forall>t. (Ping_Timer, t) \<in> set evs \<longrightarrow> t = timeout)"

subsection \<open>Properties\<close>


definition sample_call :: call_env where
  "sample_call = \<lparr>ce_ctx_deadline = Some 7, ce_exchange = None, ce_dial_ok = True, ce_write_deadline_ok = True,
     ce_write_ok = True, ce_read_deadline_ok = True, ce_read = None, ce_write_now = 1, ce_read_now = 2\<rparr>"


text \<open>A DoH query is sent to the address of the client that was picked, at the port and with the
  URL of the caller, and through its proxy where it has one; without a client nothing is sent;
  the body of a response is closed however reading it turns out; and an answer is what the
  body unpacks to.\<close>

theorem doh_call_spec:
  assumes "doh_call W e c client request = (res, ops)"
  shows "(client = None \<longrightarrow> ops = [] \<and> res = None) \<and>
    (\<forall>op \<in> set ops. op = Close_Body \<or>
       (\<exists>h. client = Some h \<and> op = Http_Dial (dh_dialer c) (join_host_port h (dh_port c))) \<or>
       (\<exists>buf. wl_pack W request = Some buf \<and> op = Http_Post (dh_url c) ''application/dns-message'' buf)) \<and>
    (ops \<noteq> [] \<longrightarrow> count_list ops Close_Body = (if ho_response_ok e then 1 else 0)) \<and>
    (\<forall>r. res = Some r \<longrightarrow> (\<exists>body. ho_body e = Some body \<and> wl_unpack W body = Some r \<and> last ops = Close_Body))"
  using assms by (auto simp: doh_call_def Let_def bind_eq_Some_conv split: option.splits if_splits)

theorem doh_call_spec_witness:
  "let W = \<lparr>wl_unpack = (\<lambda>s. Some new_msg), wl_pack = (\<lambda>m. Some ''q'')\<rparr>;
       c = \<lparr>dh_host = ''dns.test'', dh_port = ''443'', dh_url = ''u'', dh_clients = [], dh_dialer = None\<rparr>;
       ops = snd (doh_call W \<lparr>ho_request_ok = True, ho_response_ok = True, ho_body = None\<rparr> c (Some ''192.0.2.1'') new_msg)
   in count_list ops Close_Body = 1"
proof -
  let ?W = "\<lparr>wl_unpack = (\<lambda>s. Some new_msg), wl_pack = (\<lambda>m. Some ''q'')\<rparr>"
  let ?c = "\<lparr>dh_host = ''dns.test'', dh_port = ''443'', dh_url = ''u'', dh_clients = [], dh_dialer = None\<rparr>"
  let ?e = "\<lparr>ho_request_ok = True, ho_response_ok = True, ho_body = None\<rparr>"
  obtain res ops where r: "doh_call ?W ?e ?c (Some ''192.0.2.1'') new_msg = (res, ops)" by fastforce
  then have "ops \<noteq> []" by (auto simp: doh_call_def Let_def)
  with doh_call_spec [OF r] r show ?thesis by (simp add: Let_def)
qed

text \<open>The fastest address: one of those that were pinged and answered within the timeout, and none
  that answers has an earlier time; there is none only if no address answers before the
  timer.\<close>

theorem fastest_ping_spec:
  assumes "ping_run ips timeout evs" "[] \<notin> set ips"
  shows "case fastest_ping_ip e port evs of
      Some (a, ms) \<Rightarrow> a \<in> set ips \<and> ping_ip e a port \<and>
        (\<exists>t. (Pinged a, t) \<in> set evs \<and> ms = t div 10 ^ 6 \<and> t \<le> timeout \<and>
           (\<forall>b u. (Pinged b, u) \<in> set evs \<and> ping_ip e b port \<longrightarrow> t \<le> u))
    | None \<Rightarrow> (\<forall>a t. (Pinged a, t) \<in> set evs \<and> ping_ip e a port \<longrightarrow> timeout \<le> t)"
proof -
  have "case fastest_ping_ip e port evs of
      Some (a, ms) \<Rightarrow> ping_ip e a port \<and>
        (\<exists>t. (Pinged a, t) \<in> set evs \<and> ms = t div 10 ^ 6 \<and> t \<le> timeout \<and>
           (\<forall>b u. (Pinged b, u) \<in> set evs \<and> ping_ip e b port \<longrightarrow> t \<le> u))
    | None \<Rightarrow> (\<forall>a t. (Pinged a, t) \<in> set evs \<and> ping_ip e a port \<longrightarrow> timeout \<le> t)"
    if "sorted (map snd evs)" "(Ping_Timer, timeout) \<in> set evs" "\<forall>a t. (Pinged a, t) \<in> set evs \<longrightarrow> a \<noteq> []"
      "\<forall>t. (Ping_Timer, t) \<in> set evs \<longrightarrow> t = timeout"
    using that
  proof (induction e port evs rule: fastest_ping_ip.induct)
    case (2 e port t evs)
    then show ?case by (auto dest: spec [of _ t])
  next
    case (3 e port addr t evs)
    show ?case
    proof (cases "ping_ip e addr port")
      case True
      have le: "t \<le> u" if "(ev, u) \<in> set ((Pinged addr, t) # evs)" for ev u
        using that "3.prems"(1) by (force simp: image_iff)
      have f: "fastest_ping_ip e port ((Pinged addr, t) # evs) = Some (addr, t div 10 ^ 6)"
        using True "3.prems"(3) by simp
      have "t \<le> timeout" by (rule le [OF "3.prems"(2)])
      moreover have "\<forall>b u. (Pinged b, u) \<in> set ((Pinged addr, t) # evs) \<and> ping_ip e b port \<longrightarrow> t \<le> u"
        using le by blast
      moreover have "(Pinged addr, t) \<in> set ((Pinged addr, t) # evs)" by simp
      ultimately show ?thesis unfolding f option.case prod.case using True by blast
    next
      case False
      have IH: "case fastest_ping_ip e port evs of
          Some (a, ms) \<Rightarrow> ping_ip e a port \<and>
            (\<exists>t. (Pinged a, t) \<in> set evs \<and> ms = t div 10 ^ 6 \<and> t \<le> timeout \<and>
               (\<forall>b u. (Pinged b, u) \<in> set evs \<and> ping_ip e b port \<longrightarrow> t \<le> u))
        | None \<Rightarrow> (\<forall>a t. (Pinged a, t) \<in> set evs \<and> ping_ip e a port \<longrightarrow> timeout \<le> t)"
      proof (rule "3.IH" [OF False])
        show "sorted (map snd evs)" "(Ping_Timer, timeout) \<in> set evs" using "3.prems"(1,2) by simp_all
        show "\<forall>a t. (Pinged a, t) \<in> set evs \<longrightarrow> a \<noteq> []"
          using "3.prems"(3) by (blast intro: list.set_intros(2))
        show "\<forall>t. (Ping_Timer, t) \<in> set evs \<longrightarrow> t = timeout"
          using "3.prems"(4) by (blast intro: list.set_intros(2))
      qed
      have eq: "fastest_ping_ip e port ((Pinged addr, t) # evs) = fastest_ping_ip e port evs" using False by simp
      have mem: "(Pinged b, u) \<in> set evs" if "(Pinged b, u) \<in> set ((Pinged addr, t) # evs)" "ping_ip e b port" for b u
        using that False by auto
      show ?thesis
      proof (cases "fastest_ping_ip e port evs")
        case None
        show ?thesis using IH mem unfolding eq None option.case by blast
      next
        case (Some p)
        obtain a ms where p: "p = (a, ms)" by fastforce
        from IH obtain s where s: "ping_ip e a port" "(Pinged a, s) \<in> set evs" "ms = s div 10 ^ 6" "s \<le> timeout"
          "\<forall>b u. (Pinged b, u) \<in> set evs \<and> ping_ip e b port \<longrightarrow> s \<le> u"
          unfolding Some p option.case prod.case by blast
        have "(Pinged a, s) \<in> set ((Pinged addr, t) # evs)" using s(2) by simp
        with s mem show ?thesis unfolding eq Some p option.case prod.case by blast
      qed
    qed
  qed simp
  note spec = this
  have run: "sorted (map snd evs)" "(Ping_Timer, timeout) \<in> set evs"
    "\<forall>a t. (Pinged a, t) \<in> set evs \<longrightarrow> a \<in> set ips" "\<forall>t. (Ping_Timer, t) \<in> set evs \<longrightarrow> t = timeout"
    using assms(1) unfolding ping_run_def by blast+
  have "\<forall>a t. (Pinged a, t) \<in> set evs \<longrightarrow> a \<noteq> []" using run(3) assms(2) by blast
  from spec [OF run(1,2) this run(4)] run(3) show ?thesis
    by (cases "fastest_ping_ip e port evs") (simp_all only: option.case prod.case split: prod.split, blast+)
qed

theorem fastest_ping_spec_witness:
  "\<exists>t :: int. fastest_ping_ip \<lparr>pe_tcp = (\<lambda>a. True), pe_pinger = (\<lambda>a. False), pe_packets = (\<lambda>a. 0)\<rparr> 443
     [(Pinged ''192.0.2.1'', t), (Ping_Timer, 9)] = Some (''192.0.2.1'', t div 10 ^ 6) \<and> t \<le> 9"
proof -
  let ?e = "\<lparr>pe_tcp = (\<lambda>a. True), pe_pinger = (\<lambda>a. False), pe_packets = (\<lambda>a. 0)\<rparr>"
  have r: "ping_run [''192.0.2.1''] 9 [(Pinged ''192.0.2.1'', 5), (Ping_Timer, 9)]" by (auto simp: ping_run_def)
  have n: "[] \<notin> set [''192.0.2.1'']" by simp
  have f: "fastest_ping_ip ?e 443 [(Pinged ''192.0.2.1'', 5 :: int), (Ping_Timer, 9)] = Some (''192.0.2.1'', 5 div 10 ^ 6)"
    by (simp add: ping_ip_def)
  from fastest_ping_spec [OF r n, of ?e 443] have "\<exists>t. (Pinged ''192.0.2.1'', t) \<in> set [(Pinged ''192.0.2.1'', 5 :: int), (Ping_Timer, 9)] \<and> t \<le> 9"
    unfolding f by auto
  with f show ?thesis by (intro exI [of _ "5 :: int"]) auto
qed

end
