(* ===== verification/Group_Life.thy ===== *)
theory Group_Life
  imports Step_System Group_Impl
begin

section \<open>The goroutines of a group (\<open>Start\<close> and \<open>Stop\<close> of \<open>outbound/groups.go\<close>)\<close>

text \<open>
  A started group runs a worker for its ipset queue and, if a URL for the rule list is
  configured, a goroutine that fetches the list again and again; queries are post-processed
  meanwhile, and \<open>Stop\<close> waits for both. This theory puts the operations of \<open>Group_Impl\<close>
  together as a machine over the steps of all of them, relates it to the worker and the
  life cycle there, and shows that the list in use follows what was fetched and that \<open>Stop\<close>
  returns.
\<close>

subsection \<open>State\<close>

text \<open>
  The goroutine that fetches: before its first look at the list, waiting in its \<open>select\<close>,
  with a request under way, and returned. \<open>Stop\<close>: not called, with the callers stopped, and
  with the stop channel closed.
\<close>

datatype refresher = No_Refresher | Starting | Waiting | Fetching | Refresher_Done

datatype stopper = Not_Called | Callers_Stopped | Stop_Waits | Stop_Returned

record group_run =
  gr_group :: group
  gr_fs :: file_system
  gr_worker :: worker_phase
  gr_handled :: "ipset_task list"
  gr_refresher :: refresher
  gr_tick :: bool
  gr_stop_closed :: bool
  gr_stopper :: stopper
  gr_panicked :: bool

definition launch_group :: "file_system \<Rightarrow> group \<Rightarrow> group_run" where
  "launch_group fs g = \<lparr>gr_group = g\<lparr>g_started := True\<rparr>, gr_fs = fs, gr_worker = Working, gr_handled = [],
     gr_refresher = (if g_gfwlist_url g \<noteq> [] then Starting else No_Refresher), gr_tick = False,
     gr_stop_closed = False, gr_stopper = Not_Called, gr_panicked = False\<rparr>"

subsection \<open>Steps\<close>

text \<open>
  \<open>Fetched\<close> carries the body of the response, if there is one; the client gives up after ten
  seconds, so a request always ends. \<open>Tick\<close> is the ticker, whose channel holds one tick: a
  tick that finds it full is dropped. A panic in one of the goroutines ends the process.
\<close>

datatype group_event =
    Post "dns_msg option"
  | Worker_Takes
  | Worker_Sees_Stop
  | Worker_Returns
  | First_Look
  | Tick
  | Takes_Tick
  | Fetched "string option"
  | Refresher_Sees_Stop
  | Stop_Called
  | Stop_Closes
  | Stop_Ends

definition worker_takes :: "group_run \<Rightarrow> group_run option" where
  "worker_takes st =
     (if gr_worker st = Exited then None
      else case g_ipset_ch (gr_group st) of
             [] \<Rightarrow> None
           | task # rest \<Rightarrow>
               Some (st\<lparr>gr_group := (gr_group st)\<lparr>g_ipset_ch := rest\<rparr>, gr_handled := gr_handled st @ [task]\<rparr>))"

definition fetch_returns ::
  "regexp_engine \<Rightarrow> (string \<Rightarrow> bool) \<Rightarrow> string option \<Rightarrow> group_run \<Rightarrow> group_run" where
  "fetch_returns E can_write response st =
     (case refresh_gfwlist E (\<lambda>url. response) can_write (gr_fs st) (gr_group st) of
        (fs, Inl p) \<Rightarrow> st\<lparr>gr_fs := fs, gr_panicked := True\<rparr>
      | (fs, Inr g) \<Rightarrow> st\<lparr>gr_fs := fs, gr_group := g, gr_refresher := Waiting\<rparr>)"

fun goroutine_step ::
  "regexp_engine \<Rightarrow> (string \<Rightarrow> bool) \<Rightarrow> group_event \<Rightarrow> group_run \<Rightarrow> group_run option" where
  "goroutine_step E can_write (Post resp) st = Some (st\<lparr>gr_group := post_process resp (gr_group st)\<rparr>)"
| "goroutine_step E can_write Worker_Takes st = worker_takes st"
| "goroutine_step E can_write Worker_Sees_Stop st =
     (if gr_worker st = Working \<and> gr_stop_closed st then Some (st\<lparr>gr_worker := Draining\<rparr>) else None)"
| "goroutine_step E can_write Worker_Returns st =
     (if gr_worker st = Draining \<and> g_ipset_ch (gr_group st) = [] then Some (st\<lparr>gr_worker := Exited\<rparr>) else None)"
| "goroutine_step E can_write First_Look st =
     (if gr_refresher st = Starting
      then Some (st\<lparr>gr_refresher := (if g_gfwlist (gr_group st) = None then Fetching else Waiting)\<rparr>) else None)"
| "goroutine_step E can_write Tick st =
     (if gr_refresher st \<in> {No_Refresher, Refresher_Done} then None else Some (st\<lparr>gr_tick := True\<rparr>))"
| "goroutine_step E can_write Takes_Tick st =
     (if gr_refresher st = Waiting \<and> gr_tick st
      then Some (st\<lparr>gr_refresher := Fetching, gr_tick := False\<rparr>) else None)"
| "goroutine_step E can_write (Fetched response) st =
     (if gr_refresher st = Fetching then Some (fetch_returns E can_write response st) else None)"
| "goroutine_step E can_write Refresher_Sees_Stop st =
     (if gr_refresher st = Waiting \<and> gr_stop_closed st
      then Some (st\<lparr>gr_refresher := Refresher_Done, gr_tick := False\<rparr>) else None)"
| "goroutine_step E can_write Stop_Called st =
     (if gr_stopper st = Not_Called then Some (st\<lparr>gr_stopper := Callers_Stopped\<rparr>) else None)"
| "goroutine_step E can_write Stop_Closes st =
     (if gr_stopper st = Callers_Stopped
      then Some (st\<lparr>gr_stop_closed := True, gr_stopper := Stop_Waits\<rparr>) else None)"
| "goroutine_step E can_write Stop_Ends st =
     (if gr_stopper st = Stop_Waits \<and> gr_worker st = Exited \<and> gr_refresher st \<in> {No_Refresher, Refresher_Done}
      then Some (st\<lparr>gr_stopper := Stop_Returned\<rparr>) else None)"

definition group_step ::
  "regexp_engine \<Rightarrow> (string \<Rightarrow> bool) \<Rightarrow> group_event \<Rightarrow> group_run \<Rightarrow> group_run option" where
  "group_step E can_write ev st = (if gr_panicked st then None else goroutine_step E can_write ev st)"

abbreviation group_runs ::
  "regexp_engine \<Rightarrow> (string \<Rightarrow> bool) \<Rightarrow> group_event list \<Rightarrow> group_run \<Rightarrow> group_run option" where
  "group_runs E can_write \<equiv> run_steps (group_step E can_write)"

subsection \<open>What the events bring\<close>

definition fetched_text :: "group_event \<Rightarrow> string option" where
  "fetched_text ev = (case ev of Fetched (Some data) \<Rightarrow> b64_decode data | _ \<Rightarrow> None)"

definition brings_list :: "regexp_engine \<Rightarrow> group_event \<Rightarrow> abplus option" where
  "brings_list E ev =
     Option.bind (fetched_text ev) (\<lambda>text. case new_abp_by_text E text of Inl p \<Rightarrow> None | Inr m \<Rightarrow> Some m)"

definition breaks :: "regexp_engine \<Rightarrow> group_event \<Rightarrow> bool" where
  "breaks E ev = (case fetched_text ev of None \<Rightarrow> False | Some text \<Rightarrow> isl (new_abp_by_text E text))"

definition saves :: "(string \<Rightarrow> bool) \<Rightarrow> group \<Rightarrow> string \<Rightarrow> group_event \<Rightarrow> string option" where
  "saves can_write g path ev =
     (if path \<noteq> [] \<and> path = g_gfwlist_file g \<and> can_write path then map_option b64_encode (fetched_text ev) else None)"

subsection \<open>Invariant\<close>

text \<open>What of a group its goroutines leave alone.\<close>

definition settings :: "group \<Rightarrow> group" where
  "settings g = g\<lparr>g_gfwlist := None, g_ipset_ch := [], g_started := True\<rparr>"

lemma settings_updates [simp]:
  "settings (g\<lparr>g_gfwlist := list\<rparr>) = settings g"
  "settings (g\<lparr>g_ipset_ch := ch\<rparr>) = settings g"
  "settings (g\<lparr>g_started := b\<rparr>) = settings g"
  by (simp_all add: settings_def)

lemma settings_eqD:
  assumes "settings g = settings h"
  shows "g_gfwlist_url g = g_gfwlist_url h" "g_gfwlist_file g = g_gfwlist_file h"
    "g_gfwlist_period g = g_gfwlist_period h"
proof -
  have "g_gfwlist_url (settings x) = g_gfwlist_url x" "g_gfwlist_file (settings x) = g_gfwlist_file x"
    "g_gfwlist_period (settings x) = g_gfwlist_period x" for x
    by (simp_all add: settings_def)
  with assms show "g_gfwlist_url g = g_gfwlist_url h" "g_gfwlist_file g = g_gfwlist_file h"
    "g_gfwlist_period g = g_gfwlist_period h"
    by metis+
qed

text \<open>
  The group is the one that was started, but for its list and its queue; the phases of the
  goroutines agree with the stop channel.
\<close>

definition group_inv :: "group \<Rightarrow> group_run \<Rightarrow> bool" where
  "group_inv g st \<longleftrightarrow>
     settings (gr_group st) = settings g \<and>
     (gr_refresher st = No_Refresher \<longleftrightarrow> g_gfwlist_url g = []) \<and>
     length (g_ipset_ch (gr_group st)) \<le> ipset_capacity \<and>
     (gr_stop_closed st \<longleftrightarrow> gr_stopper st = Stop_Waits \<or> gr_stopper st = Stop_Returned) \<and>
     (gr_worker st \<noteq> Working \<or> gr_refresher st = Refresher_Done \<longrightarrow> gr_stop_closed st) \<and>
     (gr_stopper st = Stop_Returned \<longrightarrow>
        gr_worker st = Exited \<and> (gr_refresher st = No_Refresher \<or> gr_refresher st = Refresher_Done))"

lemma launch_inv: "g_ipset_ch g = [] \<Longrightarrow> group_inv g (launch_group fs g)"
  by (simp add: group_inv_def launch_group_def)

lemma length_post: "length ch \<le> ipset_capacity \<Longrightarrow> length (fold (post_answer g) as ch) \<le> ipset_capacity"
proof (induction as arbitrary: ch)
  case (Cons a as)
  then show ?case by (simp add: post_answer_def length_offer split: option.split)
qed simp

lemma refresh_gfwlist_fetched:
  assumes "group_inv g st" "gr_refresher st = Fetching"
  shows "refresh_gfwlist E (\<lambda>url. response) can_write (gr_fs st) (gr_group st) =
    (case fetched_text (Fetched response) of
       None \<Rightarrow> (gr_fs st, Inr (gr_group st))
     | Some text \<Rightarrow> (save_gfwlist can_write (gr_fs st) g text,
         (case new_abp_by_text E text of Inl p \<Rightarrow> Inl p | Inr m \<Rightarrow> Inr ((gr_group st)\<lparr>g_gfwlist := Some m\<rparr>))))"
proof -
  from assms(1) have g: "settings (gr_group st) = settings g" by (simp add: group_inv_def)
  from assms have "g_gfwlist_url g \<noteq> []" by (auto simp: group_inv_def)
  with settings_eqD [OF g] show ?thesis
    by (cases response) (simp_all add: refresh_gfwlist_def grab_gfwlist_def fetched_text_def save_gfwlist_def
        split: option.split)
qed

lemma group_inv_step:
  assumes "group_inv g st" "group_step E can_write ev st = Some st'"
  shows "group_inv g st'"
proof (cases ev)
  case (Post resp)
  with assms show ?thesis
    by (cases resp) (auto simp: group_step_def group_inv_def post_process_def length_post split: if_splits)
next
  case Worker_Takes
  with assms show ?thesis
    by (auto simp: group_step_def worker_takes_def group_inv_def split: if_splits list.splits)
next
  case (Fetched response)
  with assms(2) have f: "gr_refresher st = Fetching" "st' = fetch_returns E can_write response st"
    by (auto simp: group_step_def split: if_splits)
  from assms(1) show ?thesis
    unfolding f(2) fetch_returns_def refresh_gfwlist_fetched [OF assms(1) f(1)]
    by (auto simp: group_inv_def f(1) split: option.split sum.split)
qed (use assms in \<open>auto simp: group_step_def group_inv_def split: if_splits\<close>)

lemma step_brings:
  assumes "group_inv g st" "group_step E can_write ev st = Some st'"
  shows "g_gfwlist (gr_group st') = (case brings_list E ev of None \<Rightarrow> g_gfwlist (gr_group st) | Some m \<Rightarrow> Some m)"
    "gr_fs st' path = (case saves can_write g path ev of None \<Rightarrow> gr_fs st path | Some text \<Rightarrow> Some text)"
    "gr_panicked st' \<longleftrightarrow> breaks E ev"
proof -
  have "g_gfwlist (gr_group st') = (case brings_list E ev of None \<Rightarrow> g_gfwlist (gr_group st) | Some m \<Rightarrow> Some m) \<and>
    gr_fs st' path = (case saves can_write g path ev of None \<Rightarrow> gr_fs st path | Some text \<Rightarrow> Some text) \<and>
    (gr_panicked st' \<longleftrightarrow> breaks E ev)"
  proof (cases "\<exists>response. ev = Fetched response")
    case True
    then obtain response where ev: "ev = Fetched response" by blast
    with assms(2) have f: "gr_refresher st = Fetching" "st' = fetch_returns E can_write response st"
      "\<not> gr_panicked st"
      by (auto simp: group_step_def split: if_splits)
    show ?thesis
      unfolding f(2) ev fetch_returns_def refresh_gfwlist_fetched [OF assms(1) f(1)] brings_list_def
        breaks_def saves_def
      using f(3) by (auto simp: save_gfwlist_def Let_def split: option.split sum.split)
  next
    case False
    then have "fetched_text ev = None" by (cases ev) (auto simp: fetched_text_def)
    moreover from False assms(2) have "g_gfwlist (gr_group st') = g_gfwlist (gr_group st)"
      "gr_fs st' = gr_fs st" "\<not> gr_panicked st'"
      by (cases ev; auto simp: group_step_def worker_takes_def post_process_def
          split: if_splits list.splits option.splits)+
    ultimately show ?thesis by (simp add: brings_list_def breaks_def saves_def)
  qed
  then show "g_gfwlist (gr_group st') = (case brings_list E ev of None \<Rightarrow> g_gfwlist (gr_group st) | Some m \<Rightarrow> Some m)"
    "gr_fs st' path = (case saves can_write g path ev of None \<Rightarrow> gr_fs st path | Some text \<Rightarrow> Some text)"
    "gr_panicked st' \<longleftrightarrow> breaks E ev"
    by blast+
qed

interpretation rule_list: hot_swap "group_step E can_write" "\<lambda>ev. True" "group_inv g" "brings_list E"
    "\<lambda>st. g_gfwlist (gr_group st)" for E can_write g
  by unfold_locales (use group_inv_step step_brings(1) in blast)+

interpretation list_file: hot_swap "group_step E can_write" "\<lambda>ev. True" "group_inv g" "saves can_write g path"
    "\<lambda>st. gr_fs st path" for E can_write g path
  by unfold_locales (use step_brings(2) in blast)

lemma panicked_iff_breaks:
  assumes "group_inv g st" "\<not> gr_panicked st" "group_runs E can_write evs st = Some st'"
  shows "gr_panicked st' \<longleftrightarrow> list_ex (breaks E) evs"
  using assms
proof (induction evs arbitrary: st)
  case (Cons ev evs)
  from Cons.prems(3) obtain t where t: "group_step E can_write ev st = Some t" "group_runs E can_write evs t = Some st'"
    by (auto simp: bind_eq_Some_conv)
  note step = step_brings(3) [OF Cons.prems(1) t(1)] group_inv_step [OF Cons.prems(1) t(1)]
  show ?case
  proof (cases "breaks E ev")
    case True
    with step(1) t(2) have "evs = [] \<and> t = st'" by (cases evs) (simp_all add: group_step_def)
    with True step(1) show ?thesis by simp
  next
    case False
    with Cons.IH [OF step(2) _ t(2)] step(1) show ?thesis by simp
  qed
qed simp

text \<open>Once a text was fetched and could be saved, the file holds the text of the list in use.\<close>

lemma latest_of_text:
  assumes "latest fetched_text evs v = Some text"
  shows "\<lbrakk>path \<noteq> []; path = g_gfwlist_file g; can_write path; \<And>t. v = Some t \<Longrightarrow> w = Some (b64_encode t)\<rbrakk> \<Longrightarrow>
      latest (saves can_write g path) evs w = Some (b64_encode text)"
    and "\<lbrakk>\<not> list_ex (breaks E) evs; \<And>t. v = Some t \<Longrightarrow> \<exists>m. new_abp_by_text E t = Inr m \<and> l = Some m\<rbrakk> \<Longrightarrow>
      \<exists>m. new_abp_by_text E text = Inr m \<and> latest (brings_list E) evs l = Some m"
  using assms
proof (induction evs arbitrary: v w l)
  case (Cons ev evs)
  {
    case 1
    let ?v = "case fetched_text ev of None \<Rightarrow> v | Some t \<Rightarrow> Some t"
    from 1 have "latest fetched_text evs ?v = Some text" by simp
    from Cons.IH(1) [OF 1(1-3) _ this] 1 show ?case by (cases "fetched_text ev") (simp_all add: saves_def)
  next
    case 2
    let ?v = "case fetched_text ev of None \<Rightarrow> v | Some t \<Rightarrow> Some t"
    let ?l = "case brings_list E ev of None \<Rightarrow> l | Some m \<Rightarrow> Some m"
    from 2 have "latest fetched_text evs ?v = Some text" "\<not> list_ex (breaks E) evs" by simp_all
    moreover have "\<exists>m. new_abp_by_text E t = Inr m \<and> ?l = Some m" if "?v = Some t" for t
      using that 2(1,2) by (cases "fetched_text ev") (auto simp: breaks_def brings_list_def split: sum.splits)
    ultimately have "\<exists>m. new_abp_by_text E text = Inr m \<and> latest (brings_list E) evs ?l = Some m"
      using Cons.IH(2) by blast
    then show ?case by simp
  }
qed auto

subsection \<open>Refinement of the worker and of the life cycle\<close>

text \<open>The worker of \<open>Group_Impl\<close>, and the life of the group as the wrapper of the handler sees it.\<close>

definition worker_of :: "group_run \<Rightarrow> worker" where
  "worker_of st = \<lparr>wk_queue = g_ipset_ch (gr_group st), wk_handled = gr_handled st,
     wk_stop = gr_stop_closed st, wk_phase = gr_worker st\<rparr>"

definition life_of :: "group_run \<Rightarrow> group_life" where
  "life_of st = \<lparr>gl_started = True, gl_stop_closed = gr_stop_closed st,
     gl_callers_running = (gr_stopper st = Not_Called)\<rparr>"

definition sent_tasks :: "group_run \<Rightarrow> ipset_task list" where
  "sent_tasks st = gr_handled st @ g_ipset_ch (gr_group st)"

lemma worker_reach_posts:
  assumes "worker_reach sent w"
  shows "\<exists>sent'. worker_reach sent' (w\<lparr>wk_queue := fold (post_answer g) as (wk_queue w)\<rparr>)"
  using assms
proof (induction as arbitrary: sent w)
  case Nil
  then show ?case by auto
next
  case (Cons a as)
  have "\<exists>sent'. worker_reach sent' (w\<lparr>wk_queue := post_answer g a (wk_queue w)\<rparr>)"
  proof (cases "\<exists>task. ipset_task_of g a = Some task \<and> length (wk_queue w) < ipset_capacity")
    case True
    then obtain task where "ipset_task_of g a = Some task" "length (wk_queue w) < ipset_capacity" by blast
    with worker_next [OF Cons.prems worker_step.put [OF this(2), of sent task]] show ?thesis
      by (auto simp: post_answer_def)
  next
    case False
    then have "post_answer g a (wk_queue w) = wk_queue w"
      by (auto simp: post_answer_def offer_def split: option.split)
    with Cons.prems show ?thesis by auto
  qed
  then obtain sent' where "worker_reach sent' (w\<lparr>wk_queue := post_answer g a (wk_queue w)\<rparr>)" by blast
  from Cons.IH [OF this] show ?case by simp
qed

lemma worker_of_step:
  assumes "worker_reach sent (worker_of st)" "group_step E can_write ev st = Some st'"
  shows "\<exists>sent'. worker_reach sent' (worker_of st')"
proof -
  have next_step: "worker_reach sent' w'" if "worker_step sent (worker_of st) sent' w'" for sent' w'
    using worker_next [OF assms(1) that] .
  show ?thesis
  proof (cases ev)
    case (Post resp)
    with assms(2) have "st' = st\<lparr>gr_group := post_process resp (gr_group st)\<rparr>"
      by (simp add: group_step_def split: if_splits)
    then have "worker_of st' = (worker_of st)\<lparr>wk_queue := (case resp of None \<Rightarrow> wk_queue (worker_of st)
        | Some m \<Rightarrow> fold (post_answer (gr_group st)) (msg_answer m) (wk_queue (worker_of st)))\<rparr>"
      by (simp add: worker_of_def post_process_def split: option.split)
    with worker_reach_posts [OF assms(1)] assms(1) show ?thesis by (cases resp) auto
  next
    case Worker_Takes
    with assms(2) show ?thesis
      using next_step [OF worker_step.take [of "worker_of st"]]
      by (fastforce simp: group_step_def worker_takes_def worker_of_def split: if_splits list.splits)
  next
    case Worker_Sees_Stop
    with assms(2) show ?thesis
      using next_step [OF worker_step.see_stop [of "worker_of st"]]
      by (fastforce simp: group_step_def worker_of_def split: if_splits)
  next
    case Worker_Returns
    with assms(2) show ?thesis
      using next_step [OF worker_step.exit_loop [of "worker_of st"]]
      by (fastforce simp: group_step_def worker_of_def split: if_splits)
  next
    case Stop_Closes
    with assms(2) show ?thesis
      using next_step [OF worker_step.stop [of sent "worker_of st"]]
      by (auto simp: group_step_def worker_of_def split: if_splits)
  next
    case (Fetched response)
    with assms(2) have "st' = fetch_returns E can_write response st" by (auto simp: group_step_def split: if_splits)
    then have "worker_of st' = worker_of st"
      by (auto simp: fetch_returns_def refresh_gfwlist_def worker_of_def split: option.splits sum.splits)
    with assms(1) show ?thesis by auto
  qed (use assms in \<open>auto simp: group_step_def worker_of_def split: if_splits\<close>)
qed

lemma launch_worker: "g_ipset_ch g = [] \<Longrightarrow> worker_reach [] (worker_of (launch_group fs g))"
  using worker_start by (simp add: worker_of_def launch_group_def)

interpretation worker: step_system "group_step E can_write" "\<lambda>ev. True" "\<lambda>st. \<exists>sent. worker_reach sent (worker_of st)"
  for E can_write
  by unfold_locales (use worker_of_step in blast)

text \<open>The two halves of \<open>Stop\<close> are the \<open>group_stop\<close> of the life cycle, whatever happens between them.\<close>

lemma life_of_step:
  assumes "group_inv g st" "group_step E can_write ev st = Some st'"
  shows "if ev = Stop_Closes then group_stop (life_of st) = Some (life_of st')
    else life_of st' = (if ev = Stop_Called then (life_of st)\<lparr>gl_callers_running := False\<rparr> else life_of st)"
  using assms
  by (cases ev) (auto simp: group_step_def group_inv_def life_of_def group_stop_def worker_takes_def fetch_returns_def
      refresh_gfwlist_def split: if_splits list.splits option.splits sum.splits)

subsection \<open>While the group stops\<close>

text \<open>
  No query is under way when a handler stops its groups, so nothing is posted any more. The
  ticker may still tick, and each tick can cost the group one more request.
\<close>

definition posts :: "group_event \<Rightarrow> bool" where
  "posts ev = (case ev of Post resp \<Rightarrow> True | _ \<Rightarrow> False)"

definition own_step :: "group_event \<Rightarrow> bool" where
  "own_step ev = (case ev of Post resp \<Rightarrow> False | Tick \<Rightarrow> False | Stop_Called \<Rightarrow> False | _ \<Rightarrow> True)"

definition stopping :: "group \<Rightarrow> ipset_task list \<Rightarrow> group_run \<Rightarrow> bool" where
  "stopping g tasks st \<longleftrightarrow> group_inv g st \<and> gr_stopper st \<noteq> Not_Called \<and> sent_tasks st = tasks \<and>
     (gr_worker st = Exited \<longrightarrow> g_ipset_ch (gr_group st) = [])"

definition stop_work :: "group_run \<Rightarrow> nat" where
  "stop_work st =
     length (g_ipset_ch (gr_group st)) +
     (case gr_worker st of Working \<Rightarrow> 2 | Draining \<Rightarrow> 1 | Exited \<Rightarrow> 0) +
     (case gr_refresher st of Starting \<Rightarrow> 3 | Fetching \<Rightarrow> 2 | Waiting \<Rightarrow> 1 | _ \<Rightarrow> 0) +
     (if gr_tick st then 2 else 0) +
     (case gr_stopper st of Callers_Stopped \<Rightarrow> 2 | Stop_Waits \<Rightarrow> 1 | _ \<Rightarrow> 0) +
     (if gr_panicked st then 0 else 1)"

definition stop_over :: "group_run \<Rightarrow> bool" where
  "stop_over st \<longleftrightarrow> gr_stopper st = Stop_Returned \<or> gr_panicked st"

lemma stopping_step:
  assumes "\<not> posts ev" "stopping g tasks st" "group_step E can_write ev st = Some st'"
  shows "stopping g tasks st'"
proof -
  have "group_inv g st'" using group_inv_step assms(2,3) by (auto simp: stopping_def)
  with assms show ?thesis
    by (cases ev) (auto simp: stopping_def posts_def group_step_def worker_takes_def sent_tasks_def fetch_returns_def
        refresh_gfwlist_def split: if_splits list.splits option.splits sum.splits)
qed

lemma stop_work_step:
  assumes "\<not> posts ev" "stopping g tasks st" "group_step E can_write ev st = Some st'"
  shows "stop_work st' + (if own_step ev then 1 else 0) \<le> stop_work st + (if ev = Tick then 2 else 0)"
  using assms
  by (cases ev) (auto simp: stopping_def posts_def own_step_def stop_work_def group_step_def worker_takes_def
      fetch_returns_def refresh_gfwlist_def split: if_splits list.splits option.splits sum.splits)

lemma stop_goes_on:
  assumes "stopping g tasks st" "\<not> stop_over st"
  shows "\<exists>ev st'. own_step ev \<and> group_step E can_write ev st = Some st'"
proof -
  have run: "\<not> gr_panicked st" using assms(2) by (simp add: stop_over_def)
  have "\<exists>ev. own_step ev \<and> goroutine_step E can_write ev st \<noteq> None"
  proof (cases "gr_stopper st = Callers_Stopped")
    case True
    then have "own_step Stop_Closes \<and> goroutine_step E can_write Stop_Closes st \<noteq> None"
      by (simp add: own_step_def)
    then show ?thesis by blast
  next
    case False
    with assms have st: "gr_stopper st = Stop_Waits" "gr_stop_closed st"
      by (cases "gr_stopper st"; simp add: stopping_def stop_over_def group_inv_def)+
    have "own_step ev" if "ev \<in> {Worker_Sees_Stop, Worker_Takes, Worker_Returns, First_Look, Fetched None,
        Refresher_Sees_Stop, Stop_Ends}" for ev
      using that by (auto simp: own_step_def)
    moreover have "\<exists>ev \<in> {Worker_Sees_Stop, Worker_Takes, Worker_Returns, First_Look, Fetched None,
        Refresher_Sees_Stop, Stop_Ends}. goroutine_step E can_write ev st \<noteq> None"
      using st
      by (cases "gr_worker st"; cases "g_ipset_ch (gr_group st)"; cases "gr_refresher st")
         (simp_all add: worker_takes_def)
    ultimately show ?thesis by blast
  qed
  with run show ?thesis by (auto simp: group_step_def)
qed

interpretation stop: charged_steps "group_step E can_write" "\<lambda>ev. \<not> posts ev" "stopping g tasks" stop_work own_step
    "\<lambda>ev. if ev = Tick then 2 else 0" for E can_write g tasks
  by unfold_locales (use stopping_step stop_work_step in blast)+

interpretation last_steps: finishing_steps "group_step E can_write" own_step "stopping g tasks" stop_work stop_over
  for E can_write g tasks
proof unfold_locales
  fix ev st st'
  assume "own_step ev" "stopping g tasks st" "group_step E can_write ev st = Some st'"
  moreover from this(1) have "\<not> posts ev" "ev \<noteq> Tick" by (cases ev; simp add: own_step_def posts_def)+
  ultimately show "stopping g tasks st'" "stop_work st' < stop_work st"
    using stopping_step stop_work_step [of ev g tasks st E can_write st'] by (auto split: if_splits)
qed (use stop_goes_on in blast)

lemma stopping_start:
  assumes "group_inv g st" "group_step E can_write Stop_Called st = Some st'"
  shows "stopping g (sent_tasks st) st'" "stop_work st' \<le> 1034"
proof -
  have "gr_stopper st = Not_Called" "st' = st\<lparr>gr_stopper := Callers_Stopped\<rparr>" "\<not> gr_panicked st"
    using assms(2) by (auto simp: group_step_def split: if_splits)
  moreover from this assms(1) have "gr_worker st = Working" "length (g_ipset_ch (gr_group st)) \<le> 1024"
    by (auto simp: group_inv_def ipset_capacity_def)
  ultimately show "stopping g (sent_tasks st) st'" "stop_work st' \<le> 1034"
    using group_inv_step [OF assms]
    by (auto simp: stopping_def sent_tasks_def stop_work_def split: refresher.split)
qed

lemma panic_text:
  assumes "group_inv g st" "\<not> gr_panicked st" "group_runs E can_write evs st = Some st'" "gr_panicked st'"
  shows "\<exists>text. latest fetched_text evs v = Some text \<and> isl (new_abp_by_text E text)"
proof (cases evs rule: rev_cases)
  case Nil
  with assms show ?thesis by simp
next
  case (snoc evs' ev)
  with assms(3) obtain t where t: "group_runs E can_write evs' st = Some t" "group_step E can_write ev t = Some st'"
    by (auto simp: run_steps_snoc bind_eq_Some_conv)
  from rule_list.inv_run [OF _ assms(1) t(1)] have "group_inv g t" by (simp add: list_all_iff)
  from step_brings(3) [OF this t(2)] assms(4) have "breaks E ev" by simp
  then show ?thesis by (auto simp: breaks_def snoc latest_snoc split: option.splits)
qed

subsection \<open>Properties\<close>

text \<open>C13: The list in use is the latest that was fetched and could be decoded, and a fetch that fails
  changes nothing; nothing else of the group changes but its queue. The process ends exactly
  if reading a fetched list panics. The file holds the latest text, so that it is what is read
  at the next start: the list in use or, as it is saved before it is read, the one that
  panicked, which then panics again.\<close>

theorem fetched_list_in_use:
  assumes "g_ipset_ch g = []" "group_runs E can_write evs (launch_group fs g) = Some st"
  shows "g_gfwlist (gr_group st) = latest (brings_list E) evs (g_gfwlist g) \<and>
    settings (gr_group st) = settings g \<and>
    (gr_panicked st \<longleftrightarrow> list_ex (breaks E) evs) \<and>
    (\<forall>path. gr_fs st path = latest (saves can_write g path) evs (fs path)) \<and>
    (\<forall>text. latest fetched_text evs None = Some text \<and> g_gfwlist_file g \<noteq> [] \<and> can_write (g_gfwlist_file g) \<longrightarrow>
       new_abp_by_file E (gr_fs st) (g_gfwlist_file g) True = Inr (new_abp_by_text E text) \<and>
       (if gr_panicked st then isl (new_abp_by_text E text)
        else \<exists>m. new_abp_by_text E text = Inr m \<and> g_gfwlist (gr_group st) = Some m))"
proof -
  let ?st = "launch_group fs g"
  have st: "group_inv g ?st" "\<not> gr_panicked ?st" "g_gfwlist (gr_group ?st) = g_gfwlist g" "gr_fs ?st = fs"
    using assms(1) by (simp_all add: launch_inv) (simp_all add: launch_group_def)
  have all: "list_all (\<lambda>ev. True) evs" by (simp add: list_all_iff)
  from rule_list.inv_run [OF all st(1) assms(2)] have inv: "settings (gr_group st) = settings g"
    by (simp add: group_inv_def)
  have list: "g_gfwlist (gr_group st) = latest (brings_list E) evs (g_gfwlist g)"
    using rule_list.in_use_latest [OF all st(1) assms(2)] by (simp only: st)
  have saved: "gr_fs st path = latest (saves can_write g path) evs (fs path)" for path
    using list_file.in_use_latest [OF all st(1) assms(2)] by (simp only: st)
  note panicked = panicked_iff_breaks [OF st(1,2) assms(2)]
  have "new_abp_by_file E (gr_fs st) (g_gfwlist_file g) True = Inr (new_abp_by_text E text) \<and>
       (if gr_panicked st then isl (new_abp_by_text E text)
        else \<exists>m. new_abp_by_text E text = Inr m \<and> g_gfwlist (gr_group st) = Some m)"
    if lt: "latest fetched_text evs None = Some text" and nonempty: "g_gfwlist_file g \<noteq> []"
      and writable: "can_write (g_gfwlist_file g)" for "text"
  proof -
    have "gr_fs st (g_gfwlist_file g) = Some (b64_encode text)"
      unfolding saved by (rule latest_of_text(1) [where can_write = can_write, OF lt nonempty refl writable]) simp
    then have "new_abp_by_file E (gr_fs st) (g_gfwlist_file g) True = Inr (new_abp_by_text E text)"
      by (simp add: new_abp_by_file_def b64_decode_encode)
    moreover have "isl (new_abp_by_text E text)" if "gr_panicked st"
      using panic_text [OF st(1,2) assms(2) that, of None] lt by auto
    moreover have "\<exists>m. new_abp_by_text E text = Inr m \<and> g_gfwlist (gr_group st) = Some m" if "\<not> gr_panicked st"
      using latest_of_text(2) [OF lt, of E "g_gfwlist g"] that panicked list by auto
    ultimately show ?thesis by simp
  qed
  with list inv panicked saved show ?thesis by blast
qed

theorem fetched_list_in_use_witness:
  "\<exists>st. group_runs go_regexp (\<lambda>path. True) [First_Look, Fetched (Some (b64_encode overlapping_path_rule))]
       (launch_group (\<lambda>path. None) (sample_group\<lparr>g_gfwlist_url := ''u'', g_gfwlist_file := ''f''\<rparr>)) = Some st \<and>
     gr_panicked st \<and> (\<exists>p. new_abp_by_file go_regexp (gr_fs st) ''f'' True = Inr (Inl p))"
proof -
  let ?g = "sample_group\<lparr>g_gfwlist_url := ''u'', g_gfwlist_file := ''f''\<rparr>"
  let ?evs = "[First_Look, Fetched (Some (b64_encode overlapping_path_rule))]"
  have "group_runs go_regexp (\<lambda>path. True) ?evs (launch_group (\<lambda>path. None) ?g) \<noteq> None"
    by (simp add: group_step_def launch_group_def sample_group_def)
  then obtain st where st: "group_runs go_regexp (\<lambda>path. True) ?evs (launch_group (\<lambda>path. None) ?g) = Some st" by auto
  have "g_ipset_ch ?g = []" by (simp add: sample_group_def)
  from fetched_list_in_use [OF this st]
  have "gr_panicked st" "new_abp_by_file go_regexp (gr_fs st) ''f'' True = Inr (Inl Slice_Bounds)"
    by (auto simp: breaks_def fetched_text_def b64_decode_encode new_abp_overlapping)
  with st show ?thesis by blast
qed


definition set4_group :: group where
  "set4_group = sample_group\<lparr>g_ipset := Some \<lparr>is_name = ''set4'', is_timeout = 60\<rparr>\<rparr>"


end
