(* ===== verification/Server_Main.thy ===== *)
theory Server_Main
  imports Handler_Wrapper
begin

section \<open>Starting and reloading (\<open>cmd/main.go\<close>)\<close>

text \<open>
  From the command line and the configuration file to a handler and an address, and the
  reload of the file on a signal. The file system, the YAML decoder and the user's home are
  arguments; a configuration that cannot be used ends the program at the start and is
  skipped at a reload.
\<close>

subsection \<open>Addresses and paths\<close>

text \<open>\<open>strings.SplitN(s, "/", 2)\<close> with two parts.\<close>

definition split_slash :: "string \<Rightarrow> (string \<times> string) option" where
  "split_slash s = map_option (\<lambda>i. (take i s, drop (i + 1) s)) (str_index s ''/'')"

definition parse_listen :: "string \<Rightarrow> string \<Rightarrow> (string \<times> string) option" where
  "parse_listen flag conf_listen =
     (let listen = (if flag = [] then conf_listen else flag);
          (addr, network) = (case split_slash listen of
             None \<Rightarrow> (listen, [])
           | Some (a, n) \<Rightarrow> (a, to_lower n))
      in if network \<noteq> [] \<and> network \<noteq> ''udp'' \<and> network \<noteq> ''tcp'' then None else Some (addr, network))"

text \<open>\<open>filepath.Clean\<close>: the components one by one; a \<open>..\<close> takes back the last one.\<close>

definition clean_step :: "bool \<Rightarrow> string \<Rightarrow> string list \<Rightarrow> string list" where
  "clean_step rooted p out =
     (if p = [] \<or> p = ''.'' then out
      else if p = ''..'' then
        (case out of
           [] \<Rightarrow> if rooted then [] else [''..'']
         | q # qs \<Rightarrow> if q = ''..'' then ''..'' # out else qs)
      else p # out)"

definition clean_path :: "string \<Rightarrow> string" where
  "clean_path p =
     (let rooted = prefix ''/'' p;
          out = join ''/'' (rev (fold (clean_step rooted) (split_on CHR ''/'' p) []))
      in if rooted then ''/'' @ out else if out = [] then ''.'' else out)"

definition join_path :: "string \<Rightarrow> string \<Rightarrow> string" where
  "join_path a b =
     (case filter (\<lambda>e. e \<noteq> []) [a, b] of [] \<Rightarrow> [] | es \<Rightarrow> clean_path (join ''/'' es))"

definition expand_home :: "string option \<Rightarrow> string \<Rightarrow> string" where
  "expand_home home path =
     (if path = [] \<or> hd path \<noteq> CHR ''~'' then path
      else case home of None \<Rightarrow> path | Some dir \<Rightarrow> join_path dir (drop 1 path))"

subsection \<open>Which servers to run\<close>

datatype run_mode = Run_Plain | Run_Doh string string

definition run_mode_of :: "(string \<Rightarrow> bool) \<Rightarrow> string option \<Rightarrow> conf \<Rightarrow> run_mode" where
  "run_mode_of exists home c =
     (let cert = expand_home home (cf_ssl_cert_file c); key = expand_home home (cf_ssl_key_file c)
      in if cf_ssl_cert_file c \<noteq> [] \<and> cf_ssl_key_file c \<noteq> [] \<and> exists cert \<and> exists key
         then Run_Doh cert key else Run_Plain)"

definition doh_http_addr :: "conf \<Rightarrow> string" where
  "doh_http_addr c =
     (if cf_listen_doh_http c \<noteq> 0 then ''127.0.0.1:'' @ dec_int (cf_listen_doh_http c) else [])"

subsection \<open>Starting\<close>

record ('s, 'r) main_env =
  me_unmarshal :: "string \<Rightarrow> conf option"
  me_handler :: "('s, 'r) handler_env"

text \<open>The environment of the handler with the files as they are now, and the libraries of a query.\<close>

definition with_files :: "file_system \<Rightarrow> ('s, 'r) main_env \<Rightarrow> ('s, 'r) handler_env" where
  "with_files fs e = (me_handler e)\<lparr>he_build := (he_build (me_handler e))\<lparr>be_fs := fs\<rparr>\<rparr>"

definition query_libs :: "('s, 'r) main_env \<Rightarrow> ('s, 'r) libraries" where
  "query_libs e = \<lparr>lb_engine = be_engine (he_build (me_handler e)), lb_dns = be_lib (he_build (me_handler e)),
     lb_store = he_store (me_handler e), lb_ranger = he_ranger (me_handler e)\<rparr>"

abbreviation main_iface :: "('s, 'r) main_env \<Rightarrow> group igroup" where
  "main_iface e \<equiv> group_iface (be_engine (he_build (me_handler e))) (be_lib (he_build (me_handler e)))"

datatype load_error = Read_Failed | Load_Failed

definition load_conf :: "('s, 'r) main_env \<Rightarrow> file_system \<Rightarrow> string \<Rightarrow> load_error + conf" where
  "load_conf e fs filename =
     (case fs filename of
        None \<Rightarrow> Inl Read_Failed
      | Some yaml \<Rightarrow>
          (case me_unmarshal e yaml of
             None \<Rightarrow> Inl Load_Failed
           | Some c \<Rightarrow> Inr (normalize_conf c)))"

datatype main_error = Conf_Error load_error | Unknown_Network | Build_Error handler_error

definition main_start ::
  "('s, 'r) main_env \<Rightarrow> file_system \<Rightarrow> string \<Rightarrow> string \<Rightarrow>
   main_error + (conf \<times> ('s, group, 'r) handler \<times> string \<times> string)"
where
  "main_start e fs filename flag =
     (case load_conf e fs filename of
        Inl err \<Rightarrow> Inl (Conf_Error err)
      | Inr c \<Rightarrow>
       (case parse_listen flag (cf_listen c) of
         None \<Rightarrow> Inl Unknown_Network
       | Some (addr, network) \<Rightarrow>
           (case new_handle (with_files fs e) c of
              Inl err \<Rightarrow> Inl (Build_Error err)
            | Inr h \<Rightarrow> Inr (c, h, addr, network))))"

subsection \<open>Reloading\<close>

text \<open>
  The wrapper as one thread sees it, and \<open>ReloadConfig\<close> on it. A rule that panics the matcher
  while the groups are built is no error: it ends the program.
\<close>

record ('s, 'r) live =
  lv_stopped :: bool
  lv_handler :: "('s, group, 'r) handler option"

datatype crash = Rules_Panic panic | Query_Panic | No_Behaviour

definition crash_of :: "handler_error \<Rightarrow> panic option" where
  "crash_of err = (case err of Groups_Failed (Build_Panic p) \<Rightarrow> Some p | _ \<Rightarrow> None)"

datatype reload_error = Make_Handler handler_error | Handler_Stopped

definition reload_config ::
  "('s, 'r) handler_env \<Rightarrow> conf \<Rightarrow> ('s, 'r) live \<Rightarrow> crash + (reload_error option \<times> ('s, 'r) live)"
where
  "reload_config env c lv =
     (case new_handle env c of
        Inl err \<Rightarrow>
          (case crash_of err of
             Some p \<Rightarrow> Inl (Rules_Panic p)
           | None \<Rightarrow> Inr (Some (Make_Handler err), lv))
      | Inr h \<Rightarrow>
          if lv_stopped lv then Inr (Some Handler_Stopped, lv)
          else Inr (None, lv\<lparr>lv_handler := Some h\<rparr>))"

text \<open>One round of \<open>reloadConf\<close>, with the files as they are at the signal.\<close>

definition reload_conf :: "('s, 'r) main_env \<Rightarrow> string \<Rightarrow> file_system \<Rightarrow> ('s, 'r) live \<Rightarrow> crash + ('s, 'r) live" where
  "reload_conf e filename fs lv =
     (case load_conf e fs filename of
        Inl err \<Rightarrow> Inr lv
      | Inr c \<Rightarrow> and_then (reload_config (with_files fs e) c lv) (\<lambda>(err, lv'). Inr lv'))"

text \<open>The life of the program after its start: signals and queries.\<close>

datatype live_event = Hangup file_system | Query query_run dns_msg

definition no_result_crash :: "no_result \<Rightarrow> crash" where
  "no_result_crash x = (case x of Handler_Panic \<Rightarrow> Query_Panic | No_Return \<Rightarrow> No_Behaviour)"

definition live_step ::
  "('s, 'r) main_env \<Rightarrow> string \<Rightarrow> live_event \<Rightarrow> dns_msg list \<times> ('s, 'r) live \<Rightarrow>
   crash + (dns_msg list \<times> ('s, 'r) live)"
where
  "live_step e filename ev st =
     (case st of (replies, lv) \<Rightarrow>
        (case ev of
           Hangup fs \<Rightarrow> and_then (reload_conf e filename fs lv) (\<lambda>lv'. Inr (replies, lv'))
         | Query q req \<Rightarrow>
             (case wrapper_serve (query_libs e) (main_iface e) q (lv_handler lv) req of
                Inl x \<Rightarrow> Inl (no_result_crash x)
              | Inr (m, h) \<Rightarrow> Inr (replies @ [m], lv\<lparr>lv_handler := h\<rparr>))))"

definition live_run ::
  "('s, 'r) main_env \<Rightarrow> string \<Rightarrow> live_event list \<Rightarrow> ('s, 'r) live \<Rightarrow> crash + (dns_msg list \<times> ('s, 'r) live)"
where
  "live_run e filename evs lv = fold_r (live_step e filename) evs ([], lv)"

subsection \<open>Lemmas\<close>

lemma str_index_split:
  "str_index s [d] = Some k \<Longrightarrow> s = take k s @ [d] @ drop (k + 1) s"
  "str_index s [d] = Some k \<Longrightarrow> d \<notin> set (take k s)"
proof -
  have "s = take k s @ [d] @ drop (k + 1) s \<and> d \<notin> set (take k s)" if "str_index s [d] = Some k"
    using that
  proof (induction s arbitrary: k)
    case (Cons c s)
    then show ?case by (cases k) (auto split: if_splits)
  qed (simp split: if_splits)
  then show "str_index s [d] = Some k \<Longrightarrow> s = take k s @ [d] @ drop (k + 1) s"
    "str_index s [d] = Some k \<Longrightarrow> d \<notin> set (take k s)" by blast+
qed

definition live_ok :: "('s, 'r) main_env \<Rightarrow> ('s, 'r) live \<Rightarrow> bool" where
  "live_ok e lv \<longleftrightarrow> \<not> lv_stopped lv \<and> (\<exists>h. lv_handler lv = Some h \<and> handler_inv (main_iface e) h)"

text \<open>What is relied on: maps are visited in any order, and a decoded map is finite.\<close>

definition main_env_ok :: "('s, 'r) main_env \<Rightarrow> bool" where
  "main_env_ok e \<longleftrightarrow> env_orders (me_handler e) \<and> (\<forall>y c. me_unmarshal e y = Some c \<longrightarrow> finite (dom (cf_groups c)))"

lemma with_files_iface:
  "group_iface (be_engine (he_build (with_files fs e))) (be_lib (he_build (with_files fs e))) = main_iface e"
  by (simp add: with_files_def)

lemma env_orders_with_files: "env_orders (with_files fs e) = env_orders (me_handler e)"
  by (simp add: env_orders_def with_files_def)

lemma load_conf_finite: "main_env_ok e \<Longrightarrow> load_conf e fs filename = Inr c \<Longrightarrow> finite (dom (cf_groups c))"
  by (auto simp: main_env_ok_def load_conf_def normalize_conf_def split: option.splits)

lemma new_handle_live:
  assumes "main_env_ok e" "load_conf e fs filename = Inr c" "new_handle (with_files fs e) c = Inr h"
  shows "handler_inv (main_iface e) h"
  using new_handle_inv(1) [OF assms(3) _ load_conf_finite [OF assms(1,2)]] assms(1)
  by (simp add: env_orders_with_files main_env_ok_def with_files_iface)

lemma reload_keeps_ok:
  assumes "main_env_ok e" "live_ok e lv" "reload_conf e filename fs lv = Inr lv'"
  shows "live_ok e lv'"
proof (cases "load_conf e fs filename")
  case (Inl err)
  with assms show ?thesis by (simp add: reload_conf_def)
next
  case (Inr c)
  show ?thesis
  proof (cases "new_handle (with_files fs e) c")
    case (Inl err)
    with assms Inr show ?thesis by (auto simp: reload_conf_def reload_config_def split: option.splits)
  next
    case h: (Inr h)
    with new_handle_live [OF assms(1) Inr h] assms Inr show ?thesis
      by (auto simp: reload_conf_def reload_config_def live_ok_def)
  qed
qed

lemma serve_keeps_ok:
  assumes "live_ok e lv"
  shows "wrapper_serve (query_libs e) (main_iface e) q (lv_handler lv) req \<noteq> Inl Handler_Panic"
    "wrapper_serve (query_libs e) (main_iface e) q (lv_handler lv) req = Inr (m, h) \<Longrightarrow> live_ok e (lv\<lparr>lv_handler := h\<rparr>)"
proof -
  from assms obtain h0 where h0: "lv_handler lv = Some h0" "handler_inv (main_iface e) h0" "\<not> lv_stopped lv"
    by (auto simp: live_ok_def)
  note np = go_group.handle_no_panic [OF h0(2)] and inv = go_group.handle_keeps_inv(1) [OF h0(2)]
  have "serve_dns (query_libs e) (main_iface e) q h0 req \<noteq> Inl Handler_Panic"
    using np [of "query_libs e" q req]
    by (cases "handle (query_libs e) (main_iface e) q h0 req") (auto simp: serve_dns_def)
  then show "wrapper_serve (query_libs e) (main_iface e) q (lv_handler lv) req \<noteq> Inl Handler_Panic"
    by (cases "serve_dns (query_libs e) (main_iface e) q h0 req") (auto simp: wrapper_serve_def h0(1))
  show "live_ok e (lv\<lparr>lv_handler := h\<rparr>)"
    if "wrapper_serve (query_libs e) (main_iface e) q (lv_handler lv) req = Inr (m, h)"
    using that inv h0 by (auto simp: wrapper_serve_def serve_dns_def and_then_Inr live_ok_def)
qed

lemma live_step_ok:
  assumes "main_env_ok e" "live_ok e (snd st)"
  shows "live_step e filename ev st \<noteq> Inl Query_Panic"
    "live_step e filename ev st = Inr st' \<Longrightarrow> live_ok e (snd st')"
proof -
  obtain replies lv where st: "st = (replies, lv)" by fastforce
  have r: "reload_conf e filename fs lv \<noteq> Inl Query_Panic" for fs
    by (auto simp: reload_conf_def reload_config_def split: sum.split option.split)
  show "live_step e filename ev st \<noteq> Inl Query_Panic"
  proof (cases ev)
    case (Hangup fs)
    with r [of fs] show ?thesis by (cases "reload_conf e filename fs lv") (auto simp: live_step_def st)
  next
    case (Query q req)
    with serve_keeps_ok(1) [of e lv q req] assms(2) show ?thesis
      by (auto simp: live_step_def st no_result_crash_def split: sum.split no_result.splits)
  qed
  show "live_ok e (snd st')" if "live_step e filename ev st = Inr st'"
  proof (cases ev)
    case (Hangup fs)
    with that reload_keeps_ok [OF assms(1)] assms(2) show ?thesis
      by (auto simp: live_step_def st and_then_Inr)
  next
    case (Query q req)
    with that serve_keeps_ok(2) [of e lv q req] assms(2) show ?thesis
      by (auto simp: live_step_def st split: sum.splits)
  qed
qed

subsection \<open>A small program\<close>

definition demo_main :: "(string \<rightharpoonup> cache_item, ip_net list) main_env" where
  "demo_main = \<lparr>me_unmarshal = (\<lambda>y. if y = ''conf'' then Some demo_conf else None), me_handler = demo_env\<rparr>"

definition demo_files :: file_system where
  "demo_files = be_fs sample_env"

lemma demo_main_ok: "main_env_ok demo_main"
  using demo_env_orders
  by (auto simp: main_env_ok_def demo_main_def demo_conf_def finite_dom_map_of split: if_splits)

lemma demo_with_files: "with_files demo_files demo_main = demo_env"
  by (simp add: with_files_def demo_main_def demo_files_def demo_env_def)

lemma demo_load: "load_conf demo_main demo_files ''ts-dns.yaml'' = Inr demo_conf"
  by (simp add: load_conf_def demo_files_def sample_env_def demo_main_def normalize_conf_def demo_conf_def)

lemma demo_start: "\<exists>h. main_start demo_main demo_files ''ts-dns.yaml'' '':53/UDP'' = Inr (demo_conf, h, '':53'', ''udp'')"
proof -
  have "parse_listen '':53/UDP'' (cf_listen demo_conf) = Some ('':53'', ''udp'')" by code_simp
  with demo_builds show ?thesis by (auto simp: main_start_def demo_load demo_with_files)
qed

subsection \<open>Properties\<close>



text \<open>C29: What a reload does: with a file that cannot be read or decoded, or a configuration that is
  refused, the handler in use stays exactly as it is, caches and statistics included;
  otherwise a new handler for the new configuration takes its place, unless the program has
  been stopped.\<close>

theorem reload_spec:
  assumes "reload_conf e filename fs lv = Inr lv'"
  shows "lv' = lv \<and> (lv_stopped lv \<or> (\<forall>c. load_conf e fs filename = Inr c \<longrightarrow> (\<exists>err. new_handle (with_files fs e) c = Inl err))) \<or>
    (\<not> lv_stopped lv \<and> (\<exists>y c h. fs filename = Some y \<and> me_unmarshal e y = Some c \<and>
       new_handle (with_files fs e) (normalize_conf c) = Inr h \<and> lv' = lv\<lparr>lv_handler := Some h\<rparr>))"
proof (cases "load_conf e fs filename")
  case (Inl err)
  with assms show ?thesis by (simp add: reload_conf_def)
next
  case (Inr c)
  then obtain y c' where c: "fs filename = Some y" "me_unmarshal e y = Some c'" "c = normalize_conf c'"
    by (auto simp: load_conf_def split: option.splits)
  show ?thesis
  proof (cases "new_handle (with_files fs e) c")
    case (Inl err)
    with assms Inr show ?thesis by (auto simp: reload_conf_def reload_config_def split: option.splits)
  next
    case h: (Inr h)
    with assms Inr have "lv' = (if lv_stopped lv then lv else lv\<lparr>lv_handler := Some h\<rparr>)"
      by (auto simp: reload_conf_def reload_config_def split: if_splits)
    with c h show ?thesis by (cases "lv_stopped lv") auto
  qed
qed

theorem reload_spec_witness:
  "\<exists>h. new_handle demo_env demo_conf = Inr h \<and>
     reload_conf demo_main ''ts-dns.yaml'' demo_files \<lparr>lv_stopped = False, lv_handler = None\<rparr> =
       Inr \<lparr>lv_stopped = False, lv_handler = Some h\<rparr>"
proof -
  let ?lv = "\<lparr>lv_stopped = False, lv_handler = None\<rparr> :: (string \<rightharpoonup> cache_item, ip_net list) live"
  obtain h where h: "new_handle demo_env demo_conf = Inr h" using demo_builds by blast
  then obtain lv' where lv': "reload_conf demo_main ''ts-dns.yaml'' demo_files ?lv = Inr lv'"
    by (simp add: reload_conf_def demo_load demo_with_files reload_config_def)
  have n: "normalize_conf demo_conf = demo_conf" by (simp add: normalize_conf_def demo_conf_def)
  have u: "me_unmarshal demo_main y = Some c \<longleftrightarrow> y = ''conf'' \<and> c = demo_conf" for y c
    by (auto simp: demo_main_def)
  from reload_spec [OF lv'] h have "lv' = ?lv\<lparr>lv_handler := Some h\<rparr>"
    by (auto simp: demo_load demo_with_files u n)
  with lv' h show ?thesis by auto
qed

text \<open>What a start that succeeds has: a well-formed handler for the groups of the file, and an
  address with a network that is UDP, TCP or both, from the flag if it is given and from the
  file otherwise.\<close>

theorem main_start_spec:
  assumes "main_env_ok e" "main_start e fs filename flag = Inr (c, h, addr, network)"
  shows "handler_inv (main_iface e) h \<and> dom (hd_groups h) = dom (cf_groups c) \<and>
    network \<in> {[], ''udp'', ''tcp''} \<and> CHR ''/'' \<notin> set addr \<and>
    (let listen = (if flag = [] then cf_listen c else flag)
     in if CHR ''/'' \<in> set listen then \<exists>n. listen = addr @ ''/'' @ n \<and> network = to_lower n
        else listen = addr \<and> network = [])"
proof -
  from assms(2) have c: "load_conf e fs filename = Inr c" and l: "parse_listen flag (cf_listen c) = Some (addr, network)"
    and h: "new_handle (with_files fs e) c = Inr h"
    by (auto simp: main_start_def split: sum.splits option.splits)
  have e: "env_orders (with_files fs e)" using assms(1) by (simp add: env_orders_with_files main_env_ok_def)
  note i = new_handle_inv [OF h e load_conf_finite [OF assms(1) c], unfolded with_files_iface]
  define L where "L = (if flag = [] then cf_listen c else flag)"
  have n: "network \<in> {[], ''udp'', ''tcp''}"
    using l by (auto simp: parse_listen_def Let_def split: prod.splits if_splits)
  have "CHR ''/'' \<notin> set addr \<and> (if CHR ''/'' \<in> set L then \<exists>n. L = addr @ ''/'' @ n \<and> network = to_lower n
      else L = addr \<and> network = [])"
  proof (cases "str_index L ''/''")
    case None
    then have "CHR ''/'' \<notin> set L" by (simp add: str_index_single)
    moreover have "addr = L" "network = []"
      using l None by (auto simp: parse_listen_def split_slash_def Let_def L_def split: if_splits)
    ultimately show ?thesis by simp
  next
    case (Some k)
    note s = str_index_split [OF Some]
    have a: "addr = take k L" "network = to_lower (drop (k + 1) L)"
      using l Some by (auto simp: parse_listen_def split_slash_def Let_def L_def split: if_splits)
    then have "L = addr @ ''/'' @ drop (k + 1) L" "CHR ''/'' \<notin> set addr" using s by simp_all
    moreover from this(1) have "CHR ''/'' \<in> set L" by (metis in_set_conv_decomp append_Cons append_Nil)
    ultimately show ?thesis using a(2) by auto
  qed
  with i n show ?thesis unfolding Let_def L_def by blast
qed

theorem main_start_spec_witness:
  "\<exists>h. main_start demo_main demo_files ''ts-dns.yaml'' '':53/UDP'' = Inr (demo_conf, h, '':53'', ''udp'') \<and>
     handler_inv (main_iface demo_main) h \<and> dom (hd_groups h) = dom (cf_groups demo_conf)"
proof -
  obtain h where h: "main_start demo_main demo_files ''ts-dns.yaml'' '':53/UDP'' = Inr (demo_conf, h, '':53'', ''udp'')"
    using demo_start by blast
  from main_start_spec [OF demo_main_ok h] h show ?thesis by blast
qed

end
