(* ===== verification/Server_Run.thy ===== *)
theory Server_Run
  imports Server_Main Step_System
begin

section \<open>Running the servers (\<open>cmd/main.go\<close>)\<close>

text \<open>
  \<open>runPlain\<close> and \<open>runDoH\<close>: opening the listeners, one goroutine for every server, the channel
  they report errors on, the wait group, and the main function, which waits for the context,
  for an error or for all of them, shuts the servers down and waits. Serving itself is the
  libraries': a server runs until it fails or ends, and ends some time after it is told to.
\<close>

subsection \<open>Shutting a DNS server down\<close>

definition is_server_closed :: "string option \<Rightarrow> bool" where
  "is_server_closed err =
     (case err of
        None \<Rightarrow> False
      | Some e \<Rightarrow> str_contains e ''server closed'' \<or> str_contains e ''use of closed network connection'')"

record dns_server =
  ds_packet_conn :: bool
  ds_listener :: bool

datatype close_target = Packet_Conn | Listener

text \<open>
  The error, and what is closed: a server that has not started yet is not known to the
  library's shutdown, so its socket is closed instead.
\<close>

definition shutdown_dns_server ::
  "string option \<Rightarrow> (close_target \<Rightarrow> string option) \<Rightarrow> dns_server option \<Rightarrow> string option \<times> close_target list" where
  "shutdown_dns_server shutdown_result close_result srv =
     (case srv of
        None \<Rightarrow> (None, [])
      | Some s \<Rightarrow>
          (case shutdown_result of
             None \<Rightarrow> (None, [])
           | Some err \<Rightarrow>
               if \<not> str_contains err ''server not started'' then (Some err, [])
               else if ds_packet_conn s then (close_result Packet_Conn, [Packet_Conn])
               else if ds_listener s then (close_result Listener, [Listener])
               else (Some err, [])))"

subsection \<open>Opening\<close>

text \<open>
  The goroutines of the wait group: DNS over UDP and TCP, the plain HTTP server, and with TLS
  the HTTPS server, the DNS server behind the multiplexer, the multiplexer, and the one that
  watches the certificate.
\<close>

datatype server = Udp | Tcp | Plain_Doh | Doh_Tls | Mux_Tcp | Mux | Cert_Watch

datatype run_error = Listen_Failed server | Cert_Failed | Service_Stopped server

definition start_plaintext_doh :: "(server \<Rightarrow> bool) \<Rightarrow> string \<Rightarrow> server list \<times> run_error list" where
  "start_plaintext_doh ok addr =
     (if addr = [] then ([], [])
      else if ok Plain_Doh then ([Plain_Doh], [])
      else ([], [Listen_Failed Plain_Doh]))"

text \<open>An error with the listeners that are closed again, or the servers and the errors reported so far.\<close>

definition open_plain ::
  "(server \<Rightarrow> bool) \<Rightarrow> string \<Rightarrow> string \<Rightarrow> (run_error \<times> server list) + (server list \<times> run_error list)" where
  "open_plain ok network addr =
     (let udp = (if network = [] \<or> network = ''udp'' then [Udp] else []);
          tcp = (if network = [] \<or> network = ''tcp'' then [Tcp] else [])
      in if udp \<noteq> [] \<and> \<not> ok Udp then Inl (Listen_Failed Udp, [])
         else if tcp \<noteq> [] \<and> \<not> ok Tcp then Inl (Listen_Failed Tcp, udp)
         else case start_plaintext_doh ok addr of (doh, errs) \<Rightarrow> Inr (doh @ udp @ tcp, errs))"

definition open_doh ::
  "(server \<Rightarrow> bool) \<Rightarrow> bool \<Rightarrow> string \<Rightarrow> string \<Rightarrow> (run_error \<times> server list) + (server list \<times> run_error list)" where
  "open_doh ok cert_ok network addr =
     (let udp = (if network = [] \<or> network = ''udp'' then [Udp] else []);
          tcp = (network = [] \<or> network = ''tcp'')
      in if udp \<noteq> [] \<and> \<not> ok Udp then Inl (Listen_Failed Udp, [])
         else if tcp \<and> \<not> ok Tcp then Inl (Listen_Failed Tcp, udp)
         else if tcp \<and> \<not> cert_ok then Inl (Cert_Failed, Tcp # udp)
         else case start_plaintext_doh ok addr of (doh, errs) \<Rightarrow>
           Inr (udp @ (if tcp then [Cert_Watch, Doh_Tls, Mux_Tcp, Mux] else []) @ doh, errs))"

definition open_servers ::
  "run_mode \<Rightarrow> (server \<Rightarrow> bool) \<Rightarrow> bool \<Rightarrow> string \<Rightarrow> string \<Rightarrow>
   (run_error \<times> server list) + (server list \<times> run_error list)" where
  "open_servers mode ok cert_ok network addr =
     (case mode of Run_Plain \<Rightarrow> open_plain ok network addr | Run_Doh cert key \<Rightarrow> open_doh ok cert_ok network addr)"

text \<open>
  The order in which the servers are shut down: closing the multiplexer ends the DNS server
  behind it, closing its listener ends the multiplexer.
\<close>

definition shutdown_order :: "run_mode \<Rightarrow> server list \<Rightarrow> server list" where
  "shutdown_order mode opened =
     filter (\<lambda>s. s \<in> set opened)
       (case mode of
          Run_Plain \<Rightarrow> [Udp, Tcp, Plain_Doh]
        | Run_Doh cert key \<Rightarrow> [Cert_Watch, Doh_Tls, Plain_Doh, Udp, Mux_Tcp, Mux])"

subsection \<open>Running\<close>

datatype server_state = Running | Closing | Finished

datatype main_pc =
    Selecting
  | Shutting "run_error option" "server list"
  | Joining "run_error option"
  | Exited "run_error option"

record run_state =
  rn_state :: "server \<Rightarrow> server_state"
  rn_errs :: "run_error list"
  rn_ctx_done :: bool
  rn_main :: main_pc

definition err_cap :: nat where "err_cap = 16"

definition run_init :: "server list \<Rightarrow> run_error list \<Rightarrow> run_state" where
  "run_init opened errs = \<lparr>rn_state = (\<lambda>s. if s \<in> set opened then Running else Finished), rn_errs = errs,
     rn_ctx_done = False, rn_main = Selecting\<rparr>"

definition set_server :: "server \<Rightarrow> server_state \<Rightarrow> run_state \<Rightarrow> run_state" where
  "set_server s p st = st\<lparr>rn_state := (rn_state st)(s := p)\<rparr>"

definition all_finished :: "server list \<Rightarrow> run_state \<Rightarrow> bool" where
  "all_finished opened st = list_all (\<lambda>s. rn_state st s = Finished) opened"

text \<open>
  With what error a server returns, and which errors the goroutines report: each leaves out
  those it takes for a shutdown.
\<close>

datatype serve_error = Http_Server_Closed | Mux_Server_Closed | Mux_Listener_Closed | Serve_Error string

definition serve_error_text :: "serve_error \<Rightarrow> string" where
  "serve_error_text err =
     (case err of
        Http_Server_Closed \<Rightarrow> ''http: Server closed''
      | Mux_Server_Closed \<Rightarrow> ''mux: server closed''
      | Mux_Listener_Closed \<Rightarrow> ''mux: listener closed''
      | Serve_Error t \<Rightarrow> t)"

definition reported :: "server \<Rightarrow> serve_error option \<Rightarrow> bool" where
  "reported s err =
     (case err of
        None \<Rightarrow> False
      | Some e \<Rightarrow>
          (case s of
             Udp \<Rightarrow> \<not> is_server_closed (Some (serve_error_text e))
           | Tcp \<Rightarrow> \<not> is_server_closed (Some (serve_error_text e))
           | Plain_Doh \<Rightarrow> e \<noteq> Http_Server_Closed
           | Doh_Tls \<Rightarrow> e \<noteq> Http_Server_Closed
           | Mux_Tcp \<Rightarrow> \<not> is_server_closed (Some (serve_error_text e)) \<and> e \<noteq> Mux_Server_Closed \<and>
               e \<noteq> Mux_Listener_Closed
           | Mux \<Rightarrow> e \<noteq> Mux_Server_Closed \<and> e \<noteq> Mux_Listener_Closed
           | Cert_Watch \<Rightarrow> False))"

datatype run_event = Returns server "serve_error option" | Ctx_Done | Main_Ctx | Main_Err | Main_Done | Main_Close | Main_Join

text \<open>The watcher of the certificate reports no errors and ends only when it is told to.\<close>

fun server_step :: "run_mode \<Rightarrow> server list \<Rightarrow> run_event \<Rightarrow> run_state \<Rightarrow> run_state option" where
  "server_step mode opened (Returns s err) st =
     (if rn_state st s \<noteq> Finished \<and> (s = Cert_Watch \<longrightarrow> rn_state st s = Closing) \<and>
         (reported s err \<longrightarrow> length (rn_errs st) < err_cap)
      then Some ((set_server s Finished st)\<lparr>rn_errs := rn_errs st @ (if reported s err then [Service_Stopped s] else [])\<rparr>)
      else None)"
| "server_step mode opened Ctx_Done st = (if rn_ctx_done st then None else Some (st\<lparr>rn_ctx_done := True\<rparr>))"
| "server_step mode opened Main_Ctx st =
     (if rn_main st = Selecting \<and> rn_ctx_done st
      then Some (st\<lparr>rn_main := Shutting None (shutdown_order mode opened)\<rparr>) else None)"
| "server_step mode opened Main_Err st =
     (case (rn_main st, rn_errs st) of
        (Selecting, e # es) \<Rightarrow> Some (st\<lparr>rn_main := Shutting (Some e) (shutdown_order mode opened), rn_errs := es\<rparr>)
      | _ \<Rightarrow> None)"
| "server_step mode opened Main_Done st =
     (if rn_main st = Selecting \<and> all_finished opened st
      then Some (st\<lparr>rn_main := Exited (case rn_errs st of [] \<Rightarrow> None | e # es \<Rightarrow> Some e)\<rparr>) else None)"
| "server_step mode opened Main_Close st =
     (case rn_main st of
        Shutting r (s # ss) \<Rightarrow>
          Some ((if rn_state st s = Running then set_server s Closing st else st)\<lparr>rn_main := Shutting r ss\<rparr>)
      | Shutting r [] \<Rightarrow> Some (st\<lparr>rn_main := Joining r\<rparr>)
      | _ \<Rightarrow> None)"
| "server_step mode opened Main_Join st =
     (case rn_main st of
        Joining r \<Rightarrow> if all_finished opened st then Some (st\<lparr>rn_main := Exited r\<rparr>) else None
      | _ \<Rightarrow> None)"

abbreviation server_run :: "run_mode \<Rightarrow> server list \<Rightarrow> run_event list \<Rightarrow> run_state \<Rightarrow> run_state option" where
  "server_run mode opened \<equiv> run_steps (server_step mode opened)"

subsection \<open>Invariant\<close>

definition unfinished :: "server list \<Rightarrow> run_state \<Rightarrow> nat" where
  "unfinished opened st = length (filter (\<lambda>s. rn_state st s \<noteq> Finished) opened)"

text \<open>The errors that were reported in a run.\<close>

definition reports :: "run_event list \<Rightarrow> run_error set" where
  "reports evs = {Service_Stopped s | s err. Returns s err \<in> set evs \<and> reported s err}"

lemma reports_snoc:
  "reports (evs @ [ev]) = (case ev of Returns s err \<Rightarrow> if reported s err then insert (Service_Stopped s) (reports evs) else reports evs
     | _ \<Rightarrow> reports evs)"
  by (auto simp: reports_def split: run_event.split)

lemma reports_Nil [simp]: "reports [] = {}"
  by (simp add: reports_def)

definition run_inv :: "run_mode \<Rightarrow> server list \<Rightarrow> run_error list \<Rightarrow> run_event list \<Rightarrow> run_state \<Rightarrow> bool" where
  "run_inv mode opened errs evs st \<longleftrightarrow>
     (\<forall>s. s \<notin> set opened \<longrightarrow> rn_state st s = Finished) \<and>
     length (rn_errs st) + unfinished opened st \<le> length opened + 1 \<and>
     (rn_ctx_done st \<longleftrightarrow> Ctx_Done \<in> set evs) \<and>
     set (rn_errs st) \<subseteq> set errs \<union> reports evs \<and>
     (case rn_main st of
        Selecting \<Rightarrow> set errs \<union> reports evs \<subseteq> set (rn_errs st)
      | Shutting r ss \<Rightarrow> (\<forall>s. rn_state st s = Running \<longrightarrow> s \<in> set ss) \<and>
          (case r of None \<Rightarrow> Ctx_Done \<in> set evs | Some e \<Rightarrow> e \<in> set errs \<union> reports evs)
      | Joining r \<Rightarrow> (\<forall>s. rn_state st s \<noteq> Running) \<and>
          (case r of None \<Rightarrow> Ctx_Done \<in> set evs | Some e \<Rightarrow> e \<in> set errs \<union> reports evs)
      | Exited r \<Rightarrow> (\<forall>s. rn_state st s = Finished) \<and>
          (case r of
             None \<Rightarrow> Ctx_Done \<in> set evs \<or> errs = [] \<and> reports evs = {}
           | Some e \<Rightarrow> e \<in> set errs \<union> reports evs))"

lemma open_servers_spec:
  assumes "open_servers mode ok cert_ok network addr = Inr (opened, errs)"
  shows "distinct opened" "length opened \<le> 6" "length errs \<le> 1" "set (shutdown_order mode opened) = set opened"
  using assms
  by (auto simp: open_servers_def open_plain_def open_doh_def start_plaintext_doh_def shutdown_order_def Let_def
      split: run_mode.splits if_splits)

lemma set_server_simps [simp]:
  "rn_state (set_server s p st) = (rn_state st)(s := p)" "rn_errs (set_server s p st) = rn_errs st"
  "rn_ctx_done (set_server s p st) = rn_ctx_done st" "rn_main (set_server s p st) = rn_main st"
  by (simp_all add: set_server_def)

lemma unfinished_cong: "(\<And>s. rn_state st' s = Finished \<longleftrightarrow> rn_state st s = Finished) \<Longrightarrow> unfinished opened st' = unfinished opened st"
  by (simp add: unfinished_def)

lemma unfinished_finish:
  assumes "distinct opened" "s \<in> set opened" "rn_state st s \<noteq> Finished" "rn_state st' = (rn_state st)(s := Finished)"
  shows "unfinished opened st' + 1 = unfinished opened st"
  using assms(1,2)
proof (induction opened)
  case (Cons x xs)
  show ?case
  proof (cases "x = s")
    case True
    with Cons.prems(1) have "filter (\<lambda>s. rn_state st' s \<noteq> Finished) xs = filter (\<lambda>s. rn_state st s \<noteq> Finished) xs"
      by (auto simp: assms(4) intro: filter_cong)
    with True assms(3,4) show ?thesis by (simp add: unfinished_def)
  next
    case False
    with Cons assms(4) show ?thesis by (auto simp: unfinished_def)
  qed
qed simp

lemma run_inv_init: "length errs \<le> 1 \<Longrightarrow> run_inv mode opened errs [] (run_init opened errs)"
  by (simp add: run_inv_def run_init_def unfinished_def le_diff_conv
      le_trans [OF add_mono [OF _ length_filter_le]])

lemma run_inv_returns:
  assumes "run_inv mode opened errs evs st" "distinct opened" "rn_state st s \<noteq> Finished"
  shows "run_inv mode opened errs (evs @ [Returns s err])
     ((set_server s Finished st)\<lparr>rn_errs := rn_errs st @ (if reported s err then [Service_Stopped s] else [])\<rparr>)"
    (is "run_inv _ _ _ _ ?st")
proof -
  have s: "s \<in> set opened" using assms(1,3) by (auto simp: run_inv_def)
  have u: "unfinished opened ?st + 1 = unfinished opened st"
    by (rule unfinished_finish [OF assms(2) s assms(3)]) simp
  have r: "reports (evs @ [Returns s err]) = (if reported s err then insert (Service_Stopped s) (reports evs) else reports evs)"
    by (simp add: reports_snoc)
  show ?thesis
  proof (cases "reported s err")
    case True
    with assms(1,3) u r show ?thesis by (cases "rn_main st") (auto simp: run_inv_def split: option.splits)
  next
    case False
    with assms(1,3) u r show ?thesis by (cases "rn_main st") (auto simp: run_inv_def split: option.splits)
  qed
qed

lemma all_finished_inv: "run_inv mode opened errs evs st \<Longrightarrow> all_finished opened st \<Longrightarrow> rn_state st s = Finished"
  by (cases "s \<in> set opened") (auto simp: run_inv_def all_finished_def list_all_iff)

lemma run_inv_step:
  assumes "run_inv mode opened errs evs st" "distinct opened" "set (shutdown_order mode opened) = set opened"
    "server_step mode opened ev st = Some st'"
  shows "run_inv mode opened errs (evs @ [ev]) st'"
proof (cases ev)
  case (Returns s err)
  with assms(4) run_inv_returns [OF assms(1,2), of s err] show ?thesis by (auto split: if_splits)
next
  case Ctx_Done
  with assms(1,4) show ?thesis
    by (cases "rn_main st") (auto simp: run_inv_def reports_snoc unfinished_def split: option.splits if_splits)
next
  case Main_Ctx
  have "s \<in> set opened" if "rn_state st s = Running" for s
    using assms(1) that by (cases "s \<in> set opened") (auto simp: run_inv_def reports_snoc)
  with Main_Ctx assms(1,3,4) show ?thesis
    by (auto simp: run_inv_def reports_snoc unfinished_def split: if_splits)
next
  case Main_Err
  with assms(4) obtain e es where e: "rn_main st = Selecting" "rn_errs st = e # es"
    "st' = st\<lparr>rn_main := Shutting (Some e) (shutdown_order mode opened), rn_errs := es\<rparr>"
    by (auto split: main_pc.splits list.splits)
  with assms(1,3) Main_Err show ?thesis by (auto simp: run_inv_def reports_snoc unfinished_def)
next
  case Main_Done
  with assms(4) have m: "rn_main st = Selecting" "all_finished opened st"
    "st' = st\<lparr>rn_main := Exited (case rn_errs st of [] \<Rightarrow> None | e # es \<Rightarrow> Some e)\<rparr>" by (auto split: if_splits)
  with all_finished_inv [OF assms(1) m(2)] assms(1) Main_Done show ?thesis
    by (auto simp: run_inv_def reports_snoc unfinished_def split: list.splits)
next
  case Main_Close
  show ?thesis
  proof (cases "rn_main st")
    case (Shutting r ss)
    show ?thesis
    proof (cases ss)
      case Nil
      with Shutting Main_Close assms(1,4) show ?thesis
        by (auto simp: run_inv_def reports_snoc unfinished_def split: option.splits)
    next
      case (Cons s rest)
      let ?st = "if rn_state st s = Running then set_server s Closing st else st"
      have "unfinished opened ?st = unfinished opened st" by (rule unfinished_cong) simp
      moreover have "unfinished opened st' = unfinished opened ?st" using Shutting Cons Main_Close assms(4)
        by (auto simp: unfinished_def)
      ultimately show ?thesis
        using Shutting Cons Main_Close assms(1,4) by (auto simp: run_inv_def reports_snoc split: option.splits if_splits)
    qed
  qed (use Main_Close assms(4) in simp_all)
next
  case Main_Join
  with assms(4) obtain r where m: "rn_main st = Joining r" "all_finished opened st" "st' = st\<lparr>rn_main := Exited r\<rparr>"
    by (auto split: main_pc.splits if_splits)
  with all_finished_inv [OF assms(1) m(2)] assms(1) Main_Join show ?thesis
    by (auto simp: run_inv_def reports_snoc unfinished_def split: option.splits)
qed

lemma run_inv_run:
  assumes "open_servers mode ok cert_ok network addr = Inr (opened, errs)"
    "server_run mode opened evs (run_init opened errs) = Some st"
  shows "run_inv mode opened errs evs st"
  using assms(2)
proof (induction evs arbitrary: st rule: rev_induct)
  case Nil
  with run_inv_init [OF open_servers_spec(3) [OF assms(1)], of mode opened] show ?case by simp
next
  case (snoc ev evs)
  from snoc.prems obtain st1 where st1: "server_run mode opened evs (run_init opened errs) = Some st1"
    "server_step mode opened ev st1 = Some st" by (auto simp: run_steps_snoc bind_eq_Some_conv)
  show ?case
    by (rule run_inv_step [OF snoc.IH [OF st1(1)] open_servers_spec(1,4) [OF assms(1)] st1(2)])
qed

subsection \<open>Progress\<close>

fun server_work :: "server_state \<Rightarrow> nat" where
  "server_work Running = 2"
| "server_work Closing = 1"
| "server_work Finished = 0"

fun main_work :: "run_mode \<Rightarrow> server list \<Rightarrow> main_pc \<Rightarrow> nat" where
  "main_work mode opened Selecting = length (shutdown_order mode opened) + 4"
| "main_work mode opened (Shutting r ss) = length ss + 3"
| "main_work mode opened (Joining r) = 2"
| "main_work mode opened (Exited r) = 0"

definition run_work :: "run_mode \<Rightarrow> server list \<Rightarrow> run_state \<Rightarrow> nat" where
  "run_work mode opened st =
     sum_list (map (\<lambda>s. server_work (rn_state st s)) opened) + main_work mode opened (rn_main st) +
     (if rn_ctx_done st then 0 else 1)"

lemma work_update:
  "s \<in> set opened \<Longrightarrow> server_work p < server_work (f s) \<Longrightarrow>
   sum_list (map (\<lambda>x. server_work ((f(s := p)) x)) opened) < sum_list (map (\<lambda>x. server_work (f x)) opened)"
proof (induction opened)
  case (Cons x xs)
  have le: "sum_list (map (\<lambda>x. server_work ((f(s := p)) x)) xs) \<le> sum_list (map (\<lambda>x. server_work (f x)) xs)"
    using Cons.prems(2) by (intro sum_list_mono) simp
  show ?case
  proof (cases "x = s")
    case True
    with le Cons.prems(2) show ?thesis by simp
  next
    case False
    with Cons show ?thesis by auto
  qed
qed simp

lemma run_step_works:
  assumes "run_inv mode opened errs evs st" "server_step mode opened ev st = Some st'"
  shows "run_work mode opened st' < run_work mode opened st"
proof -
  have opened: "s \<in> set opened" if "rn_state st s \<noteq> Finished" for s
    using assms(1) that by (auto simp: run_inv_def)
  have upd: "sum_list (map (\<lambda>x. server_work (((rn_state st)(s := p)) x)) opened) <
      sum_list (map (\<lambda>x. server_work (rn_state st x)) opened)"
    if "rn_state st s \<noteq> Finished" "p = Finished \<or> p = Closing \<and> rn_state st s = Running" for s p
    by (rule work_update) (use that opened in \<open>cases "rn_state st s"; auto\<close>)+
  show ?thesis
  proof (cases ev)
    case (Returns s err)
    with assms(2) upd [of s Finished] show ?thesis by (auto simp: run_work_def split: if_splits)
  next
    case Main_Close
    show ?thesis
    proof (cases "rn_main st")
      case (Shutting r ss)
      show ?thesis
      proof (cases ss)
        case (Cons s rest)
        with Shutting Main_Close assms(2) upd [of s Closing] show ?thesis
          by (auto simp: run_work_def split: if_splits)
      qed (use Shutting Main_Close assms(2) in \<open>auto simp: run_work_def\<close>)
    qed (use Main_Close assms(2) in simp_all)
  qed (use assms(2) in \<open>auto simp: run_work_def split: if_splits main_pc.splits list.splits\<close>)
qed

lemma run_can_go_on:
  assumes "run_inv mode opened errs evs st" "\<forall>r. rn_main st \<noteq> Exited r" "rn_ctx_done st \<or> rn_main st \<noteq> Selecting"
  shows "\<exists>ev st'. ev \<noteq> Ctx_Done \<and> server_step mode opened ev st = Some st'"
proof (cases "rn_main st")
  case Selecting
  with assms(3) have "server_step mode opened Main_Ctx st \<noteq> None" by simp
  then show ?thesis by blast
next
  case (Shutting r ss)
  then have "server_step mode opened Main_Close st \<noteq> None" by (cases ss) simp_all
  then show ?thesis by blast
next
  case (Joining r)
  show ?thesis
  proof (cases "all_finished opened st")
    case True
    with Joining have "server_step mode opened Main_Join st \<noteq> None" by simp
    then show ?thesis by blast
  next
    case False
    then obtain s where "rn_state st s \<noteq> Finished" by (auto simp: all_finished_def list_all_iff)
    with assms(1) Joining have "rn_state st s = Closing" by (cases "rn_state st s") (auto simp: run_inv_def)
    then have "server_step mode opened (Returns s None) st \<noteq> None" by (auto simp: reported_def)
    then show ?thesis by blast
  qed
qed (use assms(2) in simp)

definition server_inv :: "run_mode \<Rightarrow> server list \<Rightarrow> run_error list \<Rightarrow> run_state \<Rightarrow> bool" where
  "server_inv mode opened errs st \<longleftrightarrow> distinct opened \<and> set (shutdown_order mode opened) = set opened \<and>
     (\<exists>evs. run_inv mode opened errs evs st)"

interpretation servers: finishing_steps "server_step mode opened" "\<lambda>ev. True" "server_inv mode opened errs"
    "run_work mode opened" "\<lambda>st. \<exists>r. rn_main st = Exited r"
  for mode opened errs
proof
  show "server_inv mode opened errs st'"
    if "server_inv mode opened errs st" "server_step mode opened ev st = Some st'" for ev st st'
    using that run_inv_step by (fastforce simp: server_inv_def)
  show "run_work mode opened st' < run_work mode opened st"
    if "server_inv mode opened errs st" "server_step mode opened ev st = Some st'" for ev st st'
    using that run_step_works by (auto simp: server_inv_def)
  show "\<exists>ev st'. True \<and> server_step mode opened ev st = Some st'"
    if "server_inv mode opened errs st" "\<not> (\<exists>r. rn_main st = Exited r)" for st
  proof (cases "rn_ctx_done st \<or> rn_main st \<noteq> Selecting")
    case True
    from that(1) obtain evs where i: "run_inv mode opened errs evs st" unfolding server_inv_def by blast
    have "\<forall>r. rn_main st \<noteq> Exited r" using that(2) by blast
    from run_can_go_on [OF i this True] show ?thesis by blast
  next
    case False
    then have "server_step mode opened Ctx_Done st \<noteq> None" by simp
    then show ?thesis by blast
  qed
qed

lemma run_work_init:
  assumes "length opened \<le> 6"
  shows "run_work mode opened (run_init opened errs) \<le> 23"
proof -
  have "length (shutdown_order mode opened) \<le> 6"
    by (cases mode) (simp_all add: shutdown_order_def le_trans [OF length_filter_le])
  moreover have "sum_list (map (\<lambda>s. server_work (rn_state v s)) xs) \<le> 2 * length xs" for v xs
  proof (induction xs)
    case (Cons x xs)
    have "server_work (rn_state v x) \<le> 2" by (cases "rn_state v x") simp_all
    with Cons show ?case by simp
  qed simp
  from this [of "run_init opened errs" opened]
  have "sum_list (map (\<lambda>s. server_work (rn_state (run_init opened errs) s)) opened) \<le> 12" using assms by linarith
  ultimately show ?thesis by (simp add: run_work_def) (simp add: run_init_def)
qed

subsection \<open>Properties\<close>

text \<open>C19: When the program returns from running its servers, none of them is running any more, so the
  handler can be stopped; the result is an error that was reported, and it is none only if
  the program was told to stop or no error was reported; and the channel of errors never fills up,
  so no server is ever held up reporting one.\<close>

theorem run_result:
  assumes "open_servers mode ok cert_ok network addr = Inr (opened, errs)"
    and "server_run mode opened evs (run_init opened errs) = Some st"
  shows "length (rn_errs st) < 16 \<and>
    (\<forall>r. rn_main st = Exited r \<longrightarrow> (\<forall>s. rn_state st s = Finished) \<and>
       (case r of
          None \<Rightarrow> Ctx_Done \<in> set evs \<or> errs = [] \<and> reports evs = {}
        | Some e \<Rightarrow> e \<in> set errs \<union> reports evs))"
proof -
  note i = run_inv_run [OF assms]
  from i open_servers_spec(2) [OF assms(1)] have "length (rn_errs st) < 16" by (simp add: run_inv_def)
  with i show ?thesis by (auto simp: run_inv_def split: option.splits)
qed

text \<open>A failure of the DNS server over TCP: the others are shut down, and the error is returned.\<close>

definition demo_run_events :: "run_event list" where
  "demo_run_events = [Returns Tcp (Some (Serve_Error ''accept failed'')), Main_Err, Main_Close, Main_Close, Main_Close,
     Returns Udp (Some (Serve_Error ''use of closed network connection'')), Main_Join]"

theorem run_result_witness:
  "\<exists>st. server_run Run_Plain [Udp, Tcp] demo_run_events (run_init [Udp, Tcp] []) = Some st \<and>
     rn_main st = Exited (Some (Service_Stopped Tcp)) \<and> rn_state st Udp = Finished \<and> length (rn_errs st) < 16"
proof -
  have o: "open_servers Run_Plain (\<lambda>s. True) True [] [] = Inr ([Udp, Tcp], [])" by code_simp
  obtain st where st: "server_run Run_Plain [Udp, Tcp] demo_run_events (run_init [Udp, Tcp] []) = Some st"
    "rn_main st = Exited (Some (Service_Stopped Tcp))"
  proof -
    have "reported Tcp (Some (Serve_Error ''accept failed''))"
      "\<not> reported Udp (Some (Serve_Error ''use of closed network connection''))" by code_simp+
    then show thesis using that
      by (simp add: demo_run_events_def run_init_def err_cap_def shutdown_order_def all_finished_def)
  qed
  with run_result [OF o st(1)] show ?thesis by blast
qed



end
