(* ===== verification/Cert_Watch.thy ===== *)
theory Cert_Watch
  imports Server_Run
begin

section \<open>The certificate of the HTTPS server (\<open>runDoH\<close> of \<open>cmd/main.go\<close>)\<close>

text \<open>
  The pair of files is loaded before the HTTPS server is made, and again every ten minutes by
  a goroutine of its own, which \<open>shutdown\<close> ends by closing a channel. Handshakes read the
  pointer that holds the certificate. What \<open>tls.LoadX509KeyPair\<close> returns is an argument: a
  certificate or an error.
\<close>

subsection \<open>Operations\<close>

record 'cert cert_state =
  ct_cert :: "'cert option"
  ct_tick :: bool
  ct_stop_closed :: bool
  ct_returned :: bool

definition load_cert :: "string + 'cert \<Rightarrow> 'cert cert_state \<Rightarrow> string option \<times> 'cert cert_state" where
  "load_cert pair st =
     (case pair of
        Inl err \<Rightarrow> (Some err, st)
      | Inr cert \<Rightarrow> (None, st\<lparr>ct_cert := Some cert\<rparr>))"

definition start_cert :: "string + 'cert \<Rightarrow> string + 'cert cert_state" where
  "start_cert pair =
     (case load_cert pair \<lparr>ct_cert = None, ct_tick = False, ct_stop_closed = False, ct_returned = False\<rparr> of
        (Some err, st) \<Rightarrow> Inl err
      | (None, st) \<Rightarrow> Inr st)"

text \<open>Reading a pointer that holds nothing fails the type assertion, which is a panic.\<close>

definition get_certificate :: "'cert cert_state \<Rightarrow> 'cert option" where
  "get_certificate st = ct_cert st"

datatype 'cert cert_event = Cert_Tick | Cert_Load "string + 'cert" | Handshake | Cert_Stop | Cert_Returns

fun cert_step :: "'cert cert_event \<Rightarrow> 'cert cert_state \<Rightarrow> 'cert cert_state option" where
  "cert_step Cert_Tick st = (if ct_returned st then None else Some (st\<lparr>ct_tick := True\<rparr>))"
| "cert_step (Cert_Load pair) st =
     (if ct_tick st \<and> \<not> ct_returned st then Some (snd (load_cert pair (st\<lparr>ct_tick := False\<rparr>))) else None)"
| "cert_step Handshake st = map_option (\<lambda>cert. st) (get_certificate st)"
| "cert_step Cert_Stop st = (if ct_stop_closed st then None else Some (st\<lparr>ct_stop_closed := True\<rparr>))"
| "cert_step Cert_Returns st =
     (if ct_stop_closed st \<and> \<not> ct_returned st then Some (st\<lparr>ct_returned := True\<rparr>) else None)"

subsection \<open>The certificate in use\<close>

definition brings_cert :: "'cert cert_event \<Rightarrow> 'cert option" where
  "brings_cert ev = (case ev of Cert_Load (Inr cert) \<Rightarrow> Some cert | _ \<Rightarrow> None)"

interpretation cert: hot_swap cert_step "\<lambda>ev. True" "\<lambda>st. True" brings_cert ct_cert
proof unfold_locales
  fix ev :: "'cert cert_event" and st st'
  assume "cert_step ev st = Some st'"
  then show "ct_cert st' = (case brings_cert ev of None \<Rightarrow> ct_cert st | Some cert \<Rightarrow> Some cert)"
    by (cases ev) (auto simp: brings_cert_def load_cert_def split: if_splits sum.splits)
qed simp

text \<open>
  From a start that succeeds on, a handshake gets the last certificate that loaded; a pair of
  files that does not load changes nothing, and no handshake panics.
\<close>

lemma certificate_in_use:
  assumes "start_cert pair = Inr st" "run_steps cert_step evs st = Some st'"
  shows "get_certificate st' = latest brings_cert evs (Some (projr pair))"
    and "cert_step Handshake st' = Some st'"
proof -
  have st: "ct_cert st = Some (projr pair)"
    using assms(1) by (auto simp: start_cert_def load_cert_def split: sum.splits)
  have "list_all (\<lambda>ev. True) evs" by (simp add: list_all_iff)
  from cert.in_use_latest [OF this TrueI assms(2)] show "get_certificate st' = latest brings_cert evs (Some (projr pair))"
    by (simp add: st get_certificate_def)
  with latest_not_None [of "Some (projr pair)" brings_cert evs] have "get_certificate st' \<noteq> None" by simp
  then show "cert_step Handshake st' = Some st'" by auto
qed

subsection \<open>The watcher among the servers\<close>

text \<open>
  The goroutine is the server \<open>Cert_Watch\<close> of \<open>Server_Run\<close>: closing its channel is what shutting
  it down does there, it returns only after that, and with no error.
\<close>

definition watch_state :: "'cert cert_state \<Rightarrow> server_state" where
  "watch_state st = (if ct_returned st then Finished else if ct_stop_closed st then Closing else Running)"

lemma watch_refines:
  assumes "cert_step ev st = Some st'" "watch_state st = rn_state rs Cert_Watch" "\<not> ct_returned st"
  shows "(case ev of
      Cert_Stop \<Rightarrow> watch_state st = Running \<and> watch_state st' = Closing
    | Cert_Returns \<Rightarrow>
        server_step mode opened (Returns Cert_Watch None) rs = Some (set_server Cert_Watch (watch_state st') rs)
    | _ \<Rightarrow> watch_state st' = watch_state st)"
proof (cases ev)
  case Cert_Returns
  with assms show ?thesis
    by (auto simp: watch_state_def reported_def set_server_def split: if_splits)
qed (use assms in \<open>auto simp: watch_state_def load_cert_def get_certificate_def split: if_splits sum.splits\<close>)

text \<open>The server is opened exactly if the first load succeeds: \<open>cert_ok\<close> of \<open>open_doh\<close>.\<close>

lemma start_cert_opens:
  "start_cert pair = Inl err \<Longrightarrow> network = [] \<or> network = ''tcp'' \<Longrightarrow> ok Udp \<Longrightarrow> ok Tcp \<Longrightarrow>
   \<exists>closed. open_doh ok (\<not> isl (start_cert pair)) network addr = Inl (Cert_Failed, closed)"
  by (auto simp: open_doh_def Let_def)

end
