(* ===== verification/Spec2Isabelle.thy ===== *)
theory Spec2Isabelle
  imports Doh_Inbound Doh_Client Network_Calls Group_Life Cert_Watch
begin

text \<open>
  \<^bold>\<open>ts-dns: a splitting DNS forwarder.\<close>

  A query comes in, is answered from the hosts table or the cache, or else is given to one of
  several groups of upstream servers, chosen by rules on the domain. A redirector may look at
  the addresses of the answer and hand the query to another group. The model follows the Go
  sources under \<open>src/\<close> function by function; the theories are, from the bottom up:

  \<^item> \<open>Prelude\<close>, \<open>Go_Strings\<close>, \<open>Go_Io\<close>, \<open>Go_Base64\<close>, \<open>Go_Regexp\<close>, \<open>Go_Net\<close>, \<open>Go_Time\<close>: what the
    sources use of the language and its standard library. Machine integers are words
    (\<open>u8\<close>, \<open>u16\<close>, \<open>u32\<close>) or, for Go's \<open>int\<close> and \<open>time.Duration\<close>, integers with \<open>wrap64\<close> where
    they can overflow; a loop that may return early with an error is \<open>fold_r\<close>; ranging over a
    map takes a list that enumerates it, in any order. \<open>Go_Regexp\<close> states what the program
    relies on of an expression engine as two locales, interpreted on an executable engine.
  \<^item> \<open>Step_System\<close>: machines that step on events, with what follows of their invariant, the work
    they have left and their progress, as locales; they are interpreted on the race of the
    callers, the DoH caller, the goroutines of a group, the wrapper of the handler, the servers
    and the certificate.
  \<^item> \<open>Dns_Types\<close>: messages, and the operations of the DNS library as a record of functions with
    laws; \<open>Utils_Dns\<close>: \<open>utils/dns.go\<close>; \<open>Config\<close>: \<open>config/config.go\<close> and \<open>normalizeConf\<close>.
  \<^item> \<open>Domain_Trie\<close>: \<open>matcher/trie.go\<close>. The trie refines a map from label lists to verdicts
    (\<open>rules_of\<close>); a lookup is the most specific rule. \<open>Adblock\<close>: \<open>matcher/adblock.go\<close>, reading
    rules, \<open>Match\<close>, \<open>Extend\<close>, \<open>Optimize\<close>. A panic is a value of the result.
  \<^item> \<open>Dns_Cache\<close>: \<open>cache/dns.go\<close>. \<open>Hosts_Reader\<close>: \<open>hosts/hosts.go\<close>.
  \<^item> \<open>Hijack\<close>, \<open>Callers\<close>, \<open>Caller_Stats\<close>, \<open>Group_Race\<close>, \<open>Group_Impl\<close>, \<open>Group_Build\<close>:
    \<open>outbound/groups.go\<close> and \<open>outbound/caller.go\<close>: the hijack rules; the callers and how a DoH
    caller finds its server; the per-host choice of a caller; the concurrent attempts of one
    query as a state machine over events; matching, handling, post-processing, the worker of
    the ipset queue, the fetched rule list; and building all groups from a configuration.
    \<open>Group_Life\<close>: \<open>Start\<close> and \<open>Stop\<close> of a group as a state machine over its goroutines, which
    refines the worker and the life cycle of \<open>Group_Impl\<close>.
  \<^item> \<open>Cidr_Redirector\<close>: \<open>redirector/redirector.go\<close>.
  \<^item> \<open>Doh_Client\<close>: \<open>Start\<close>, \<open>run\<close>, \<open>getClient\<close> and \<open>Exit\<close> of a DoH caller as a state machine over its
    two channels, every change of the caller being a step of \<open>doh_reach\<close> in \<open>Callers\<close>.
    \<open>Network_Calls\<close>: \<open>Call\<close> of both callers and \<open>utils/ping.go\<close>, as the operations they perform.
  \<^item> \<open>Handler_Impl\<close>: \<open>handlerImpl\<close> of \<open>inbound/handler.go\<close>, which composes all of the above. It
    sees groups through the record \<open>igroup\<close> (the Go interface \<open>IGroup\<close>); its lemmas are proved
    in the locale \<open>group_contract\<close>, interpreted on the groups of \<open>Group_Impl\<close>.
  \<^item> \<open>Handler_Wrapper\<close>: \<open>handlerWrapper\<close> of the same file: reloads, a stop and queries of any
    number of threads as a state machine over its two locks, and the life of the handlers.
  \<^item> \<open>Request_Log\<close>: \<open>utils/resp_writer.go\<close>, \<open>utils/request_info.go\<close> and the log line of \<open>handle\<close>.
    \<open>Doh_Inbound\<close>: \<open>inbound/doh.go\<close>, from an HTTP request through the wrapper to a response.
  \<^item> \<open>Server_Main\<close>: \<open>cmd/main.go\<close> from the flags to a handler, and the reload on a signal;
    \<open>live_run\<close> is the life of the whole program as a sequence of signals and queries.
    \<open>Server_Run\<close>: \<open>runPlain\<close> and \<open>runDoH\<close> as a state machine over the goroutines of the servers;
    \<open>Cert_Watch\<close>: the certificate that is loaded again while they run.

  \<^bold>\<open>State.\<close> Every structure is a record with the source's fields, operations take it and return
  it changed. A pointer to a group is its key in the map of groups. Inside a handler an
  operation under a lock is one step. What runs concurrently is a step relation or a list
  of events: the race of the callers (\<open>race_step\<close>), the ipset worker (\<open>worker_step\<close>), the
  channels of a DoH caller (\<open>doh_step\<close>), the goroutines of a group (\<open>group_step\<close>), the locks of
  the wrapper (\<open>wrapper_step\<close>), the servers (\<open>server_step\<close>), the certificate (\<open>cert_step\<close>). Time, random numbers, map orders, upstream answers and ping
  results are arguments, so theorems hold for all of them.

  \<^bold>\<open>Parameters.\<close> Code that is not in the repository is an argument: the DNS library (\<open>dns_lib\<close>),
  the cache store (\<open>ristretto\<close>), the trie of networks (\<open>ranger\<close>), the expression engine
  (\<open>regexp_engine\<close>), the wire format of messages (\<open>wire_lib\<close>), the YAML decoder, \<open>url.Parse\<close>, the file system, HTTP, the SOCKS5 and ipset constructors.
  What a theorem needs of them is a law among its hypotheses, which states documented
  behaviour; an instance of each (\<open>plain_lib\<close>, \<open>map_store\<close>, \<open>list_ranger\<close>, \<open>go_regexp\<close>) shows
  that the laws can hold and lets the witnesses compute.

  \<^bold>\<open>Bounds and fuel.\<close> A race with n candidates has at most 2n + 3 events, so a schedule of that
  length is enough for \<open>group_handle\<close> to return; \<open>No_Return\<close> is a schedule that is no complete
  run. The parser of durations has the length of the text as fuel, and each item takes at
  least one character. All other loops are structural recursions or have a measure. The
  calls of the wrapper under way take at most 3 steps each; a waiting call of \<open>getClient\<close> is at
  most 6 steps from its return; running the servers takes at most 23 steps; stopping a group
  takes at most 1034, most of them for the full queue, and two more for each tick meanwhile.

  \<^bold>\<open>What the groups of lemmas show.\<close> A query never panics, the right group gets it, what the
  cache returns was answered before (\<open>Handler_Impl\<close>); a race ends, and what it returns comes
  from a caller that was asked (\<open>Group_Race\<close>); a group keeps to the caller that answers
  (\<open>Group_Impl\<close>, \<open>Caller_Stats\<close>), uses the latest rule list that was fetched, and stops without
  losing what is queued (\<open>Group_Life\<close>); the rules match what they say (\<open>Domain_Trie\<close>, \<open>Adblock\<close>,
  \<open>Hosts_Reader\<close>, \<open>Cidr_Redirector\<close>); the order of Go's maps is irrelevant (\<open>Group_Build\<close>,
  \<open>Hosts_Reader\<close>, \<open>Handler_Impl\<close>); a query in flight runs on a handler that is not stopped,
  nothing is left running, nothing deadlocks (\<open>Handler_Wrapper\<close>); the program keeps serving
  through reloads that fail (\<open>Server_Main\<close>) and returns when its servers have ended
  (\<open>Server_Run\<close>); HTTP requests get the status they should, and their client cannot be forged
  (\<open>Doh_Inbound\<close>); proxies and TLS are used where they are configured (\<open>Network_Calls\<close>).
  A DoH caller can get stuck for good (\<open>Doh_Client\<close>). Where the code departs from what it means to do, a theorem
  shows that too.

  \<^bold>\<open>Not modelled.\<close> What the network does is an event or an argument: how dialling, TLS, HTTP and
  ICMP turn out, and what the servers of the libraries do between starting and ending. The
  parsing of flags, the log file and the log's levels other than that of \<open>handle\<close>'s line, the
  parsing of certificates, and the test mocks are left out. The memory model of Go is not
  modelled either: the steps of a thread between two lock or channel operations are atomic.
\<close>

end
